(* ===== verification/Web_Prelude.thy ===== *)
theory Web_Prelude
  imports Main "HOL-Library.List_Lexorder" "HOL-Library.Char_ord"
begin

text \<open>
  Shared vocabulary of the development.  Bytes of the wire, of files and of
  configuration text are values of type \<open>char\<close> (8 bits); a \<open>std::string\<close> or a
  \<open>[pointer, length)\<close> range is a \<open>string\<close>.  The theory holds

    \<^item> the named theorem collections used by the component proofs,
    \<^item> \<open>size_t\<close> arithmetic with its wrap-around written out,
    \<^item> the result type of operations that may throw (a sum, \<open>Inl\<close> for the failure),
    \<^item> the searching and slicing operations of \<open>std::string\<close> that the sources use,
    \<^item> decimal and hexadecimal rendering as done by \<open>std::ostream\<close>,
    \<^item> \<open>std::map\<close> as a sorted association list.
\<close>

section \<open>Named theorem collections\<close>

named_theorems wf_intros \<open>preservation of well-formedness predicates\<close>
named_theorems run_simps \<open>equations that evaluate an operation on a well-formed argument\<close>

section \<open>size_t arithmetic\<close>

text \<open>
  \<open>size_t\<close> is 64 bits wide.  Subtraction below zero wraps around; addition is
  reduced modulo \<open>2 ^ 64\<close>.
\<close>

definition sz_add :: "nat \<Rightarrow> nat \<Rightarrow> nat" where
  "sz_add a b = (a + b) mod 2 ^ 64"

definition sz_sub :: "nat \<Rightarrow> nat \<Rightarrow> nat" where
  "sz_sub a b = (if b \<le> a then a - b else 2 ^ 64 - (b - a))"

definition max_size :: nat where
  \<comment> \<open>\<open>std::vector<char>::max_size()\<close>, the largest object: \<open>PTRDIFF_MAX\<close>\<close>
  "max_size = 2 ^ 63 - 1"

lemma sz_add_small [simp]: "a + b < 2 ^ 64 \<Longrightarrow> sz_add a b = a + b"
  unfolding sz_add_def by (rule mod_less)

lemma sz_sub_le [simp]: "b \<le> a \<Longrightarrow> sz_sub a b = a - b"
  by (simp add: sz_sub_def)

lemma sz_sub_wraps: "a < b \<Longrightarrow> sz_sub a b = 2 ^ 64 - (b - a)"
  by (simp add: sz_sub_def)

section \<open>Results of operations that may throw\<close>

definition rbind :: "'e + 'a \<Rightarrow> ('a \<Rightarrow> 'e + 'b) \<Rightarrow> 'e + 'b" where
  "rbind r f = (case r of Inl e \<Rightarrow> Inl e | Inr x \<Rightarrow> f x)"

lemma rbind_simps [simp]:
  "rbind (Inl e) f = Inl e"
  "rbind (Inr x) f = f x"
  by (simp_all add: rbind_def)

lemma rbind_InrE:
  assumes "rbind r f = Inr y"
  obtains x where "r = Inr x" "f x = Inr y"
  using assms by (cases r) auto

lemma rbind_Inr_iff: "rbind r f = Inr y \<longleftrightarrow> (\<exists>x. r = Inr x \<and> f x = Inr y)"
  by (cases r) auto

lemma rbind_cong [fundef_cong]:
  "r = r' \<Longrightarrow> (\<And>x. r' = Inr x \<Longrightarrow> f x = g x) \<Longrightarrow> rbind r f = rbind r' g"
  by (cases r') auto

definition with_state :: "'s \<Rightarrow> 'e + 'a \<Rightarrow> ('e \<times> 's) + 'a" where
  \<comment> \<open>an exception leaves the object in the state reached when it was thrown\<close>
  "with_state s r = (case r of Inl e \<Rightarrow> Inl (e, s) | Inr x \<Rightarrow> Inr x)"

lemma with_state_simps [simp]:
  "with_state s (Inl e) = Inl (e, s)"
  "with_state s (Inr x) = Inr x"
  by (simp_all add: with_state_def)

lemma with_state_Inr_iff [simp]: "with_state s r = Inr x \<longleftrightarrow> r = Inr x"
  by (cases r) auto

section \<open>Characters\<close>

abbreviation CR :: char where "CR \<equiv> CHR 0x0D"
abbreviation LF :: char where "LF \<equiv> CHR 0x0A"
abbreviation TAB :: char where "TAB \<equiv> CHR 0x09"
abbreviation DQUOTE :: char where "DQUOTE \<equiv> CHR 0x22"
abbreviation SQUOTE :: char where "SQUOTE \<equiv> CHR 0x27"
abbreviation BACKSLASH :: char where "BACKSLASH \<equiv> CHR 0x5C"
abbreviation SLASH :: char where "SLASH \<equiv> CHR ''/''"
abbreviation NUL :: char where "NUL \<equiv> CHR 0x00"

definition crlf :: string where "crlf = [CR, LF]"
definition nl :: string where "nl = [LF]"

definition ord :: "char \<Rightarrow> nat" where "ord c = of_char c"

definition chr :: "nat \<Rightarrow> char" where "chr n = char_of n"

lemma ord_less [simp]: "ord c < 256"
  by (simp add: ord_def)

lemma chr_ord [simp]: "chr (ord c) = c"
  by (simp add: chr_def ord_def)

lemma ord_chr [simp]: "n < 256 \<Longrightarrow> ord (chr n) = n"
  by (simp add: ord_def chr_def)

lemma ord_inject [simp]: "ord c = ord d \<longleftrightarrow> c = d"
  by (metis chr_ord)

definition in_range :: "char \<Rightarrow> char \<Rightarrow> char \<Rightarrow> bool" where
  "in_range lo hi c \<longleftrightarrow> ord lo \<le> ord c \<and> ord c \<le> ord hi"

abbreviation is_digit :: "char \<Rightarrow> bool" where "is_digit \<equiv> in_range (CHR ''0'') (CHR ''9'')"
abbreviation is_upper :: "char \<Rightarrow> bool" where "is_upper \<equiv> in_range (CHR ''A'') (CHR ''Z'')"
abbreviation is_lower :: "char \<Rightarrow> bool" where "is_lower \<equiv> in_range (CHR ''a'') (CHR ''z'')"

definition is_xdigit :: "char \<Rightarrow> bool" where
  "is_xdigit c \<longleftrightarrow> is_digit c \<or> in_range (CHR ''a'') (CHR ''f'') c \<or> in_range (CHR ''A'') (CHR ''F'') c"

definition digit_val :: "char \<Rightarrow> nat" where "digit_val c = ord c - ord (CHR ''0'')"

definition to_lower :: "char \<Rightarrow> char" where
  \<comment> \<open>\<open>std::tolower\<close> in the C locale\<close>
  "to_lower c = (if is_upper c then chr (ord c + 32) else c)"

definition to_upper :: "char \<Rightarrow> char" where
  \<comment> \<open>\<open>std::toupper\<close> in the C locale\<close>
  "to_upper c = (if is_lower c then chr (ord c - 32) else c)"

definition is_space :: "char \<Rightarrow> bool" where
  \<comment> \<open>\<open>std::isspace\<close> in the C locale\<close>
  "is_space c \<longleftrightarrow> c = CHR '' '' \<or> (9 \<le> ord c \<and> ord c \<le> 13)"

lemma digit_val_less [simp]: "is_digit c \<Longrightarrow> digit_val c < 10"
  by (simp add: in_range_def digit_val_def ord_def) arith

lemma not_upper_to_lower: "\<not> is_upper (to_lower c)"
proof (cases "is_upper c")
  case True
  then have "ord c + 32 < 256" and "90 < ord c + 32"
    by (simp_all add: in_range_def ord_def)
  then have "ord (to_lower c) = ord c + 32"
    using True by (simp add: to_lower_def)
  with True show ?thesis by (simp add: in_range_def ord_def)
qed (simp add: to_lower_def)

lemma to_lower_idem [simp]: "to_lower (to_lower c) = to_lower c"
  using not_upper_to_lower [of c] by (simp add: to_lower_def [of "to_lower c"])

section \<open>Searching and slicing strings\<close>

primrec find_idx :: "('a \<Rightarrow> bool) \<Rightarrow> 'a list \<Rightarrow> nat option" where
  "find_idx P [] = None"
| "find_idx P (x # xs) = (if P x then Some 0 else map_option Suc (find_idx P xs))"

lemma find_idx_None_iff: "find_idx P xs = None \<longleftrightarrow> (\<forall>x \<in> set xs. \<not> P x)"
  by (induction xs) auto

lemma find_idx_SomeD:
  "find_idx P xs = Some i \<Longrightarrow> i < length xs \<and> P (xs ! i) \<and> (\<forall>x \<in> set (take i xs). \<not> P x)"
  by (induction xs arbitrary: i) (auto split: if_splits)

lemma find_idx_less: "find_idx P xs = Some i \<Longrightarrow> i < length xs"
  by (drule find_idx_SomeD) simp

lemma find_idx_append:
  "find_idx P (xs @ ys) =
     (case find_idx P xs of Some i \<Rightarrow> Some i | None \<Rightarrow> map_option ((+) (length xs)) (find_idx P ys))"
  by (induction xs; cases "find_idx P ys") (auto split: option.splits)

definition str_find_char :: "char \<Rightarrow> nat \<Rightarrow> string \<Rightarrow> nat option" where
  \<comment> \<open>\<open>s.find(c, from)\<close>; \<open>None\<close> is \<open>npos\<close>\<close>
  "str_find_char c from s = map_option ((+) from) (find_idx ((=) c) (drop from s))"

definition str_rfind :: "(char \<Rightarrow> bool) \<Rightarrow> string \<Rightarrow> nat option" where
  \<comment> \<open>\<open>rfind(c)\<close> and \<open>find_last_of(set)\<close>\<close>
  "str_rfind P s = map_option (\<lambda>i. length s - Suc i) (find_idx P (rev s))"

fun find_sub :: "string \<Rightarrow> string \<Rightarrow> nat option" where
  "find_sub pat s =
     (if take (length pat) s = pat then Some 0
      else case s of [] \<Rightarrow> None | _ # r \<Rightarrow> map_option Suc (find_sub pat r))"

declare find_sub.simps [simp del]

definition str_find :: "string \<Rightarrow> nat \<Rightarrow> string \<Rightarrow> nat option" where
  \<comment> \<open>\<open>s.find(pat, from)\<close>\<close>
  "str_find pat from s = map_option ((+) from) (find_sub pat (drop from s))"

definition substr :: "string \<Rightarrow> nat \<Rightarrow> nat \<Rightarrow> string" where
  \<comment> \<open>\<open>s.substr(pos, n)\<close> for \<open>pos <= s.size()\<close>\<close>
  "substr s pos n = take n (drop pos s)"

definition c_str :: "string \<Rightarrow> string" where
  \<comment> \<open>what a C function reads from \<open>s.c_str()\<close>: the bytes before the first NUL\<close>
  "c_str s = takeWhile (\<lambda>c. c \<noteq> NUL) s"

definition starts_with :: "string \<Rightarrow> string \<Rightarrow> bool" where
  \<comment> \<open>\<open>s.compare(0, pre.size(), pre) == 0\<close>\<close>
  "starts_with s pre \<longleftrightarrow> take (length pre) s = pre"

definition ends_with :: "string \<Rightarrow> string \<Rightarrow> bool" where
  \<comment> \<open>\<open>s.size() >= e.size() && s.compare(s.size() - e.size(), e.size(), e) == 0\<close>\<close>
  "ends_with s e \<longleftrightarrow> length e \<le> length s \<and> drop (length s - length e) s = e"

lemma last_index [simp]:
  "s \<noteq> [] \<Longrightarrow> s ! (length s - Suc 0) = last s"
  "Suc 0 < length s \<Longrightarrow> s ! (length s - Suc 0) = last s"
  by (cases s rule: rev_cases; simp)+

lemma find_sub_Some_take:
  "find_sub pat s = Some i \<Longrightarrow> i + length pat \<le> length s \<and> take (length pat) (drop i s) = pat"
proof (induction pat s arbitrary: i rule: find_sub.induct)
  case (1 pat s)
  show ?case
  proof (cases "take (length pat) s = pat")
    case True
    moreover from True have "length pat \<le> length s"
      by (metis length_take min.cobounded1)
    ultimately show ?thesis using "1.prems" by (subst (asm) find_sub.simps) auto
  next
    case False
    with "1.prems" obtain a r j where "s = a # r" "find_sub pat r = Some j" "i = Suc j"
      by (subst (asm) find_sub.simps) (auto split: list.splits)
    with False "1.IH" show ?thesis by auto
  qed
qed

lemma ends_with_append [simp]: "ends_with (s @ e) e"
  by (simp add: ends_with_def)

lemma c_str_id: "NUL \<notin> set s \<Longrightarrow> c_str s = s"
  unfolding c_str_def by (rule takeWhile_eq_all_conv [THEN iffD2]) auto

lemma set_c_str: "set (c_str s) \<subseteq> set s"
  by (auto simp: c_str_def dest: set_takeWhileD)

section \<open>Numbers as text\<close>

fun dec_string :: "nat \<Rightarrow> string" where
  \<comment> \<open>\<open>oss << n\<close> for an unsigned \<open>n\<close>\<close>
  "dec_string n = (if n < 10 then [chr (48 + n)] else dec_string (n div 10) @ [chr (48 + n mod 10)])"

declare dec_string.simps [simp del]

definition int_string :: "int \<Rightarrow> string" where
  \<comment> \<open>\<open>oss << n\<close> for a signed \<open>n\<close>\<close>
  "int_string n = (if n < 0 then CHR ''-'' # dec_string (nat (- n)) else dec_string (nat n))"

definition hex_digit :: "nat \<Rightarrow> char" where
  "hex_digit d = (if d < 10 then chr (48 + d) else chr (87 + d))"

fun hex_string :: "nat \<Rightarrow> string" where
  \<comment> \<open>\<open>ss << std::hex << n\<close>\<close>
  "hex_string n = (if n < 16 then [hex_digit n] else hex_string (n div 16) @ [hex_digit (n mod 16)])"

declare hex_string.simps [simp del]

lemma dec_string_digits: "c \<in> set (dec_string n) \<Longrightarrow> is_digit c"
proof (induction n rule: dec_string.induct)
  case (1 n)
  show ?case
  proof (cases "n < 10")
    case True
    with "1.prems" have "c = chr (48 + n)" by (simp add: dec_string.simps [of n])
    with True show ?thesis by (simp add: in_range_def) (simp add: ord_def)
  next
    case False
    with "1.prems" have "c \<in> set (dec_string (n div 10)) \<or> c = chr (48 + n mod 10)"
      by (auto simp: dec_string.simps [of n])
    moreover have "is_digit (chr (48 + n mod 10))"
      by (simp add: in_range_def) (simp add: ord_def)
    ultimately show ?thesis using False "1.IH" by auto
  qed
qed

lemma dec_string_nonempty [simp]: "dec_string n \<noteq> []"
  by (subst dec_string.simps) simp

lemma hex_string_nonempty [simp]: "hex_string n \<noteq> []"
  by (subst hex_string.simps) simp

definition dec_val :: "string \<Rightarrow> nat" where
  "dec_val s = foldl (\<lambda>v c. v * 10 + digit_val c) 0 s"

lemma digit_val_chr [simp]: "d < 10 \<Longrightarrow> digit_val (chr (48 + d)) = d"
  by (simp add: digit_val_def) (simp add: ord_def)

lemma dec_val_dec_string [simp]: "dec_val (dec_string n) = n"
proof (induction n rule: dec_string.induct)
  case (1 n)
  then show ?case
    by (cases "n < 10") (simp_all add: dec_string.simps [of n] dec_val_def)
qed

lemma dec_string_inj [simp]: "dec_string m = dec_string n \<longleftrightarrow> m = n"
  by (metis dec_val_dec_string)

section \<open>std::map\<close>

text \<open>
  A \<open>std::map\<close> keeps its entries sorted by key and iterates in that order.
  \<open>std::string\<close> keys compare bytewise as unsigned characters, which is the
  lexicographic order of the library theories on \<open>char list\<close>.
\<close>

type_synonym ('k, 'v) omap = "('k \<times> 'v) list"

fun omap_put :: "'k::linorder \<Rightarrow> 'v \<Rightarrow> ('k, 'v) omap \<Rightarrow> ('k, 'v) omap" where
  "omap_put k v [] = [(k, v)]"
| "omap_put k v ((k1, v1) # m) =
     (if k < k1 then (k, v) # (k1, v1) # m
      else if k = k1 then (k, v) # m
      else (k1, v1) # omap_put k v m)"

definition omap_get :: "('k, 'v) omap \<Rightarrow> 'k \<Rightarrow> 'v option" where
  "omap_get m k = map_of m k"

definition omap_ok :: "('k::linorder, 'v) omap \<Rightarrow> bool" where
  "omap_ok m \<longleftrightarrow> sorted_wrt (<) (map fst m)"

lemma omap_get_Nil [simp]: "omap_get [] k = None"
  by (simp add: omap_get_def)

lemma omap_get_put [simp]: "omap_get (omap_put k v m) k' = (if k' = k then Some v else omap_get m k')"
  by (induction k v m rule: omap_put.induct) (auto simp: omap_get_def)

lemma keys_omap_put: "fst ` set (omap_put k v m) = insert k (fst ` set m)"
  by (induction k v m rule: omap_put.induct) auto

lemma omap_ok_Nil [simp]: "omap_ok []"
  by (simp add: omap_ok_def)

lemma omap_ok_put [wf_intros, simp]: "omap_ok m \<Longrightarrow> omap_ok (omap_put k v m)"
proof (induction k v m rule: omap_put.induct)
  case (2 k v k1 v1 m)
  show ?case
  proof (cases "k \<le> k1")
    case True
    with "2.prems" show ?thesis by (auto simp: omap_ok_def)
  next
    case False
    with "2.IH" "2.prems" have "omap_ok (omap_put k v m)" by (simp add: omap_ok_def)
    moreover have "\<forall>k' \<in> fst ` set (omap_put k v m). k1 < k'"
      using False "2.prems" by (auto simp: keys_omap_put omap_ok_def simp flip: image_set)
    ultimately show ?thesis using False by (auto simp: omap_ok_def)
  qed
qed (simp add: omap_ok_def)

lemma length_omap_put:
  "omap_ok m \<Longrightarrow> length (omap_put k v m) = (if omap_get m k = None then Suc (length m) else length m)"
proof (induction k v m rule: omap_put.induct)
  case (2 k v k1 v1 m)
  then have "k < k1 \<Longrightarrow> map_of m k = None"
    by (auto simp: omap_ok_def map_of_eq_None_iff)
  with "2" show ?case by (auto simp: omap_ok_def omap_get_def)
qed simp

lemma omap_get_Some_iff: "omap_ok m \<Longrightarrow> omap_get m k = Some v \<longleftrightarrow> (k, v) \<in> set m"
  unfolding omap_ok_def omap_get_def
  by (rule map_of_eq_Some_iff) (simp add: strict_sorted_iff)

definition omap_erase :: "'k \<Rightarrow> ('k, 'v) omap \<Rightarrow> ('k, 'v) omap" where
  \<comment> \<open>\<open>m.erase(k)\<close>\<close>
  "omap_erase k m = filter (\<lambda>(k', _). k' \<noteq> k) m"

lemma omap_get_erase [simp]: "omap_get (omap_erase k m) k' = (if k' = k then None else omap_get m k')"
  by (induction m) (auto simp: omap_get_def omap_erase_def)

lemma omap_ok_erase [wf_intros, simp]: "omap_ok m \<Longrightarrow> omap_ok (omap_erase k m)"
  unfolding omap_ok_def omap_erase_def by (induction m) auto

lemma keys_omap_erase: "fst ` set (omap_erase k m) = fst ` set m - {k}"
  by (auto simp: omap_erase_def)

lemma set_omap_erase: "set (omap_erase k m) = {x \<in> set m. fst x \<noteq> k}"
  by (auto simp: omap_erase_def)

lemma omap_get_None_iff: "omap_get m k = None \<longleftrightarrow> k \<notin> fst ` set m"
  by (simp add: omap_get_def map_of_eq_None_iff)

lemma set_omap_put: "omap_ok m \<Longrightarrow> set (omap_put k v m) = insert (k, v) {x \<in> set m. fst x \<noteq> k}"
proof (induction k v m rule: omap_put.induct)
  case (2 k v k1 v1 m)
  have m: "omap_ok m" "\<And>x. x \<in> set m \<Longrightarrow> k1 < fst x" using "2.prems" by (auto simp: omap_ok_def)
  consider "k < k1" | "k = k1" | "k1 < k" by (rule linorder_cases)
  then show ?case
  proof cases
    case 1
    then have "fst x \<noteq> k" if "x \<in> set m" for x using m(2) [OF that] by auto
    with 1 show ?thesis by auto
  next
    case 2
    then have "fst x \<noteq> k" if "x \<in> set m" for x using m(2) [OF that] by auto
    with 2 show ?thesis by auto
  next
    case 3
    then have "\<not> k < k1" "k \<noteq> k1" by auto
    with "2.IH" m(1) 3 show ?thesis by auto
  qed
qed simp

end
