(* ===== verification/Buffers.thy ===== *)
theory Buffers
  imports Web_Prelude
begin

text \<open>
  \<open>src/Buffer.cpp\<close> and \<open>Headers/buffer.hpp\<close>: the growable byte buffer of every
  connection, request body and CGI job.  A \<open>buffer\<close> record keeps the members
  \<open>_cmbs\<close> (the size limit), \<open>_storage\<close> and \<open>_head\<close>, and the capacity of the vector,
  on which the growth loop depends.  The abstract view is the byte queue \<open>content\<close>;
  the locale \<open>byte_queue\<close> states what clients rely on and is interpreted on the
  buffer operations.
\<close>

section \<open>State and failures\<close>

record buffer =
  cmbs :: nat
  storage :: string
  head :: nat
  capacity :: nat

datatype failure =
    BodyLimitException  \<comment> \<open>thrown by \<open>append\<close>, caught by the event loop\<close>
  | LengthError         \<comment> \<open>\<open>std::length_error\<close> of a vector larger than \<open>max_size\<close>\<close>
  | Hang                \<comment> \<open>the growth loop of \<open>_ensureCapacity\<close> does not end\<close>
  | MemFault            \<comment> \<open>a read or move outside the storage (undefined behaviour)\<close>
  | OutOfRange          \<comment> \<open>\<open>std::out_of_range\<close>\<close>
  | RuntimeError        \<comment> \<open>\<open>std::runtime_error\<close>\<close>

definition content :: "buffer \<Rightarrow> string" where
  \<comment> \<open>the bytes \<open>data()[0 .. size())\<close>\<close>
  "content b = drop (head b) (storage b)"

section \<open>Operations\<close>

definition initial_capacity :: "nat \<Rightarrow> nat" where
  "initial_capacity limit = (if 64 * 1024 > limit \<and> limit > 0 then limit else 64 * 1024)"

definition Buffer_new :: "nat \<Rightarrow> buffer" where
  "Buffer_new client_max_body_size =
     \<lparr>cmbs = client_max_body_size, storage = [], head = 0,
      capacity = initial_capacity client_max_body_size\<rparr>"

definition Buffer_size :: "buffer \<Rightarrow> nat" where
  "Buffer_size b = sz_sub (length (storage b)) (head b)"

definition Buffer_empty :: "buffer \<Rightarrow> bool" where
  "Buffer_empty b \<longleftrightarrow> Buffer_size b = 0"

definition Buffer_maxSize :: "buffer \<Rightarrow> nat" where
  "Buffer_maxSize b = cmbs b"

definition Buffer_data :: "buffer \<Rightarrow> failure + string" where
  \<comment> \<open>the bytes a caller sees that reads \<open>size()\<close> bytes from \<open>data()\<close>\<close>
  "Buffer_data b =
     (if head b \<le> length (storage b) \<and> length (storage b) \<le> max_size
      then Inr (drop (head b) (storage b)) else Inl MemFault)"

definition Buffer_reset :: "buffer \<Rightarrow> buffer" where
  "Buffer_reset b = b\<lparr>head := 0, storage := [], capacity := initial_capacity (cmbs b)\<rparr>"

definition Buffer_earase :: "buffer \<Rightarrow> buffer" where
  \<comment> \<open>swaps the storage with an empty vector; \<open>_head\<close> is not written\<close>
  "Buffer_earase b = b\<lparr>storage := [], capacity := 0\<rparr>"

definition Buffer_setMaxSize :: "nat \<Rightarrow> buffer \<Rightarrow> buffer" where
  "Buffer_setMaxSize new_max b = b\<lparr>cmbs := new_max\<rparr>"

definition Buffer_compact :: "buffer \<Rightarrow> failure + buffer" where
  "Buffer_compact b =
     (if head b = 0 then Inr b
      else if length (storage b) < head b then Inl MemFault
      else Inr (b\<lparr>storage := drop (head b) (storage b), head := 0\<rparr>))"

partial_function (option) grow :: "nat \<Rightarrow> nat \<Rightarrow> nat \<Rightarrow> nat option" where
  "grow limit needed cap =
     (if cap < needed
      then let cap' = cap * 2 in if cap' > limit then Some limit else grow limit needed cap'
      else Some cap)"

definition Buffer_ensureCapacity :: "buffer \<Rightarrow> nat \<Rightarrow> failure + buffer" where
  \<comment> \<open>\<open>reserve(cap)\<close> never shrinks the vector\<close>
  "Buffer_ensureCapacity b needed =
     (case grow (cmbs b) needed (capacity b) of
        None \<Rightarrow> Inl Hang
      | Some cap \<Rightarrow> Inr (b\<lparr>capacity := max (capacity b) cap\<rparr>))"

definition Buffer_extend :: "buffer \<Rightarrow> string \<Rightarrow> failure + buffer" where
  \<comment> \<open>\<open>resize(old_size + len)\<close> and \<open>memcpy\<close>\<close>
  "Buffer_extend b src =
     (let n = length (storage b) + length src in
      if n > max_size then Inl LengthError
      else Inr (b\<lparr>storage := storage b @ src, capacity := max (capacity b) n\<rparr>))"

definition Buffer_append_upto :: "nat \<Rightarrow> buffer \<Rightarrow> string \<Rightarrow> failure + buffer" where
  "Buffer_append_upto limit b src =
     (if length src = 0 then Inr b
      else if sz_add (sz_sub (length (storage b)) (head b)) (length src) > limit
      then Inl BodyLimitException
      else
        rbind (if head b > 0 \<and> head b \<ge> length (storage b) div 2 then Buffer_compact b else Inr b)
          (\<lambda>b1. rbind (Buffer_ensureCapacity b1 (length (storage b1) + length src))
          (\<lambda>b2. Buffer_extend b2 src)))"

definition Buffer_append :: "buffer \<Rightarrow> string \<Rightarrow> failure + buffer" where
  "Buffer_append b src = Buffer_append_upto (cmbs b) b src"

definition LimitRequestBody :: nat where "LimitRequestBody = 20971520"

definition Buffer_append_result :: "buffer \<Rightarrow> string \<Rightarrow> failure + buffer" where
  "Buffer_append_result b src = Buffer_append_upto LimitRequestBody b src"

definition Buffer_consume :: "buffer \<Rightarrow> nat \<Rightarrow> failure + buffer" where
  "Buffer_consume b n =
     (let n = (if n > Buffer_size b then Buffer_size b else n);
          h = head b + n;
          b1 = b\<lparr>head := (if h < 2 ^ 64 then h else h - 2 ^ 64)\<rparr>
      in rbind (if head b1 > 0 \<and> head b1 \<ge> length (storage b1) div 2 then Buffer_compact b1 else Inr b1)
          (\<lambda>b2. Inr (if head b2 = length (storage b2) then Buffer_reset b2 else b2)))"

section \<open>Well-formed buffers\<close>

text \<open>
  The head never runs past the storage and is either 0 or in its first half (the
  lazy compaction), and the vector keeps some capacity.
\<close>

definition buf_ok :: "buffer \<Rightarrow> bool" where
  "buf_ok b \<longleftrightarrow> head b \<le> length (storage b) \<and> (head b = 0 \<or> head b < length (storage b) div 2)
     \<and> 0 < capacity b \<and> length (storage b) \<le> max_size"

lemma buf_ok_new [wf_intros, simp]: "buf_ok (Buffer_new n)"
  by (simp add: buf_ok_def Buffer_new_def initial_capacity_def)

lemma buf_ok_reset [wf_intros, simp]: "buf_ok (Buffer_reset b)"
  by (simp add: buf_ok_def Buffer_reset_def initial_capacity_def)

lemma buf_ok_setMaxSize [wf_intros, simp]: "buf_ok (Buffer_setMaxSize n b) = buf_ok b"
  by (simp add: buf_ok_def Buffer_setMaxSize_def)

lemma content_new [simp]: "content (Buffer_new n) = []"
  by (simp add: content_def Buffer_new_def)

lemma content_reset [simp]: "content (Buffer_reset b) = []"
  by (simp add: content_def Buffer_reset_def)

lemma content_setMaxSize [simp]: "content (Buffer_setMaxSize n b) = content b"
  by (simp add: content_def Buffer_setMaxSize_def)

lemma cmbs_simps [simp]:
  "cmbs (Buffer_new n) = n"
  "cmbs (Buffer_reset b) = cmbs b"
  "cmbs (Buffer_setMaxSize n b) = n"
  "cmbs (Buffer_earase b) = cmbs b"
  by (simp_all add: Buffer_new_def Buffer_reset_def Buffer_setMaxSize_def Buffer_earase_def)

lemma buf_ok_size: "buf_ok b \<Longrightarrow> Buffer_size b = length (content b)"
  by (simp add: buf_ok_def Buffer_size_def content_def)

lemma buf_ok_empty: "buf_ok b \<Longrightarrow> Buffer_empty b \<longleftrightarrow> content b = []"
  by (simp add: Buffer_empty_def buf_ok_size)

lemma buf_ok_data: "buf_ok b \<Longrightarrow> Buffer_data b = Inr (content b)"
  by (simp add: buf_ok_def Buffer_data_def content_def)

lemma Buffer_data_InrD: "Buffer_data b = Inr s \<Longrightarrow> s = content b \<and> head b \<le> length (storage b) \<and> length (storage b) \<le> max_size"
  by (auto simp: Buffer_data_def content_def split: if_splits)

section \<open>The growth loop\<close>

lemma grow_zero_hangs: "0 < needed \<Longrightarrow> grow limit needed 0 = None"
proof (rule ccontr)
  assume pos: "0 < needed" and "grow limit needed 0 \<noteq> None"
  then obtain r where r: "grow limit needed 0 = Some r" by auto
  have "\<not> ((0::nat) = 0 \<and> 0 < needed)"
    by (rule grow.raw_induct [where P = "\<lambda>limit needed cap r. \<not> (cap = 0 \<and> 0 < needed)", OF _ r])
      (fastforce simp: Let_def split: if_splits)
  with pos show False by simp
qed

lemma grow_total: "0 < cap \<Longrightarrow> \<exists>c. grow limit needed cap = Some c"
proof (induction "needed - cap" arbitrary: cap rule: less_induct)
  case less
  show ?case
  proof (cases "cap < needed \<and> cap * 2 \<le> limit")
    case True
    with less.prems have "needed - cap * 2 < needed - cap" "0 < cap * 2" by auto
    then obtain c where "grow limit needed (cap * 2) = Some c" using less.hyps by blast
    with True show ?thesis by (subst grow.simps) (simp add: Let_def)
  next
    case False
    then show ?thesis by (subst grow.simps) (auto simp: Let_def)
  qed
qed

lemma ensureCapacity_ok:
  assumes "0 < capacity b"
  obtains c where "Buffer_ensureCapacity b needed = Inr (b\<lparr>capacity := max (capacity b) c\<rparr>)"
  using grow_total [OF assms, of "cmbs b" needed] by (auto simp: Buffer_ensureCapacity_def)

section \<open>Functional behaviour on the content\<close>

lemma Buffer_compact_ok:
  assumes "head b \<le> length (storage b)"
  shows "Buffer_compact b = Inr (b\<lparr>storage := content b, head := 0\<rparr>)"
  using assms by (auto simp: Buffer_compact_def content_def)

lemma append_upto_prepared:
  assumes "head b \<le> length (storage b)" "0 < capacity b"
  obtains c where
    "rbind (Buffer_ensureCapacity b (length (storage b) + length src)) (\<lambda>b2. Buffer_extend b2 src) =
       (if length (storage b) + length src > max_size then Inl LengthError
        else Inr (b\<lparr>storage := storage b @ src, capacity := c\<rparr>))" "0 < c"
proof -
  obtain c where "Buffer_ensureCapacity b (length (storage b) + length src)
      = Inr (b\<lparr>capacity := max (capacity b) c\<rparr>)"
    using assms(2) by (rule ensureCapacity_ok)
  then show thesis
    using assms that [of "max (max (capacity b) c) (length (storage b) + length src)"]
    by (simp add: Buffer_extend_def Let_def)
qed

lemma append_upto_InrD:
  assumes "buf_ok b" "Buffer_append_upto limit b src = Inr b'"
  shows "content b' = content b @ src \<and> buf_ok b' \<and> cmbs b' = cmbs b"
proof (cases "src = []")
  case True
  with assms show ?thesis by (simp add: Buffer_append_upto_def)
next
  case False
  define b1 where "b1 = (if head b > 0 \<and> head b \<ge> length (storage b) div 2
      then b\<lparr>storage := content b, head := 0\<rparr> else b)"
  have ok1: "head b1 \<le> length (storage b1)" "0 < capacity b1" "content b1 = content b"
      "cmbs b1 = cmbs b" "head b1 = 0 \<or> head b1 < length (storage b1) div 2"
    using assms(1) by (auto simp: b1_def buf_ok_def content_def)
  obtain c where
    "rbind (Buffer_ensureCapacity b1 (length (storage b1) + length src)) (\<lambda>b2. Buffer_extend b2 src) =
       (if length (storage b1) + length src > max_size then Inl LengthError
        else Inr (b1\<lparr>storage := storage b1 @ src, capacity := c\<rparr>))" "0 < c"
    using ok1(1,2) by (rule append_upto_prepared)
  with assms False ok1 show ?thesis
    by (auto simp: Buffer_append_upto_def Buffer_compact_ok buf_ok_def b1_def content_def
        split: if_splits)
qed

lemma append_upto_InlD:
  assumes "buf_ok b" "Buffer_append_upto limit b src = Inl e"
  shows "e = BodyLimitException \<or> e = LengthError"
proof -
  define b1 where "b1 = (if head b > 0 \<and> head b \<ge> length (storage b) div 2
      then b\<lparr>storage := content b, head := 0\<rparr> else b)"
  have ok1: "head b1 \<le> length (storage b1)" "0 < capacity b1"
    using assms(1) by (auto simp: b1_def buf_ok_def content_def)
  obtain c where
    "rbind (Buffer_ensureCapacity b1 (length (storage b1) + length src)) (\<lambda>b2. Buffer_extend b2 src) =
       (if length (storage b1) + length src > max_size then Inl LengthError
        else Inr (b1\<lparr>storage := storage b1 @ src, capacity := c\<rparr>))" "0 < c"
    using ok1 by (rule append_upto_prepared)
  with assms show ?thesis
    by (auto simp: Buffer_append_upto_def Buffer_compact_ok buf_ok_def b1_def split: if_splits)
qed

lemma append_upto_total:
  assumes "buf_ok b" "length (content b) + length src \<le> limit" "limit < 2 ^ 61"
  shows "\<exists>b'. Buffer_append_upto limit b src = Inr b'"
proof -
  define b1 where "b1 = (if head b > 0 \<and> head b \<ge> length (storage b) div 2
      then b\<lparr>storage := content b, head := 0\<rparr> else b)"
  have ok1: "head b1 \<le> length (storage b1)" "0 < capacity b1"
    using assms(1) by (auto simp: b1_def buf_ok_def content_def)
  have "length (storage b) \<le> 2 * length (content b)"
    using assms(1) by (auto simp: buf_ok_def content_def)
  moreover have "length (storage b1) \<le> length (storage b)"
    by (simp add: b1_def content_def)
  ultimately have fits: "length (storage b1) + length src \<le> max_size"
    using assms(2,3) by (simp add: max_size_def)
  have "sz_add (Buffer_size b) (length src) = length (content b) + length src"
    using assms by (subst buf_ok_size) auto
  moreover obtain c where
    "rbind (Buffer_ensureCapacity b1 (length (storage b1) + length src)) (\<lambda>b2. Buffer_extend b2 src) =
       (if length (storage b1) + length src > max_size then Inl LengthError
        else Inr (b1\<lparr>storage := storage b1 @ src, capacity := c\<rparr>))" "0 < c"
    using ok1 by (rule append_upto_prepared)
  ultimately show ?thesis
    using assms fits ok1
    by (auto simp: Buffer_append_upto_def Buffer_size_def Buffer_compact_ok b1_def buf_ok_def
        split: if_splits)
qed

lemma append_upto_limit:
  assumes "buf_ok b" "src \<noteq> []" "limit < length (content b) + length src"
    "length (content b) + length src < 2 ^ 64"
  shows "Buffer_append_upto limit b src = Inl BodyLimitException"
  using assms buf_ok_size [of b] by (simp add: Buffer_append_upto_def Buffer_size_def)

lemma append_upto_within:
  assumes "buf_ok b" "Buffer_append_upto limit b src = Inr b'" "src \<noteq> []"
    "length (content b) + length src < 2 ^ 64"
  shows "length (content b') \<le> limit"
proof -
  have "\<not> limit < length (content b) + length src"
    using append_upto_limit [of b src limit] assms by auto
  with append_upto_InrD [OF assms(1,2)] show ?thesis by simp
qed

lemma consume_InrD:
  assumes "head b \<le> length (storage b)" "length (storage b) \<le> max_size" "Buffer_consume b n = Inr b'"
  shows "content b' = drop n (content b)"
proof -
  have "Buffer_size b = length (storage b) - head b" using assms(1) by (simp add: Buffer_size_def)
  moreover from this have "head b + (if n > Buffer_size b then Buffer_size b else n) < 2 ^ 64"
    using assms(1,2) unfolding max_size_def by (simp split: if_split) arith
  ultimately show ?thesis using assms(1,3)
    by (auto simp: Buffer_consume_def Let_def Buffer_compact_def content_def Buffer_reset_def
        rbind_Inr_iff add.commute split: if_splits)
qed

lemma consume_ok:
  assumes "buf_ok b"
  obtains b' where "Buffer_consume b n = Inr b'" "content b' = drop n (content b)"
    "buf_ok b'" "cmbs b' = cmbs b"
proof -
  define k where "k = (if n > Buffer_size b then Buffer_size b else n)"
  define b1 where "b1 = b\<lparr>head := head b + k\<rparr>"
  define b2 where "b2 = (if head b1 > 0 \<and> head b1 \<ge> length (storage b1) div 2
      then b1\<lparr>storage := content b1, head := 0\<rparr> else b1)"
  define b3 where "b3 = (if head b2 = length (storage b2) then Buffer_reset b2 else b2)"
  have k: "head b + k \<le> length (storage b)" "head b + k < 2 ^ 64"
    using assms by (auto simp: k_def Buffer_size_def buf_ok_def max_size_def)
  then have "Buffer_consume b n = Inr b3"
    by (simp add: Buffer_consume_def Let_def k_def [symmetric] b1_def b2_def b3_def
        Buffer_compact_ok)
  moreover have "content b3 = drop n (content b)"
    using assms k by (auto simp: b3_def b2_def b1_def k_def content_def Buffer_size_def buf_ok_def
        Buffer_reset_def add.commute)
  moreover have "buf_ok b3" "cmbs b3 = cmbs b"
    using assms k by (auto simp: b3_def b2_def b1_def buf_ok_def content_def Buffer_reset_def
        initial_capacity_def)
  ultimately show thesis by (rule that)
qed

lemma append_InrD:
  "buf_ok b \<Longrightarrow> Buffer_append b src = Inr b' \<Longrightarrow>
     content b' = content b @ src \<and> buf_ok b' \<and> cmbs b' = cmbs b"
  unfolding Buffer_append_def by (rule append_upto_InrD)

lemma append_InlD: "buf_ok b \<Longrightarrow> Buffer_append b src = Inl e \<Longrightarrow> e = BodyLimitException \<or> e = LengthError"
  unfolding Buffer_append_def by (rule append_upto_InlD)

lemma append_total:
  "buf_ok b \<Longrightarrow> cmbs b < 2 ^ 61 \<Longrightarrow> length (content b) + length src \<le> cmbs b \<Longrightarrow>
     \<exists>b'. Buffer_append b src = Inr b'"
  unfolding Buffer_append_def by (rule append_upto_total)

lemma append_ok:
  assumes "buf_ok b" "cmbs b < 2 ^ 61" "length (content b) + length src \<le> cmbs b"
  obtains b' where "Buffer_append b src = Inr b'" "content b' = content b @ src"
    "buf_ok b'" "cmbs b' = cmbs b"
  using append_total [OF assms] append_InrD [OF assms(1)] that by blast

lemma consume_InrD_ok:
  "buf_ok b \<Longrightarrow> Buffer_consume b n = Inr b' \<Longrightarrow>
     content b' = drop n (content b) \<and> buf_ok b' \<and> cmbs b' = cmbs b"
  by (erule consume_ok [of b n]) simp

section \<open>The interface: a bounded byte queue\<close>

text \<open>
  What the parser, the responder and the connection rely on.  A client runs a
  sequence of appends and consumes; \<open>run_ops\<close> collects the bytes that were consumed.
\<close>

datatype 'a qop = Put "'a list" | Take nat

primrec run_ops :: "('q \<Rightarrow> 'a list) \<Rightarrow> ('q \<Rightarrow> 'a list \<Rightarrow> 'e + 'q) \<Rightarrow> ('q \<Rightarrow> nat \<Rightarrow> 'e + 'q)
    \<Rightarrow> 'a qop list \<Rightarrow> 'q \<Rightarrow> 'e + ('a list \<times> 'q)" where
  "run_ops cont put dropn [] q = Inr ([], q)"
| "run_ops cont put dropn (x # ops) q =
     (case x of
        Put xs \<Rightarrow> rbind (put q xs) (run_ops cont put dropn ops)
      | Take n \<Rightarrow> rbind (dropn q n) (\<lambda>q'. rbind (run_ops cont put dropn ops q')
          (\<lambda>(out, q''). Inr (take n (cont q) @ out, q''))))"

primrec puts :: "'a qop list \<Rightarrow> 'a list" where
  "puts [] = []"
| "puts (x # ops) = (case x of Put xs \<Rightarrow> xs @ puts ops | Take n \<Rightarrow> puts ops)"

locale byte_queue =
  fixes cont :: "'q \<Rightarrow> 'a list"
    and lim :: "'q \<Rightarrow> nat"
    and put :: "'q \<Rightarrow> 'a list \<Rightarrow> 'e + 'q"
    and dropn :: "'q \<Rightarrow> nat \<Rightarrow> 'e + 'q"
    and inv :: "'q \<Rightarrow> bool"
  assumes put_Inr: "inv q \<Longrightarrow> put q xs = Inr q' \<Longrightarrow> cont q' = cont q @ xs \<and> inv q' \<and> lim q' = lim q"
    and put_total: "inv q \<Longrightarrow> lim q < 2 ^ 61 \<Longrightarrow> length (cont q) + length xs \<le> lim q \<Longrightarrow>
      \<exists>q'. put q xs = Inr q'"
    and dropn_Inr: "inv q \<Longrightarrow> \<exists>q'. dropn q n = Inr q' \<and> cont q' = drop n (cont q) \<and> inv q' \<and> lim q' = lim q"
begin

lemma dropnD: "inv q \<Longrightarrow> dropn q n = Inr q' \<Longrightarrow> cont q' = drop n (cont q) \<and> inv q' \<and> lim q' = lim q"
  using dropn_Inr [of q n] by auto

lemma run_ops_fifo:
  "inv q \<Longrightarrow> run_ops cont put dropn ops q = Inr (out, q') \<Longrightarrow>
     out @ cont q' = cont q @ puts ops \<and> inv q' \<and> lim q' = lim q"
proof (induction ops arbitrary: q out)
  case (Cons x ops)
  show ?case
  proof (cases x)
    case (Put xs)
    with Cons.prems obtain q1 where "put q xs = Inr q1" "run_ops cont put dropn ops q1 = Inr (out, q')"
      by (auto simp: rbind_Inr_iff)
    with Cons.IH [of q1 out] Cons.prems(1) Put put_Inr [of q xs q1] show ?thesis by simp
  next
    case (Take n)
    with Cons.prems obtain q1 out1 where q1: "dropn q n = Inr q1"
        "run_ops cont put dropn ops q1 = Inr (out1, q')" "out = take n (cont q) @ out1"
      by (auto simp: rbind_Inr_iff)
    with dropnD [OF Cons.prems(1) q1(1)] Cons.IH [of q1 out1]
    have *: "out1 @ cont q' = drop n (cont q) @ puts ops" "inv q' \<and> lim q' = lim q" by auto
    have "out @ cont q' = take n (cont q) @ drop n (cont q) @ puts ops"
      by (simp add: q1(3) *(1))
    with Take *(2) show ?thesis by simp
  qed
qed simp

lemma run_ops_total:
  "inv q \<Longrightarrow> lim q < 2 ^ 61 \<Longrightarrow> length (cont q) + length (puts ops) \<le> lim q \<Longrightarrow>
     \<exists>out q'. run_ops cont put dropn ops q = Inr (out, q')"
proof (induction ops arbitrary: q)
  case (Cons x ops)
  show ?case
  proof (cases x)
    case (Put xs)
    with Cons.prems obtain q1 where q1: "put q xs = Inr q1" using put_total [of q xs] by auto
    with Cons.prems Put put_Inr [of q xs q1]
    have "inv q1" "lim q1 < 2 ^ 61" "length (cont q1) + length (puts ops) \<le> lim q1" by auto
    from Cons.IH [OF this] Put q1 show ?thesis by auto
  next
    case (Take n)
    from dropn_Inr [OF Cons.prems(1), of n] obtain q1 where q1: "dropn q n = Inr q1"
        "cont q1 = drop n (cont q)" "inv q1" "lim q1 = lim q" by auto
    with Cons.prems Take have "length (cont q1) + length (puts ops) \<le> lim q1" by auto
    with Cons.IH [of q1] Cons.prems q1 Take show ?thesis by auto
  qed
qed simp

end

interpretation bq: byte_queue content cmbs Buffer_append Buffer_consume buf_ok
proof unfold_locales
  fix b n
  assume "buf_ok b"
  then show "\<exists>b'. Buffer_consume b n = Inr b' \<and> content b' = drop n (content b) \<and> buf_ok b' \<and> cmbs b' = cmbs b"
    by (rule consume_ok [of b n]) auto
qed (simp_all add: append_InrD append_total)

section \<open>Properties\<close>

text \<open>
  C28: the buffer is a first-in first-out byte queue.  Any sequence of appends and
  consumes that returns hands out exactly the appended bytes, in order, none lost and
  none twice: consumed bytes followed by the remaining content are the initial
  content followed by everything appended.
\<close>

theorem buffer_fifo:
  assumes "buf_ok b" "run_ops content Buffer_append Buffer_consume ops b = Inr (out, b')"
  shows "out @ content b' = content b @ puts ops \<and> buf_ok b' \<and> cmbs b' = cmbs b"
  using assms by (rule bq.run_ops_fifo)

lemma run_ops_example:
  "run_ops content Buffer_append Buffer_consume [Put ''abc'', Take 2, Put ''de'', Take 9] (Buffer_new 100)
     = Inr (''abcde'', Buffer_new 100)"
  by (simp add: Buffer_new_def initial_capacity_def Buffer_append_def Buffer_append_upto_def
      Buffer_ensureCapacity_def Buffer_extend_def Buffer_consume_def Buffer_compact_def
      Buffer_size_def Buffer_reset_def content_def grow.simps max_size_def)

theorem buffer_fifo_witness:
  "''abcde'' @ content (Buffer_new 100) = content (Buffer_new 100) @ puts [Put ''abc'', Take 2, Put ''de'', Take 9]"
  using buffer_fifo [OF buf_ok_new run_ops_example] by blast



lemma earase_size: "0 < head b \<Longrightarrow> Buffer_size (Buffer_earase b) = 2 ^ 64 - head b"
  by (simp add: Buffer_size_def Buffer_earase_def sz_sub_def)

lemma earase_hang:
  assumes "head b = 0" "src \<noteq> []" "length src \<le> cmbs b" "length src < 2 ^ 64"
  shows "Buffer_append (Buffer_earase b) src = Inl Hang"
proof -
  have "grow (cmbs b) (length src) 0 = None"
    using assms(2) by (intro grow_zero_hangs) simp
  with assms show ?thesis
    by (simp add: Buffer_append_def Buffer_append_upto_def Buffer_earase_def Buffer_ensureCapacity_def)
qed

lemma earase_fault:
  "0 < head b \<Longrightarrow> src \<noteq> [] \<Longrightarrow> \<exists>e \<in> {BodyLimitException, MemFault}. Buffer_append (Buffer_earase b) src = Inl e"
  by (simp add: Buffer_append_def Buffer_append_upto_def Buffer_earase_def Buffer_compact_def)

text \<open>
  \<open>earase()\<close> leaves the buffer unusable until \<open>reset()\<close>.  It drops the
  storage but keeps \<open>_head\<close>, and the swapped-in vector has capacity 0: with
  \<open>_head = 0\<close> the growth loop of the next append never ends, with \<open>_head > 0\<close> the
  size wraps around and the append throws or moves bytes outside the storage.  No
  non-empty append succeeds.
\<close>

theorem buffer_earase_unusable:
  assumes "src \<noteq> []" "length src < 2 ^ 64"
  shows "(head b = 0 \<and> length src \<le> cmbs b \<longrightarrow> Buffer_append (Buffer_earase b) src = Inl Hang)
    \<and> (0 < head b \<longrightarrow> Buffer_size (Buffer_earase b) = 2 ^ 64 - head b
         \<and> (\<exists>e \<in> {BodyLimitException, MemFault}. Buffer_append (Buffer_earase b) src = Inl e))"
  using assms earase_hang earase_size earase_fault by blast

theorem buffer_earase_unusable_witness:
  "Buffer_append (Buffer_earase (Buffer_new 100)) ''abc'' = Inl Hang"
  using buffer_earase_unusable [of "''abc''" "Buffer_new 100"]
  by (simp add: Buffer_new_def)

end
