(* ===== verification/Config_Data.thy ===== *)
theory Config_Data
  imports Web_Prelude
begin

text \<open>
  The configuration objects of \<open>conf/locationConfig.cpp\<close>, \<open>conf/serverConfig.cpp\<close> and
  \<open>conf/httpConfig.cpp\<close>: the records \<open>location\<close>, \<open>server\<close> and \<open>http_config\<close> with the
  members of the classes, their setters and default values, and \<open>Server::matchLocation\<close>,
  the routing function of the whole server.
\<close>

section \<open>State\<close>

record location =
  loc_path :: string
  loc_root :: string
  loc_index_Files :: "string list"
  loc_autoindex :: bool
  loc_allowed_methods :: "string list"
  loc_cgi_paths :: "string list"
  loc_cgi_extensions :: "string list"
  loc_cgi_map :: "(string, string) omap"
  loc_upload :: string
  loc_return_code :: int
  loc_return_value :: string
  loc_client_max_body_size :: int
  loc_error_page :: "(int, string) omap"
  loc_redirect_enabled :: bool

record server =
  srv_host :: string
  srv_port :: int
  srv_timeout_seconds :: int
  srv_root :: string
  srv_client_max_body_size :: int
  srv_index_Files :: "string list"
  srv_server_name :: string
  srv_error_page :: "(int, string) omap"
  srv_locations :: "location list"

record http_config =
  http_client_max_body_size :: int
  http_error_page :: "(int, string) omap"
  http_all_servers :: "server list"
  http_exist_location :: bool

text \<open>Conversions between \<open>long long\<close> and \<open>size_t\<close>.\<close>

definition to_size :: "int \<Rightarrow> nat" where
  "to_size x = nat (x mod 2 ^ 64)"

definition to_longlong :: "nat \<Rightarrow> int" where
  "to_longlong n = (if n < 2 ^ 63 then int n else int n - 2 ^ 64)"

lemma to_size_id [simp]: "0 \<le> x \<Longrightarrow> x < 2 ^ 64 \<Longrightarrow> to_size x = nat x"
  by (simp add: to_size_def)

lemma to_longlong_to_size: "- (2 ^ 63) \<le> x \<Longrightarrow> x < 2 ^ 63 \<Longrightarrow> to_longlong (to_size x) = x"
proof (cases "0 \<le> x")
  case False
  assume "- (2 ^ 63) \<le> x"
  moreover have "x mod 2 ^ 64 = x + 2 ^ 64"
    using False \<open>- (2 ^ 63) \<le> x\<close> mod_pos_pos_trivial [of "x + 2 ^ 64" "2 ^ 64"] by simp
  ultimately show ?thesis using False by (simp add: to_longlong_def to_size_def)
qed (simp add: to_longlong_def to_size_def)

section \<open>Location\<close>

definition Location_new :: location where
  "Location_new = \<lparr>loc_path = [], loc_root = [], loc_index_Files = [], loc_autoindex = False,
     loc_allowed_methods = [], loc_cgi_paths = [], loc_cgi_extensions = [], loc_cgi_map = [],
     loc_upload = [], loc_return_code = -1, loc_return_value = [],
     loc_client_max_body_size = 0, loc_error_page = [], loc_redirect_enabled = False\<rparr>"

definition setMethods :: "string \<Rightarrow> location \<Rightarrow> location" where
  "setMethods m l = l\<lparr>loc_allowed_methods := loc_allowed_methods l @ [m]\<rparr>"

definition loc_setIndex_s :: "string \<Rightarrow> location \<Rightarrow> location" where
  "loc_setIndex_s idx l = l\<lparr>loc_index_Files := loc_index_Files l @ [idx]\<rparr>"

definition build_cgi_map :: "string list \<Rightarrow> string list \<Rightarrow> (string, string) omap" where
  \<comment> \<open>the loop \<open>_cgi_map[_cgi_extensions[i]] = _cgi_paths[i]\<close>\<close>
  "build_cgi_map exts paths = foldl (\<lambda>m (e, p). omap_put e p m) [] (zip exts paths)"

definition setCGI_extensions :: "string list \<Rightarrow> location \<Rightarrow> location" where
  "setCGI_extensions extensions l =
     l\<lparr>loc_cgi_extensions := extensions,
       loc_cgi_map := (if length (loc_cgi_paths l) = length extensions
                       then build_cgi_map extensions (loc_cgi_paths l) else [])\<rparr>"

definition setCGI_paths :: "string list \<Rightarrow> location \<Rightarrow> location" where
  "setCGI_paths paths l =
     l\<lparr>loc_cgi_paths := paths,
       loc_cgi_map := (if length paths = length (loc_cgi_extensions l)
                       then build_cgi_map (loc_cgi_extensions l) paths else [])\<rparr>"

definition setAutoindex :: "string \<Rightarrow> location \<Rightarrow> location" where
  "setAutoindex a l =
     (if a = ''on'' then l\<lparr>loc_autoindex := True\<rparr>
      else if a = ''off'' then l\<lparr>loc_autoindex := False\<rparr> else l)"

definition setReturnRedirection :: "int \<Rightarrow> string \<Rightarrow> location \<Rightarrow> location" where
  "setReturnRedirection code path l =
     l\<lparr>loc_return_code := code, loc_return_value := path, loc_redirect_enabled := (code \<noteq> -1)\<rparr>"

definition set_error_page_loc :: "int \<Rightarrow> string \<Rightarrow> location \<Rightarrow> location" where
  "set_error_page_loc code path l = l\<lparr>loc_error_page := omap_put code path (loc_error_page l)\<rparr>"

definition clear_index :: "location \<Rightarrow> location" where
  "clear_index l = l\<lparr>loc_index_Files := []\<rparr>"

definition hasPartialCGIConfig :: "location \<Rightarrow> bool" where
  "hasPartialCGIConfig l =
     (if loc_cgi_paths l = [] \<and> loc_cgi_extensions l = [] then False
      else length (loc_cgi_paths l) \<noteq> length (loc_cgi_extensions l)
        \<or> length (loc_cgi_map l) \<noteq> length (loc_cgi_paths l))"

definition getClientMaxBodySize :: "location \<Rightarrow> nat" where
  "getClientMaxBodySize l = to_size (loc_client_max_body_size l)"

definition check_for_allowed_methods :: "location \<Rightarrow> location" where
  "check_for_allowed_methods l =
     (if loc_allowed_methods l = [] then l\<lparr>loc_allowed_methods := [''GET'']\<rparr> else l)"

definition default_error_pages :: "(int \<times> string) list" where
  "default_error_pages =
     [(400, ''./www/html/errors/400.html''), (401, ''./www/html/errors/401.html''),
      (403, ''./www/html/errors/403.html''), (404, ''./www/html/errors/404.html''),
      (405, ''./www/html/errors/405.html''), (408, ''./www/html/errors/408.html''),
      (411, ''./www/html/errors/411.html''), (413, ''./www/html/errors/413.html''),
      (500, ''./www/html/errors/500.html''), (502, ''./www/html/errors/502.html''),
      (503, ''./www/html/errors/503.html''), (504, ''./www/html/errors/504.html'')]"

definition put_default_error_pages :: "(int, string) omap \<Rightarrow> (int, string) omap" where
  "put_default_error_pages m = foldl (\<lambda>m (c, p). omap_put c p m) m default_error_pages"

definition Location_set_default_conf :: "nat \<Rightarrow> location \<Rightarrow> location" where
  "Location_set_default_conf num l0 =
     (let l = l0\<lparr>loc_index_Files := [''index.html''], loc_allowed_methods := [],
            loc_cgi_paths := [], loc_cgi_extensions := [], loc_cgi_map := [],
            loc_upload := [], loc_return_code := -1, loc_return_value := [],
            loc_redirect_enabled := False, loc_autoindex := False,
            loc_root := ''./www/html'', loc_client_max_body_size := 2040109465,
            loc_error_page := put_default_error_pages (loc_error_page l0)\<rparr>
      in if num = 0 then
           l\<lparr>loc_path := ''/'', loc_allowed_methods := [''GET'', ''DELETE''], loc_autoindex := False\<rparr>
         else if num = 1 then
           l\<lparr>loc_path := ''/dashboard/'', loc_allowed_methods := [''GET''], loc_autoindex := False\<rparr>
         else if num = 2 then
           l\<lparr>loc_path := ''/cgi-bin/'', loc_client_max_body_size := 116391936,
             loc_allowed_methods := [''GET'', ''POST''], loc_autoindex := False,
             loc_cgi_paths := [''/usr/bin/python3'', ''/usr/bin/bash''],
             loc_cgi_extensions := [''.py'', ''.sh''],
             loc_cgi_map := omap_put ''.sh'' ''/usr/bin/bash'' (omap_put ''.py'' ''/usr/bin/python3'' [])\<rparr>
         else if num = 3 then
           l\<lparr>loc_path := ''/redirect/'', loc_allowed_methods := [''GET''], loc_return_code := 301,
             loc_return_value := ''/new-page.html'', loc_redirect_enabled := True\<rparr>
         else if num = 4 then
           l\<lparr>loc_path := ''/uploads/'', loc_client_max_body_size := 2040109465,
             loc_allowed_methods := [''GET'', ''POST'', ''DELETE''], loc_autoindex := True,
             loc_upload := ''./www/html/uploads/''\<rparr>
         else if num = 5 then
           l\<lparr>loc_path := ''/errors/'', loc_allowed_methods := [''GET''], loc_autoindex := False\<rparr>
         else l)"

section \<open>Server\<close>

definition Server_new :: server where
  "Server_new = \<lparr>srv_host = [], srv_port = -1, srv_timeout_seconds = 0, srv_root = [],
     srv_client_max_body_size = 0, srv_index_Files = [], srv_server_name = [],
     srv_error_page = [], srv_locations = []\<rparr>"

definition Server_of_http :: "http_config \<Rightarrow> server" where
  "Server_of_http h = Server_new\<lparr>srv_client_max_body_size := http_client_max_body_size h,
     srv_error_page := http_error_page h\<rparr>"

definition getMaxBody :: "server \<Rightarrow> nat" where
  "getMaxBody s = to_size (srv_client_max_body_size s)"

definition srv_setIndex_s :: "string \<Rightarrow> server \<Rightarrow> server" where
  "srv_setIndex_s idx s = s\<lparr>srv_index_Files := srv_index_Files s @ [idx]\<rparr>"

definition setErrorPage :: "int \<Rightarrow> string \<Rightarrow> server \<Rightarrow> server" where
  "setErrorPage code path s = s\<lparr>srv_error_page := omap_put code path (srv_error_page s)\<rparr>"

definition addLocation :: "location \<Rightarrow> server \<Rightarrow> server" where
  "addLocation l s = s\<lparr>srv_locations := srv_locations s @ [l]\<rparr>"

definition Location_of_server :: "server \<Rightarrow> location" where
  "Location_of_server s = Location_new\<lparr>loc_root := srv_root s, loc_index_Files := srv_index_Files s,
     loc_client_max_body_size := to_longlong (getMaxBody s), loc_error_page := srv_error_page s\<rparr>"

definition Server_set_default_conf :: "server \<Rightarrow> server" where
  "Server_set_default_conf s =
     (let l0 = Location_set_default_conf 0 Location_new;
          l1 = Location_set_default_conf 1 l0;
          l2 = Location_set_default_conf 2 l1;
          l3 = Location_set_default_conf 3 l2;
          l4 = Location_set_default_conf 4 l3;
          l5 = Location_set_default_conf 5 l4
      in s\<lparr>srv_host := ''localhost'', srv_port := 8080, srv_timeout_seconds := 60,
           srv_root := ''./www/html'', srv_client_max_body_size := 2040109465,
           srv_index_Files := srv_index_Files s @ [''index.html''],
           srv_server_name := ''example.com'',
           srv_error_page := put_default_error_pages (srv_error_page s),
           srv_locations := srv_locations s @ [l0, l1, l2, l3, l4, l5]\<rparr>)"

section \<open>http block\<close>

definition httpConfig_new :: http_config where
  "httpConfig_new = \<lparr>http_client_max_body_size = 0, http_error_page = [], http_all_servers = [],
     http_exist_location = False\<rparr>"

definition set_error_page :: "int \<Rightarrow> string \<Rightarrow> http_config \<Rightarrow> http_config" where
  "set_error_page code path h = h\<lparr>http_error_page := omap_put code path (http_error_page h)\<rparr>"

definition set_servers :: "server \<Rightarrow> http_config \<Rightarrow> http_config" where
  "set_servers s h = h\<lparr>http_all_servers := http_all_servers h @ [s]\<rparr>"

definition httpConfig_set_default_conf :: "http_config \<Rightarrow> http_config" where
  "httpConfig_set_default_conf h =
     h\<lparr>http_client_max_body_size := 10485760,
       http_error_page := put_default_error_pages (http_error_page h),
       http_all_servers := http_all_servers h @ [Server_set_default_conf Server_new],
       http_exist_location := False\<rparr>"

section \<open>Routing: \<open>Server::matchLocation\<close>\<close>

definition strip_slash :: "string \<Rightarrow> string" where
  "strip_slash s = (if length s > 1 \<and> s ! (length s - 1) = SLASH then take (length s - 1) s else s)"

definition loc_matches :: "string \<Rightarrow> location \<Rightarrow> bool" where
  \<comment> \<open>at \<open>req_path.size() == loc_path.size()\<close> the index reads the terminating NUL\<close>
  "loc_matches path l =
     (let lp = strip_slash (loc_path l); req_path = strip_slash path
      in req_path = lp
         \<or> (starts_with req_path lp \<and> length lp < length req_path \<and> req_path ! length lp = SLASH))"

fun match_loop :: "string \<Rightarrow> location list \<Rightarrow> location option \<Rightarrow> nat \<Rightarrow> location option" where
  "match_loop path [] best best_len = best"
| "match_loop path (l # ls) best best_len =
     (if loc_path l = [] then match_loop path ls best best_len
      else if loc_matches path l
      then if length (loc_path l) > best_len
           then match_loop path ls (Some l) (length (loc_path l))
           else match_loop path ls best best_len
      else match_loop path ls best best_len)"

definition matchLocation :: "server \<Rightarrow> string \<Rightarrow> location option" where
  "matchLocation s path = match_loop path (srv_locations s) None 0"

section \<open>What routing computes\<close>

definition candidate :: "string \<Rightarrow> location \<Rightarrow> bool" where
  "candidate path l \<longleftrightarrow> loc_path l \<noteq> [] \<and> loc_matches path l"

definition segment_prefix :: "string \<Rightarrow> string \<Rightarrow> bool" where
  \<comment> \<open>\<open>base\<close> is \<open>p\<close> or a prefix of it that ends at a segment boundary\<close>
  "segment_prefix base p \<longleftrightarrow> p = base \<or> (\<exists>rest. p = base @ SLASH # rest)"

lemma starts_with_iff: "starts_with s pre \<longleftrightarrow> (\<exists>rest. s = pre @ rest)"
  unfolding starts_with_def by (metis append_eq_conv_conj append_take_drop_id)

lemma strip_slash_cases: "strip_slash s = s \<or> s = strip_slash s @ [SLASH]"
proof (cases "length s > 1 \<and> s ! (length s - 1) = SLASH")
  case True
  then have "s \<noteq> []" by auto
  with True have "last s = SLASH" by simp
  with \<open>s \<noteq> []\<close> have "butlast s @ [SLASH] = s" by (metis append_butlast_last_id)
  with True show ?thesis by (simp add: strip_slash_def butlast_conv_take)
qed (auto simp: strip_slash_def)

lemma loc_matches_iff: "loc_matches path l \<longleftrightarrow> segment_prefix (strip_slash (loc_path l)) (strip_slash path)"
proof -
  have "starts_with p b \<and> length b < length p \<and> p ! length b = SLASH \<longleftrightarrow> (\<exists>rest. p = b @ SLASH # rest)"
    for p b
  proof
    assume *: "starts_with p b \<and> length b < length p \<and> p ! length b = SLASH"
    then obtain rest where "p = b @ rest" by (auto simp: starts_with_iff)
    with * show "\<exists>rest. p = b @ SLASH # rest" by (cases rest) auto
  qed (auto simp: starts_with_iff)
  then show ?thesis by (auto simp: loc_matches_def segment_prefix_def Let_def)
qed

lemma match_loop_cases:
  "(match_loop path ls best n = best \<and> (\<forall>l \<in> set ls. candidate path l \<longrightarrow> length (loc_path l) \<le> n))
   \<or> (\<exists>us l vs. ls = us @ l # vs \<and> match_loop path ls best n = Some l \<and> candidate path l
        \<and> n < length (loc_path l)
        \<and> (\<forall>u \<in> set us. candidate path u \<longrightarrow> length (loc_path u) < length (loc_path l))
        \<and> (\<forall>v \<in> set vs. candidate path v \<longrightarrow> length (loc_path v) \<le> length (loc_path l)))"
  (is "?P ls best n")
proof (induction ls arbitrary: best n)
  case (Cons a ls)
  show ?case
  proof (cases "candidate path a \<and> n < length (loc_path a)")
    case True
    then have eq: "match_loop path (a # ls) best n = match_loop path ls (Some a) (length (loc_path a))"
      by (simp add: candidate_def)
    from Cons.IH [of "Some a" "length (loc_path a)"] show ?thesis
    proof (elim disjE exE conjE)
      assume "match_loop path ls (Some a) (length (loc_path a)) = Some a"
        "\<forall>l \<in> set ls. candidate path l \<longrightarrow> length (loc_path l) \<le> length (loc_path a)"
      with True eq have "a # ls = [] @ a # ls \<and> match_loop path (a # ls) best n = Some a
          \<and> candidate path a \<and> n < length (loc_path a)
          \<and> (\<forall>u \<in> set []. candidate path u \<longrightarrow> length (loc_path u) < length (loc_path a))
          \<and> (\<forall>v \<in> set ls. candidate path v \<longrightarrow> length (loc_path v) \<le> length (loc_path a))" by auto
      then show ?thesis by blast
    next
      fix us l vs
      assume *: "ls = us @ l # vs" "match_loop path ls (Some a) (length (loc_path a)) = Some l"
        "candidate path l" "length (loc_path a) < length (loc_path l)"
        "\<forall>u \<in> set us. candidate path u \<longrightarrow> length (loc_path u) < length (loc_path l)"
        "\<forall>v \<in> set vs. candidate path v \<longrightarrow> length (loc_path v) \<le> length (loc_path l)"
      with True eq have "a # ls = (a # us) @ l # vs \<and> match_loop path (a # ls) best n = Some l
          \<and> candidate path l \<and> n < length (loc_path l)
          \<and> (\<forall>u \<in> set (a # us). candidate path u \<longrightarrow> length (loc_path u) < length (loc_path l))
          \<and> (\<forall>v \<in> set vs. candidate path v \<longrightarrow> length (loc_path v) \<le> length (loc_path l))" by auto
      then show ?thesis by blast
    qed
  next
    case False
    then have eq: "match_loop path (a # ls) best n = match_loop path ls best n"
      by (auto simp: candidate_def)
    from Cons.IH [of best n] show ?thesis
    proof (elim disjE exE conjE)
      assume "match_loop path ls best n = best"
        "\<forall>l \<in> set ls. candidate path l \<longrightarrow> length (loc_path l) \<le> n"
      with False eq show ?thesis by auto
    next
      fix us l vs
      assume *: "ls = us @ l # vs" "match_loop path ls best n = Some l"
        "candidate path l" "n < length (loc_path l)"
        "\<forall>u \<in> set us. candidate path u \<longrightarrow> length (loc_path u) < length (loc_path l)"
        "\<forall>v \<in> set vs. candidate path v \<longrightarrow> length (loc_path v) \<le> length (loc_path l)"
      with False eq have "a # ls = (a # us) @ l # vs \<and> match_loop path (a # ls) best n = Some l
          \<and> candidate path l \<and> n < length (loc_path l)
          \<and> (\<forall>u \<in> set (a # us). candidate path u \<longrightarrow> length (loc_path u) < length (loc_path l))
          \<and> (\<forall>v \<in> set vs. candidate path v \<longrightarrow> length (loc_path v) \<le> length (loc_path l))" by auto
      then show ?thesis by blast
    qed
  qed
qed simp

lemma matchLocation_SomeD:
  assumes "matchLocation s path = Some l"
  obtains us vs where "srv_locations s = us @ l # vs" "candidate path l"
    "\<forall>u \<in> set us. candidate path u \<longrightarrow> length (loc_path u) < length (loc_path l)"
    "\<forall>v \<in> set vs. candidate path v \<longrightarrow> length (loc_path v) \<le> length (loc_path l)"
  using match_loop_cases [of path "srv_locations s" None 0] assms
  by (auto simp: matchLocation_def)

lemma matchLocation_None_iff: "matchLocation s path = None \<longleftrightarrow> (\<forall>l \<in> set (srv_locations s). \<not> candidate path l)"
  using match_loop_cases [of path "srv_locations s" None 0]
  by (auto simp: matchLocation_def candidate_def)

lemma matchLocation_in: "matchLocation s path = Some l \<Longrightarrow> l \<in> set (srv_locations s)"
  by (erule matchLocation_SomeD) simp

lemma matchLocation_candidate: "matchLocation s path = Some l \<Longrightarrow> candidate path l"
  by (erule matchLocation_SomeD)

section \<open>Properties\<close>

text \<open>
  C30: \<open>matchLocation\<close> selects the most specific location.  The result is a
  configured location whose path, up to a trailing slash, is a prefix of the request
  path that ends at a segment boundary; no other matching location has a longer
  path, and among equally long ones the first of the configuration wins.  It returns
  NULL exactly when no location matches.
\<close>

theorem matchLocation_most_specific:
  "(case matchLocation s path of
      None \<Rightarrow> (\<forall>l \<in> set (srv_locations s). loc_path l \<noteq> [] \<longrightarrow>
                 \<not> segment_prefix (strip_slash (loc_path l)) (strip_slash path))
    | Some l \<Rightarrow> (\<exists>us vs. srv_locations s = us @ l # vs
         \<and> segment_prefix (strip_slash (loc_path l)) (strip_slash path)
         \<and> (\<forall>u \<in> set us. loc_path u \<noteq> [] \<and> segment_prefix (strip_slash (loc_path u)) (strip_slash path)
               \<longrightarrow> length (loc_path u) < length (loc_path l))
         \<and> (\<forall>v \<in> set vs. loc_path v \<noteq> [] \<and> segment_prefix (strip_slash (loc_path v)) (strip_slash path)
               \<longrightarrow> length (loc_path v) \<le> length (loc_path l))))"
proof (cases "matchLocation s path")
  case None
  then have "\<forall>l \<in> set (srv_locations s). \<not> candidate path l" by (simp add: matchLocation_None_iff)
  with None show ?thesis by (auto simp: candidate_def loc_matches_iff)
next
  case (Some l)
  then obtain us vs where "srv_locations s = us @ l # vs" "candidate path l"
    "\<forall>u \<in> set us. candidate path u \<longrightarrow> length (loc_path u) < length (loc_path l)"
    "\<forall>v \<in> set vs. candidate path v \<longrightarrow> length (loc_path v) \<le> length (loc_path l)"
    by (rule matchLocation_SomeD)
  with Some show ?thesis by (auto simp: candidate_def loc_matches_iff)
qed

theorem matchLocation_most_specific_witness:
  "map_option loc_path (matchLocation (Server_set_default_conf Server_new) ''/uploads/a.txt'') = Some ''/uploads/''
   \<and> (\<exists>us vs. srv_locations (Server_set_default_conf Server_new) = us @ the (matchLocation (Server_set_default_conf Server_new) ''/uploads/a.txt'') # vs)"
proof -
  have "map_option loc_path (matchLocation (Server_set_default_conf Server_new) ''/uploads/a.txt'') = Some ''/uploads/''"
    by code_simp
  moreover from this obtain l where "matchLocation (Server_set_default_conf Server_new) ''/uploads/a.txt'' = Some l"
    by auto
  ultimately show ?thesis
    using matchLocation_most_specific [of "Server_set_default_conf Server_new" "''/uploads/a.txt''"] by auto
qed

text \<open>
  A \<open>location /\<close> block is not a catch-all.  Because its path has length 1, its
  slash is not stripped and the byte after it must again be a slash, so it matches no
  request path that has a first segment; such a request is handled without a location
  (\<open>GET\<close> only) unless another location matches.
\<close>

theorem root_location_matches_only_root:
  assumes "loc_path l = ''/''" "c \<noteq> SLASH"
  shows "\<not> loc_matches (SLASH # c # rest) l"
proof -
  have l: "strip_slash (loc_path l) = [SLASH]" using assms(1) by (simp add: strip_slash_def)
  have "strip_slash (SLASH # c # rest) = SLASH # c # rest \<or>
      (\<exists>r. strip_slash (SLASH # c # rest) = SLASH # c # r)"
    using strip_slash_cases [of "SLASH # c # rest"] assms(2)
    by (auto simp: strip_slash_def take_Cons split: nat.splits)
  with assms(2) l show ?thesis by (auto simp: loc_matches_iff segment_prefix_def)
qed

theorem root_location_matches_only_root_witness:
  "\<not> loc_matches ''/index.html'' (Location_set_default_conf 0 Location_new)"
  using root_location_matches_only_root [of "Location_set_default_conf 0 Location_new" "CHR ''i''" "''ndex.html''"]
  by (simp add: Location_set_default_conf_def)

end
