(* ===== verification/Os_Interface.thy ===== *)
theory Os_Interface
  imports Web_Prelude
begin

text \<open>
  The operating system as the program sees it.  A value of type \<open>os\<close> holds the answers
  of the file system, the clock and the process table to the calls the sources make;
  it is an argument of every definition that performs such a call.  Nothing is assumed
  about it.  Paths are passed as C strings, so callers apply \<open>c_str\<close>.
\<close>

datatype errno = ENOENT | EACCES | EPERM | EOTHER

datatype file_kind = REG | DIR | OTHER_KIND

record file_stat =
  st_kind :: file_kind
  st_size :: nat
  st_ino :: nat
  st_dev :: nat

record os =
  os_stat :: "string \<Rightarrow> errno + file_stat"      \<comment> \<open>\<open>stat(path)\<close>\<close>
  os_read :: "string \<Rightarrow> errno + string list"    \<comment> \<open>\<open>open(path, O_RDONLY)\<close> and the blocks successive \<open>read\<close> calls return\<close>
  os_create :: "string \<Rightarrow> errno option"         \<comment> \<open>\<open>open(path, O_WRONLY | O_CREAT | O_TRUNC)\<close>\<close>
  os_write :: "string \<Rightarrow> nat \<Rightarrow> nat \<Rightarrow> int"     \<comment> \<open>\<open>write\<close> to the file at an offset: what it returns for a number of bytes\<close>
  os_remove :: "string \<Rightarrow> errno option"         \<comment> \<open>\<open>remove(path)\<close>\<close>
  os_readdir :: "string \<Rightarrow> errno + string list" \<comment> \<open>\<open>opendir(path)\<close> and the names \<open>readdir\<close> returns\<close>
  os_access_x :: "string \<Rightarrow> bool"               \<comment> \<open>\<open>access(path, X_OK) == 0\<close>\<close>
  os_access_r :: "string \<Rightarrow> bool"               \<comment> \<open>\<open>access(path, R_OK) == 0\<close>\<close>
  os_access_w :: "string \<Rightarrow> bool"               \<comment> \<open>\<open>access(path, W_OK) == 0\<close>\<close>
  os_date :: string                              \<comment> \<open>\<open>strftime\<close> of the current time, RFC 1123\<close>
  os_time :: int                                 \<comment> \<open>\<open>time(NULL)\<close>\<close>
  os_pwd :: "string option"                      \<comment> \<open>\<open>getenv("PWD")\<close>\<close>

definition is_dir :: "os \<Rightarrow> string \<Rightarrow> bool" where
  "is_dir w p \<longleftrightarrow> (case os_stat w (c_str p) of Inl _ \<Rightarrow> False | Inr st \<Rightarrow> st_kind st = DIR)"

definition is_reg :: "os \<Rightarrow> string \<Rightarrow> bool" where
  "is_reg w p \<longleftrightarrow> (case os_stat w (c_str p) of Inl _ \<Rightarrow> False | Inr st \<Rightarrow> st_kind st = REG)"

definition stat_fails :: "os \<Rightarrow> string \<Rightarrow> bool" where
  "stat_fails w p \<longleftrightarrow> (case os_stat w (c_str p) of Inl _ \<Rightarrow> True | Inr _ \<Rightarrow> False)"

text \<open>A sample file system for concrete instances: every path is a readable, empty file.\<close>

definition sample_os :: os where
  "sample_os =
     \<lparr>os_stat = (\<lambda>_. Inr \<lparr>st_kind = REG, st_size = 0, st_ino = 0, st_dev = 0\<rparr>), os_read = (\<lambda>_. Inr []), os_create = (\<lambda>_. None),
      os_write = (\<lambda>_ _ n. int n), os_remove = (\<lambda>_. None), os_readdir = (\<lambda>_. Inr []),
      os_access_x = (\<lambda>_. True), os_access_r = (\<lambda>_. True), os_access_w = (\<lambda>_. True),
      os_date = ''Mon, 01 Jan 2024 00:00:00 GMT'', os_time = 0, os_pwd = Some ''/srv''\<rparr>"

end
