(* ===== verification/Connections.thy ===== *)
theory Connections
  imports Buffers Config_Data
begin

text \<open>
  The per-client state: \<open>HttpRequest\<close> (\<open>src/HttpRequest.cpp\<close>), \<open>ConnectionState\<close>
  (\<open>src/ConnectionState.cpp\<close>) and \<open>Connection\<close> (\<open>src/Connection.cpp\<close>).  Operations
  that also close or remove files return the list of these system calls next to the
  new state.  The results of \<open>recv\<close>, \<open>send\<close> and \<open>time\<close> are arguments.
\<close>

section \<open>Enumerations\<close>

datatype ParseState =
    PSTATE_IDLE | PSTATE_REQUEST_LINE | PSTATE_HEADERS | PSTATE_BODY | PSTATE_COMPLETE | PSTATE_ERROR

text \<open>The enumerators are ordered by their values.\<close>

fun parse_state_code :: "ParseState \<Rightarrow> nat" where
  "parse_state_code PSTATE_IDLE = 0"
| "parse_state_code PSTATE_REQUEST_LINE = 1"
| "parse_state_code PSTATE_HEADERS = 2"
| "parse_state_code PSTATE_BODY = 3"
| "parse_state_code PSTATE_COMPLETE = 4"
| "parse_state_code PSTATE_ERROR = 5"

lemma parse_state_code_inj: "parse_state_code a = parse_state_code b \<Longrightarrow> a = b"
  by (cases a; cases b) simp_all

instantiation ParseState :: linorder
begin

definition less_eq_ParseState :: "ParseState \<Rightarrow> ParseState \<Rightarrow> bool" where
  "less_eq_ParseState a b \<longleftrightarrow> parse_state_code a \<le> parse_state_code b"

definition less_ParseState :: "ParseState \<Rightarrow> ParseState \<Rightarrow> bool" where
  "less_ParseState a b \<longleftrightarrow> parse_state_code a < parse_state_code b"

instance
  by standard (auto simp: less_eq_ParseState_def less_ParseState_def dest: parse_state_code_inj)

end

datatype ConnectionState =
    CSTATE_READING | CSTATE_PROCESSING | CSTATE_CGI_RUNNING | CSTATE_WRITING | CSTATE_CLOSING

fun connStateStr :: "ConnectionState \<Rightarrow> string" where
  "connStateStr CSTATE_READING = ''READING''"
| "connStateStr CSTATE_PROCESSING = ''PROCESSING''"
| "connStateStr CSTATE_WRITING = ''WRITING''"
| "connStateStr CSTATE_CLOSING = ''CLOSING''"
| "connStateStr CSTATE_CGI_RUNNING = ''CGI_RUNNING''"

section \<open>System calls issued on files and descriptors\<close>

datatype sys_call =
    SysClose int
  | SysRemove string
  | SysWriteFile string string  \<comment> \<open>path and the bytes written to it\<close>

section \<open>HttpRequest\<close>

record http_request =
  req_method :: string
  path :: string
  query_string :: string
  version :: string
  headers :: "(string, string) omap"
  body :: buffer
  parse_state :: ParseState
  content_length :: nat
  chunked :: bool
  max_body_size :: nat
  error_code :: int
  chunk_size :: nat
  chunk_trailing :: bool
  chunk_done :: bool
  opened :: bool
  opened_file :: int
  tmp_body_path :: string
  written :: nat
  body_file_written :: nat

definition HttpRequest_new :: "nat \<Rightarrow> http_request" where
  "HttpRequest_new client_max_body_size =
     \<lparr>req_method = [], path = [], query_string = [], version = [], headers = [],
      body = Buffer_new client_max_body_size, parse_state = PSTATE_IDLE, content_length = 0,
      chunked = False, max_body_size = 0, error_code = 0, chunk_size = 0,
      chunk_trailing = False, chunk_done = False, opened = False, opened_file = -1,
      tmp_body_path = [], written = 0, body_file_written = 0\<rparr>"

definition HttpRequest_reset :: "http_request \<Rightarrow> sys_call list \<times> http_request" where
  "HttpRequest_reset r =
     ((if opened_file r \<ge> 0 then [SysClose (opened_file r)] else [])
        @ (if tmp_body_path r \<noteq> [] then [SysRemove (tmp_body_path r)] else []),
      r\<lparr>req_method := [], path := [], query_string := [], version := [], headers := [],
        body := Buffer_reset (body r),
        opened_file := (if opened_file r \<ge> 0 then -1 else opened_file r),
        tmp_body_path := [], opened := False, body_file_written := 0,
        parse_state := PSTATE_IDLE, content_length := 0, chunked := False, error_code := 0,
        chunk_size := 0, chunk_trailing := False, chunk_done := False, max_body_size := 0,
        written := 0\<rparr>)"

definition header :: "http_request \<Rightarrow> string \<Rightarrow> string" where
  "header r key = (case omap_get (headers r) key of Some v \<Rightarrow> v | None \<Rightarrow> [])"

definition expectsBody :: "http_request \<Rightarrow> bool" where
  "expectsBody r \<longleftrightarrow>
     (if content_length r > 0 \<or> chunked r then True
      else if req_method r = ''POST'' then True else False)"

definition keepAlive :: "http_request \<Rightarrow> bool" where
  "keepAlive r \<longleftrightarrow>
     (let conn = map to_lower (header r ''connection'')
      in if version r = ''HTTP/1.1'' then conn \<noteq> ''close'' else conn = ''keep-alive'')"

definition set_header :: "string \<Rightarrow> string \<Rightarrow> http_request \<Rightarrow> http_request" where
  "set_header k v r = r\<lparr>headers := omap_put k v (headers r)\<rparr>"

lemma header_set_header [simp]: "header (set_header k v r) k' = (if k' = k then v else header r k')"
  by (simp add: header_def set_header_def)

section \<open>Connection\<close>

record connection =
  conn_num :: int
  fd :: int
  config :: server
  configuration :: "server list"
  read_buffer :: buffer
  write_buffer :: buffer
  request :: http_request
  state :: ConnectionState
  last_active :: int
  peer_half_closed :: bool
  client_ip :: string

definition Connection_new :: "int \<Rightarrow> int \<Rightarrow> server \<Rightarrow> connection" where
  "Connection_new now f cfg =
     \<lparr>conn_num = 0, fd = f, config = cfg, configuration = [],
      read_buffer = Buffer_new (getMaxBody cfg), write_buffer = Buffer_new (getMaxBody cfg),
      request = HttpRequest_new (getMaxBody cfg), state = CSTATE_READING, last_active = now,
      peer_half_closed = False, client_ip = []\<rparr>"

definition touchActive :: "int \<Rightarrow> connection \<Rightarrow> connection" where
  "touchActive now c = c\<lparr>last_active := now\<rparr>"

text \<open>
  The result of a \<open>recv\<close> or \<open>send\<close> system call: the bytes received or their number,
  end of file, or \<open>-1\<close>.
\<close>

datatype recv_result = RecvData string | RecvEOF | RecvFail

definition Connection_recv :: "int \<Rightarrow> recv_result \<Rightarrow> connection \<Rightarrow> failure + connection" where
  "Connection_recv now r c =
     (case r of
        RecvData bytes \<Rightarrow>
          rbind (Buffer_append (read_buffer c) bytes)
            (\<lambda>rb. Inr (touchActive now (c\<lparr>read_buffer := rb\<rparr>)))
      | RecvEOF \<Rightarrow> Inr c
      | RecvFail \<Rightarrow> Inr c)"

definition Connection_send :: "int \<Rightarrow> nat option \<Rightarrow> connection \<Rightarrow> failure + connection" where
  \<comment> \<open>\<open>None\<close>: \<open>send\<close> returned -1; \<open>Some n\<close>: it took \<open>n\<close> bytes\<close>
  "Connection_send now r c =
     (if Buffer_empty (write_buffer c) then Inr c
      else case r of
        None \<Rightarrow> Inr c
      | Some n \<Rightarrow>
          if n > 0 then
            rbind (Buffer_consume (write_buffer c) n)
              (\<lambda>wb. Inr (touchActive now (c\<lparr>write_buffer := wb\<rparr>)))
          else Inr c)"

definition Connection_reset :: "int \<Rightarrow> connection \<Rightarrow> sys_call list \<times> connection" where
  "Connection_reset now c =
     (let server_default = getMaxBody (config c);
          rb = Buffer_setMaxSize server_default (Buffer_reset (read_buffer c));
          wb = Buffer_setMaxSize server_default (Buffer_reset (write_buffer c));
          (calls, rq) = HttpRequest_reset (request c);
          rq = rq\<lparr>body := Buffer_setMaxSize server_default (body rq)\<rparr>
      in (calls, touchActive now
            (c\<lparr>read_buffer := rb, write_buffer := wb, request := rq, state := CSTATE_READING,
               peer_half_closed := False\<rparr>)))"

definition isTimedOut :: "int \<Rightarrow> int \<Rightarrow> connection \<Rightarrow> bool" where
  "isTimedOut now timeout_seconds c \<longleftrightarrow> now - last_active c > timeout_seconds"

definition setProcessing :: "connection \<Rightarrow> connection" where
  "setProcessing c = c\<lparr>state := CSTATE_PROCESSING\<rparr>"

definition setWriting :: "connection \<Rightarrow> connection" where
  "setWriting c = c\<lparr>state := CSTATE_WRITING\<rparr>"

definition setCgiRunning :: "connection \<Rightarrow> connection" where
  "setCgiRunning c = c\<lparr>state := CSTATE_CGI_RUNNING\<rparr>"

definition setReading :: "int \<Rightarrow> connection \<Rightarrow> sys_call list \<times> connection" where
  "setReading now c =
     (let (calls, c') = Connection_reset now c in (calls, c'\<lparr>state := CSTATE_READING\<rparr>))"

definition setPeerHalfClosed :: "connection \<Rightarrow> connection" where
  "setPeerHalfClosed c = c\<lparr>peer_half_closed := True\<rparr>"

datatype epoll_flag = EPOLLIN | EPOLLOUT | EPOLLRDHUP | EPOLLET | EPOLLERR | EPOLLHUP

definition buildEpollEvent :: "connection \<Rightarrow> epoll_flag list" where
  "buildEpollEvent c =
     [EPOLLET, EPOLLRDHUP] @
     (case state c of CSTATE_READING \<Rightarrow> [EPOLLIN] | CSTATE_WRITING \<Rightarrow> [EPOLLOUT] | _ \<Rightarrow> [])"

definition overide_conf :: "server \<Rightarrow> connection \<Rightarrow> connection" where
  "overide_conf s c = c\<lparr>config := s\<rparr>"

definition hold_cofiguration :: "server list \<Rightarrow> connection \<Rightarrow> connection" where
  "hold_cofiguration confs c = c\<lparr>configuration := confs\<rparr>"

definition resize_buffers :: "connection \<Rightarrow> connection" where
  "resize_buffers c =
     (let m = getMaxBody (config c) in
      c\<lparr>read_buffer := Buffer_setMaxSize m (read_buffer c),
        write_buffer := Buffer_setMaxSize m (write_buffer c),
        request := (request c)\<lparr>body := Buffer_setMaxSize m (body (request c))\<rparr>\<rparr>)"

text \<open>A fresh client of the default server that has sent \<open>s\<close>, for concrete instances.\<close>

definition sample_conn :: "string \<Rightarrow> connection" where
  "sample_conn s =
     (let c = Connection_new 0 5 (Server_set_default_conf Server_new) in
      c\<lparr>read_buffer := (read_buffer c)\<lparr>storage := s\<rparr>\<rparr>)"

lemma sample_conn_simps [simp]:
  "length s \<le> max_size \<Longrightarrow> buf_ok (read_buffer (sample_conn s))"
  "content (read_buffer (sample_conn s)) = s"
  "parse_state (request (sample_conn s)) = PSTATE_IDLE"
  "headers (request (sample_conn s)) = []" "content_length (request (sample_conn s)) = 0"
  "\<not> chunked (request (sample_conn s))" "config (sample_conn s) = Server_set_default_conf Server_new"
  by (simp_all add: sample_conn_def Connection_new_def buf_ok_def Buffer_new_def initial_capacity_def
      content_def HttpRequest_new_def)

lemma sample_max [simp]: "getMaxBody (Server_set_default_conf Server_new) = 2040109465"
  by (simp add: getMaxBody_def Server_set_default_conf_def Server_new_def Let_def to_size_def)

end
