(* ===== verification/Incremental.thy ===== *)
theory Incremental
  imports Web_Prelude
begin

text \<open>
  The contract of a parser that is fed from a socket.  Bytes arrive in pieces of any
  size; the parser is called after each piece on everything not yet consumed, does as
  many turns as it can and waits for more.  \<open>run_parser\<close> is that loop for a single-turn
  function, and the locale \<open>incremental\<close> states what a turn has to satisfy so that the
  verdict depends only on the byte stream and not on how it was cut: a turn that
  succeeded, stopped or failed does so again when more bytes follow, or else it had
  consumed all its input and the following turn just goes on from there.
\<close>

datatype 's turn =
    Wait            \<comment> \<open>more bytes are needed\<close>
  | Next 's nat     \<comment> \<open>new state, bytes consumed\<close>
  | Stop 's nat     \<comment> \<open>finished, bytes consumed\<close>
  | Fail int        \<comment> \<open>rejected with this status code\<close>

fun shift_turn :: "nat \<Rightarrow> 's turn \<Rightarrow> 's turn" where
  "shift_turn k Wait = Wait"
| "shift_turn k (Next s n) = Next s (k + n)"
| "shift_turn k (Stop s n) = Stop s (k + n)"
| "shift_turn k (Fail e) = Fail e"

datatype 's verdict =
    Waiting 's string   \<comment> \<open>state and bytes not consumed yet\<close>
  | Stopped 's string
  | Failed int

function run_parser :: "('s \<Rightarrow> string \<Rightarrow> 's turn) \<Rightarrow> 's \<Rightarrow> string \<Rightarrow> 's verdict" where
  "run_parser step s xs =
     (case step s xs of
        Wait \<Rightarrow> Waiting s xs
      | Next s' n \<Rightarrow> if 0 < n \<and> n \<le> length xs then run_parser step s' (drop n xs) else Waiting s xs
      | Stop s' n \<Rightarrow> Stopped s' (drop n xs)
      | Fail e \<Rightarrow> Failed e)"
  by pat_completeness auto
termination by (relation "measure (\<lambda>(step, s, xs). length xs)") auto

declare run_parser.simps [simp del]

definition resume :: "('s \<Rightarrow> string \<Rightarrow> 's turn) \<Rightarrow> 's verdict \<Rightarrow> string \<Rightarrow> 's verdict" where
  \<comment> \<open>a further piece arrives\<close>
  "resume step v ys =
     (case v of Waiting s rest \<Rightarrow> run_parser step s (rest @ ys)
      | Stopped s rest \<Rightarrow> Stopped s (rest @ ys) | Failed e \<Rightarrow> Failed e)"

definition run_pieces :: "('s \<Rightarrow> string \<Rightarrow> 's turn) \<Rightarrow> 's \<Rightarrow> string list \<Rightarrow> 's verdict" where
  "run_pieces step s pieces = foldl (resume step) (Waiting s []) pieces"

locale incremental =
  fixes step :: "'s \<Rightarrow> string \<Rightarrow> 's turn"
  assumes next_progress: "step s xs = Next s' n \<Longrightarrow> 0 < n \<and> n \<le> length xs"
    and next_stable: "step s xs = Next s' n \<Longrightarrow>
      (\<forall>ys. step s (xs @ ys) = Next s' n) \<or>
      (n = length xs \<and> (\<forall>ys. ys \<noteq> [] \<longrightarrow> step s' ys \<noteq> Wait \<and> step s (xs @ ys) = shift_turn n (step s' ys)))"
    and wait_nil: "step s [] = Wait"
    and stop_stable: "step s xs = Stop s' n \<Longrightarrow> n \<le> length xs \<and> step s (xs @ ys) = Stop s' n"
    and fail_stable: "step s xs = Fail e \<Longrightarrow> step s (xs @ ys) = Fail e"
begin

lemma run_Next: "step s xs = Next s' n \<Longrightarrow> run_parser step s xs = run_parser step s' (drop n xs)"
  using next_progress [of s xs s' n] by (subst run_parser.simps) simp

lemma run_Nil [simp]: "run_parser step s [] = Waiting s []"
  by (subst run_parser.simps) (simp add: wait_nil)

lemma run_shift:
  assumes "step s zs = shift_turn n (step s' ys)" "zs = us @ ys" "n = length us" "step s' ys \<noteq> Wait"
  shows "run_parser step s zs = run_parser step s' ys"
proof (cases "step s' ys")
  case (Next t k)
  then have "0 < k" "k \<le> length ys" using next_progress by blast+
  with Next assms run_Next [of s zs t "n + k"] run_Next [of s' ys t k] show ?thesis by simp
next
  case (Stop t k)
  with assms show ?thesis
    by (simp add: run_parser.simps [of step s "us @ ys"] run_parser.simps [of step s' ys])
next
  case (Fail e)
  with assms show ?thesis
    by (simp add: run_parser.simps [of step s "us @ ys"] run_parser.simps [of step s' ys])
qed (use assms in simp)

lemma run_append: "run_parser step s (xs @ ys) = resume step (run_parser step s xs) ys"
proof (induction "length xs" arbitrary: s xs rule: less_induct)
  case less
  show ?case
  proof (cases "step s xs")
    case Wait
    then show ?thesis by (simp add: run_parser.simps [of step s xs] resume_def)
  next
    case (Next s' n)
    then have n: "0 < n" "n \<le> length xs" using next_progress by blast+
    have left: "run_parser step s xs = run_parser step s' (drop n xs)" using Next by (rule run_Next)
    consider (stable) "step s (xs @ ys) = Next s' n"
      | (go_on) "n = length xs" "ys \<noteq> []" "step s' ys \<noteq> Wait" "step s (xs @ ys) = shift_turn n (step s' ys)"
      | (none) "ys = []"
      using next_stable [OF Next] by blast
    then show ?thesis
    proof cases
      case stable
      then have "run_parser step s (xs @ ys) = run_parser step s' (drop n xs @ ys)"
        using run_Next [OF stable] n by simp
      also have "\<dots> = resume step (run_parser step s' (drop n xs)) ys"
        using less [of "drop n xs" s'] n by simp
      finally show ?thesis using left by simp
    next
      case go_on
      then show ?thesis using run_shift [OF go_on(4) refl go_on(1,3)] left by (simp add: resume_def)
    next
      case none
      then show ?thesis using less [of "drop n xs" s'] n left by simp
    qed
  next
    case (Stop s' n)
    with stop_stable [OF Stop, of ys] show ?thesis
      by (simp add: run_parser.simps [of step s xs] run_parser.simps [of step s "xs @ ys"] resume_def)
  next
    case (Fail e)
    with fail_stable [OF Fail, of ys] show ?thesis
      by (simp add: run_parser.simps [of step s xs] run_parser.simps [of step s "xs @ ys"] resume_def)
  qed
qed

lemma resume_append: "resume step (resume step v xs) ys = resume step v (xs @ ys)"
proof (cases v)
  case (Waiting s rest)
  have "run_parser step s (rest @ xs @ ys) = resume step (run_parser step s (rest @ xs)) ys"
    using run_append [of s "rest @ xs" ys] by simp
  with Waiting show ?thesis by (simp add: resume_def)
qed (simp_all add: resume_def)

lemma foldl_resume: "foldl (resume step) v pieces = (if pieces = [] then v else resume step v (concat pieces))"
proof (induction pieces arbitrary: v)
  case (Cons p ps)
  show ?case by (simp add: Cons.IH resume_append)
qed simp

lemma run_pieces_concat: "run_pieces step s pieces = run_parser step s (concat pieces)"
proof (cases "pieces = []")
  case False
  then show ?thesis by (simp add: run_pieces_def foldl_resume) (simp add: resume_def)
qed (simp add: run_pieces_def)

end

end
