(* ===== verification/Request_Line.thy ===== *)
theory Request_Line
  imports Connections Os_Interface
begin

text \<open>
  The first stage of \<open>src/HttpParser.cpp\<close>: the character classes, \<open>pctDecode\<close>,
  \<open>cleanPath\<close>, \<open>_validatePath\<close>, and \<open>_parseRequestLine\<close> with its explicit state
  machine \<open>RLState\<close>.  The pointers of the C++ scanner into the read buffer are indices
  into its bytes.
\<close>

section \<open>Character classes and small helpers\<close>

definition is_token_char :: "char \<Rightarrow> bool" where
  "is_token_char ch \<longleftrightarrow> is_upper ch \<or> is_lower ch \<or> is_digit ch \<or> ch = CHR ''_'' \<or> ch = CHR ''-''"

definition is_uri_char :: "char \<Rightarrow> bool" where
  "is_uri_char ch \<longleftrightarrow> ord ch \<ge> 0x20 \<and> ord ch \<noteq> 0x7f"

definition hex_nibble :: "char \<Rightarrow> nat" where
  "hex_nibble c = (if is_digit c then ord c - ord (CHR ''0'') else ord (to_lower c) - ord (CHR ''a'') + 10)"

fun pctDecode :: "string \<Rightarrow> string" where
  "pctDecode (c # h # l # s) =
     (if c = CHR ''%'' \<and> is_xdigit h \<and> is_xdigit l then
        let val = hex_nibble h * 16 + hex_nibble l in
        if val = ord SLASH then c # pctDecode (h # l # s)
        else chr val # pctDecode s
      else c # pctDecode (h # l # s))"
| "pctDecode (c # s) = c # pctDecode s"
| "pctDecode [] = []"

definition str_tolower :: "string \<Rightarrow> string" where
  "str_tolower s = map to_lower s"

definition is_blank :: "char \<Rightarrow> bool" where
  "is_blank c \<longleftrightarrow> c = CHR '' '' \<or> c = TAB"

definition str_trim :: "string \<Rightarrow> string" where
  "str_trim s = rev (dropWhile is_blank (rev (dropWhile is_blank s)))"

fun find_crlf :: "string \<Rightarrow> nat option" where
  "find_crlf (a # b # s) = (if a = CR \<and> b = LF then Some 0 else map_option Suc (find_crlf (b # s)))"
| "find_crlf _ = None"

fun cleanPath_loop :: "string \<Rightarrow> bool \<Rightarrow> string" where
  "cleanPath_loop [] lastWasSlash = []"
| "cleanPath_loop (c # s) lastWasSlash =
     (if c = SLASH
      then (if \<not> lastWasSlash then c # cleanPath_loop s True else cleanPath_loop s True)
      else c # cleanPath_loop s False)"

definition cleanPath :: "string \<Rightarrow> string" where
  "cleanPath p =
     (let result = cleanPath_loop p False in
      if length result > 1 \<and> result ! (length result - 1) = SLASH
      then take (length result - 1) result else result)"

definition rstrip_slashes :: "string \<Rightarrow> string" where
  \<comment> \<open>\<open>while (!root.empty() && root[root.size() - 1] == '/') root.erase(root.size() - 1)\<close>\<close>
  "rstrip_slashes s = rev (dropWhile (\<lambda>c. c = SLASH) (rev s))"

definition validatePath :: "connection \<Rightarrow> string" where
  "validatePath c =
     (let uri = path (request c);
          loc = matchLocation (config c) uri;
          (root, uri) =
            (case loc of
               Some l \<Rightarrow>
                 if loc_root l \<noteq> [] then
                   (loc_root l,
                    if starts_with uri (loc_path l) then
                      (let stripped = drop (length (loc_path l)) uri in
                       if stripped \<noteq> [] then
                         (if hd stripped \<noteq> SLASH then loc_path l @ stripped else stripped)
                       else uri)
                    else uri)
                 else (srv_root (config c), uri)
             | None \<Rightarrow> (srv_root (config c), uri));
          root = rstrip_slashes root;
          uri =
            (case loc of
               Some l \<Rightarrow>
                 if loc_root l \<noteq> [] \<and> uri = loc_path l then
                   (case str_rfind (\<lambda>c. c = SLASH) uri of Some i \<Rightarrow> drop i uri | None \<Rightarrow> uri)
                 else uri
             | None \<Rightarrow> uri)
      in root @ uri)"

section \<open>The scanner of the request line\<close>

datatype RLState =
    RL_START | RL_METHOD | RL_SPACE_BEFORE_URI | RL_URI | RL_HTTP1_1 | RL_HTTP_H | RL_HTTP_HT
  | RL_HTTP_HTT | RL_HTTP_HTTP | RL_FIRST_MAJOR | RL_MAJOR | RL_FIRST_MINOR | RL_MINOR
  | RL_SPACE_AFTER_VERSION | RL_ALMOST_DONE

record rl_scan =
  rl_state :: RLState
  pos :: nat
  method_start :: "nat option"
  method_end :: "nat option"
  uri_start :: "nat option"
  uri_end :: "nat option"
  http_major :: int
  http_minor :: int

datatype rl_result = RLMore rl_scan | RLDone rl_scan | RLFail int

definition rl_init :: rl_scan where
  "rl_init = \<lparr>rl_state = RL_START, pos = 0, method_start = None, method_end = None,
     uri_start = None, uri_end = None, http_major = -1, http_minor = -1\<rparr>"

definition advance :: "rl_scan \<Rightarrow> RLState \<Rightarrow> rl_result" where
  \<comment> \<open>\<open>state = ...; break;\<close> and the \<open>++p\<close> after the switch\<close>
  "advance s st = RLMore (s\<lparr>rl_state := st, pos := Suc (pos s)\<rparr>)"

definition finish :: "rl_scan \<Rightarrow> rl_result" where
  \<comment> \<open>\<open>done = true; break;\<close> and the \<open>++p\<close> after the switch\<close>
  "finish s = RLDone (s\<lparr>pos := Suc (pos s)\<rparr>)"

definition digit_int :: "char \<Rightarrow> int" where "digit_int ch = int (ord ch) - int (ord (CHR ''0''))"

definition rl_step :: "rl_scan \<Rightarrow> char \<Rightarrow> rl_result" where
  "rl_step s ch =
     (case rl_state s of
        RL_START \<Rightarrow>
          if ch = CR \<or> ch = LF then advance s RL_START
          else if \<not> is_token_char ch then RLFail 400
          else advance (s\<lparr>method_start := Some (pos s)\<rparr>) RL_METHOD
      | RL_METHOD \<Rightarrow>
          if ch = CHR '' '' then advance (s\<lparr>method_end := Some (pos s)\<rparr>) RL_SPACE_BEFORE_URI
          else if \<not> is_token_char ch then RLFail 400
          else advance s RL_METHOD
      | RL_SPACE_BEFORE_URI \<Rightarrow>
          if ch = CHR '' '' then advance s RL_SPACE_BEFORE_URI
          else if is_uri_char ch then advance (s\<lparr>uri_start := Some (pos s)\<rparr>) RL_URI
          else RLFail 400
      | RL_URI \<Rightarrow>
          if ch = CHR '' '' then advance (s\<lparr>uri_end := Some (pos s)\<rparr>) RL_HTTP1_1
          else if ch = CR \<or> ch = LF then RLFail 400
          else if \<not> is_uri_char ch then RLFail 400
          else advance s RL_URI
      | RL_HTTP1_1 \<Rightarrow>
          if ch = CHR '' '' then advance s RL_HTTP1_1
          else if ch = CR \<or> ch = LF then RLFail 400
          else if ch = CHR ''H'' then advance s RL_HTTP_H
          else RLFail 400
      | RL_HTTP_H \<Rightarrow> if ch = CHR ''T'' then advance s RL_HTTP_HT else RLFail 400
      | RL_HTTP_HT \<Rightarrow> if ch = CHR ''T'' then advance s RL_HTTP_HTT else RLFail 400
      | RL_HTTP_HTT \<Rightarrow> if ch = CHR ''P'' then advance s RL_HTTP_HTTP else RLFail 400
      | RL_HTTP_HTTP \<Rightarrow> if ch = SLASH then advance s RL_FIRST_MAJOR else RLFail 400
      | RL_FIRST_MAJOR \<Rightarrow>
          if \<not> is_digit ch then RLFail 400
          else if ch \<noteq> CHR ''1'' then RLFail 505
          else advance (s\<lparr>http_major := digit_int ch\<rparr>) RL_MAJOR
      | RL_MAJOR \<Rightarrow>
          if ch = CHR ''.'' then advance s RL_FIRST_MINOR
          else if is_digit ch then
            (if http_major s > 9 then RLFail 400
             else advance (s\<lparr>http_major := http_major s * 10 + digit_int ch\<rparr>) RL_MAJOR)
          else RLFail 400
      | RL_FIRST_MINOR \<Rightarrow>
          if \<not> is_digit ch then RLFail 400
          else if ch \<noteq> CHR ''1'' then RLFail 505
          else advance (s\<lparr>http_minor := digit_int ch\<rparr>) RL_MINOR
      | RL_MINOR \<Rightarrow>
          if is_digit ch then
            (if http_minor s > 9 then RLFail 400
             else advance (s\<lparr>http_minor := http_minor s * 10 + digit_int ch\<rparr>) RL_MINOR)
          else if ch = CR then advance s RL_ALMOST_DONE
          else if ch = LF then finish s
          else if ch = CHR '' '' then advance s RL_SPACE_AFTER_VERSION
          else RLFail 400
      | RL_SPACE_AFTER_VERSION \<Rightarrow>
          if ch = CHR '' '' then advance s RL_SPACE_AFTER_VERSION
          else if ch = CR then advance s RL_ALMOST_DONE
          else if ch = LF then finish s
          else RLFail 400
      | RL_ALMOST_DONE \<Rightarrow> if ch = LF then finish s else RLFail 400)"

fun rl_run :: "rl_scan \<Rightarrow> string \<Rightarrow> rl_result" where
  "rl_run s [] = RLMore s"
| "rl_run s (ch # cs) = (case rl_step s ch of RLMore s' \<Rightarrow> rl_run s' cs | r \<Rightarrow> r)"

section \<open>Request target and request line\<close>

definition map_request :: "(http_request \<Rightarrow> http_request) \<Rightarrow> connection \<Rightarrow> connection" where
  "map_request f c = c\<lparr>request := f (request c)\<rparr>"

definition fail_request :: "int \<Rightarrow> connection \<Rightarrow> connection" where
  \<comment> \<open>\<open>req.parse_state = PSTATE_ERROR; req.error_code = code; return;\<close>\<close>
  "fail_request code c = map_request (\<lambda>r. r\<lparr>parse_state := PSTATE_ERROR, error_code := code\<rparr>) c"

definition origin_form :: "string \<Rightarrow> string" where
  \<comment> \<open>absolute form to origin form\<close>
  "origin_form raw_uri =
     (if starts_with raw_uri ''http://'' \<or> starts_with raw_uri ''https://'' then
        (case str_find ''://'' 0 raw_uri of
           Some scheme \<Rightarrow>
             (case str_find_char SLASH (scheme + 3) raw_uri of
                None \<Rightarrow> ''/''
              | Some path_start \<Rightarrow> drop path_start raw_uri)
         | None \<Rightarrow> raw_uri)
      else raw_uri)"

definition set_target :: "string \<Rightarrow> http_request \<Rightarrow> http_request" where
  "set_target raw_uri r =
     (let (p, q) =
        (case str_find_char (CHR ''?'') 0 raw_uri of
           Some qmark \<Rightarrow> (pctDecode (take qmark raw_uri), drop (qmark + 1) raw_uri)
         | None \<Rightarrow> (pctDecode raw_uri, []));
          p = (if p = [] then ''/'' else p)
      in r\<lparr>path := cleanPath p, query_string := q\<rparr>)"

definition allowed_request_methods :: "string list" where
  "allowed_request_methods = [''GET'', ''HEAD'', ''POST'', ''DELETE'']"

definition finish_request_line :: "os \<Rightarrow> string \<Rightarrow> rl_scan \<Rightarrow> connection \<Rightarrow> (failure \<times> connection) + connection" where
  "finish_request_line w data s c =
     (case (method_start s, method_end s, uri_start s) of
        (Some ms, Some me, Some us) \<Rightarrow>
          let ue = (case uri_end s of None \<Rightarrow> pos s | Some e \<Rightarrow> e) in
          if ue < us then Inr (fail_request 400 c)
          else if http_major s < 0 \<or> http_minor s < 0 then Inr (fail_request 400 c)
          else if \<not> (http_major s = 1 \<and> (http_minor s = 0 \<or> http_minor s = 1)) then Inr (fail_request 505 c)
          else let uri_len = ue - us in
          if uri_len > 8192 then Inr (fail_request 414 c)
          else let c = map_request (\<lambda>r. r\<lparr>req_method := substr data ms (me - ms)\<rparr>) c in
          if req_method (request c) \<notin> set allowed_request_methods then Inr (fail_request 501 c)
          else
            let c = map_request (\<lambda>r. r\<lparr>version := ''HTTP/'' @ [chr (48 + nat (http_major s))] @ ''.'' @ [chr (48 + nat (http_minor s))]\<rparr>) c;
                c = map_request (set_target (origin_form (substr data us uri_len))) c;
                c = (case os_stat w (c_str (validatePath c)) of
                       Inl EACCES \<Rightarrow> fail_request 403 c
                     | Inl _ \<Rightarrow> fail_request 404 c
                     | Inr _ \<Rightarrow> map_request (\<lambda>r. r\<lparr>parse_state := PSTATE_HEADERS\<rparr>) c)
            in rbind (with_state c (Buffer_consume (read_buffer c) (pos s)))
                 (\<lambda>rb. Inr (c\<lparr>read_buffer := rb\<rparr>))
      | _ \<Rightarrow> Inr (fail_request 400 c))"

definition parseRequestLine :: "os \<Rightarrow> connection \<Rightarrow> (failure \<times> connection) + connection" where
  "parseRequestLine w c =
     (if Buffer_size (read_buffer c) = 0 then Inr c
      else rbind (with_state c (Buffer_data (read_buffer c))) (\<lambda>data.
        case rl_run rl_init data of
          RLFail code \<Rightarrow> Inr (fail_request code c)
        | RLMore _ \<Rightarrow> Inr c
        | RLDone s \<Rightarrow> finish_request_line w data s c))"

section \<open>Percent decoding\<close>

lemma pctDecode_simps [simp]:
  "pctDecode [] = []"
  "c \<noteq> CHR ''%'' \<Longrightarrow> pctDecode (c # s) = c # pctDecode s"
proof -
  show "c \<noteq> CHR ''%'' \<Longrightarrow> pctDecode (c # s) = c # pctDecode s"
    by (cases s; cases "tl s") auto
qed simp

declare pctDecode.simps [simp del]
declare pctDecode_simps(1) [simp]

lemma hex_nibble_less: "is_xdigit h \<Longrightarrow> hex_nibble h < 16"
  by (auto simp: is_xdigit_def hex_nibble_def in_range_def ord_def to_lower_def chr_def)

lemma xdigit_not_slash: "is_xdigit h \<Longrightarrow> h \<noteq> SLASH"
  by (auto simp: is_xdigit_def in_range_def ord_def)

lemma pctDecode_slashes: "filter (\<lambda>c. c = SLASH) (pctDecode s) = filter (\<lambda>c. c = SLASH) s"
proof (induction s rule: pctDecode.induct)
  case (1 c h l s)
  show ?case
  proof (cases "c = CHR ''%'' \<and> is_xdigit h \<and> is_xdigit l")
    case True
    define val where "val = hex_nibble h * 16 + hex_nibble l"
    have "val < 256" using True hex_nibble_less [of h] hex_nibble_less [of l] by (simp add: val_def)
    then have "chr val = SLASH \<longleftrightarrow> val = ord SLASH" by (metis chr_ord ord_chr)
    with True "1.IH" show ?thesis
      by (auto simp: pctDecode.simps Let_def val_def xdigit_not_slash)
  next
    case False
    then have "pctDecode (c # h # l # s) = c # pctDecode (h # l # s)"
      by (subst pctDecode.simps) auto
    with "1.IH"(3) False show ?thesis by auto
  qed
qed (auto simp: pctDecode.simps)

definition pct_encode :: "char \<Rightarrow> string" where
  \<comment> \<open>the escape of RFC 3986, with the path separator left as it is\<close>
  "pct_encode c = (if c = SLASH then [c] else ''%'' @ [hex_digit (ord c div 16), hex_digit (ord c mod 16)])"

lemma hex_digit_xdigit: "d < 16 \<Longrightarrow> is_xdigit (hex_digit d)"
  by (auto simp: hex_digit_def is_xdigit_def in_range_def) (simp_all add: ord_def)

lemma hex_nibble_hex_digit [simp]: "d < 16 \<Longrightarrow> hex_nibble (hex_digit d) = d"
  by (auto simp: hex_digit_def hex_nibble_def in_range_def to_lower_def) (simp_all add: ord_def)

lemma pctDecode_encode_Cons: "pctDecode (pct_encode c @ s) = c # pctDecode s"
proof (cases "c = SLASH")
  case False
  define hi lo where "hi = ord c div 16" and "lo = ord c mod 16"
  have "hi < 16" "lo < 16" using ord_less [of c] unfolding hi_def lo_def by linarith+
  moreover have "hi * 16 + lo = ord c" by (simp add: hi_def lo_def)
  ultimately show ?thesis using False
    by (simp add: pct_encode_def pctDecode.simps Let_def hex_digit_xdigit flip: hi_def lo_def)
qed (simp add: pct_encode_def)

section \<open>Path cleaning\<close>

lemma cleanPath_loop_no_double:
  "(b \<longrightarrow> hd (cleanPath_loop s b @ [NUL]) \<noteq> SLASH)
   \<and> (\<nexists>u v. cleanPath_loop s b = u @ SLASH # SLASH # v)"
proof (induction s b rule: cleanPath_loop.induct)
  case (2 c s b)
  show ?case
  proof (cases "c = SLASH")
    case True
    with "2.IH"(1,2) show ?thesis
      by (auto simp: Cons_eq_append_conv hd_append split: if_splits)
  next
    case False
    with "2.IH"(3) show ?thesis by (auto simp: Cons_eq_append_conv)
  qed
qed simp

lemma cleanPath_loop_id:
  assumes "\<nexists>u v. s = u @ SLASH # SLASH # v" "b \<longrightarrow> hd (s @ [NUL]) \<noteq> SLASH"
  shows "cleanPath_loop s b = s"
  using assms
proof (induction s b rule: cleanPath_loop.induct)
  case (2 c s b)
  have no: "\<nexists>u v. s = u @ SLASH # SLASH # v"
    using "2.prems"(1) by (metis append_Cons)
  show ?case
  proof (cases "c = SLASH")
    case True
    moreover have "hd (s @ [NUL]) \<noteq> SLASH"
      using "2.prems"(1) [simplified, rule_format, of "[]" "tl s"] True by (cases s) auto
    ultimately show ?thesis using "2.IH"(1) "2.prems"(2) no by simp
  next
    case False
    with "2.IH"(3) no show ?thesis by simp
  qed
qed simp

lemma cleanPath_no_double: "\<nexists>u v. cleanPath p = u @ SLASH # SLASH # v"
proof
  assume "\<exists>u v. cleanPath p = u @ SLASH # SLASH # v"
  then obtain u v where "cleanPath p = u @ SLASH # SLASH # v" by blast
  moreover have "\<exists>t. cleanPath_loop p False = cleanPath p @ t"
    by (auto simp: cleanPath_def Let_def intro: exI [of _ "drop (length (cleanPath_loop p False) - 1) (cleanPath_loop p False)"])
  ultimately obtain t where "cleanPath_loop p False = u @ SLASH # SLASH # (v @ t)" by auto
  with cleanPath_loop_no_double [of False p] show False by blast
qed

lemma cleanPath_no_trailing: "length (cleanPath p) > 1 \<Longrightarrow> last (cleanPath p) \<noteq> SLASH"
proof
  define r where "r = cleanPath_loop p False"
  assume len: "length (cleanPath p) > 1" and last: "last (cleanPath p) = SLASH"
  show False
  proof (cases "length r > 1 \<and> r ! (length r - 1) = SLASH")
    case True
    then have cp: "cleanPath p = butlast r" and "r \<noteq> []" "last r = SLASH"
      by (auto simp: cleanPath_def r_def [symmetric] Let_def butlast_conv_take)
    then have "r = butlast (butlast r) @ [SLASH] @ [SLASH]"
      using len last by (metis append.assoc append_butlast_last_id length_0_conv less_zeroE list.size(3))
    then have "r = butlast (butlast r) @ SLASH # SLASH # []" by simp
    with cleanPath_loop_no_double [of False p] show False unfolding r_def by blast
  next
    case False
    then have "cleanPath p = r" by (auto simp: cleanPath_def r_def [symmetric] Let_def)
    with False len last show False by auto
  qed
qed

lemma cleanPath_idem: "cleanPath (cleanPath p) = cleanPath p"
proof -
  have "cleanPath_loop (cleanPath p) False = cleanPath p"
    using cleanPath_no_double by (intro cleanPath_loop_id) auto
  moreover have "\<not> (length (cleanPath p) > 1 \<and> cleanPath p ! (length (cleanPath p) - 1) = SLASH)"
    using cleanPath_no_trailing [of p] by (metis last_conv_nth length_0_conv less_zeroE)
  ultimately show ?thesis by (subst cleanPath_def) (auto simp: Let_def)
qed

lemma pctDecode_encode: "pctDecode (concat (map pct_encode s)) = s"
  by (induction s) (simp_all add: pctDecode_encode_Cons)

lemma cleanPath_loop_other: "filter (\<lambda>c. c \<noteq> SLASH) (cleanPath_loop s b) = filter (\<lambda>c. c \<noteq> SLASH) s"
  by (induction s b rule: cleanPath_loop.induct) auto

lemma cleanPath_other: "filter (\<lambda>c. c \<noteq> SLASH) (cleanPath s) = filter (\<lambda>c. c \<noteq> SLASH) s"
proof -
  define r where "r = cleanPath_loop s False"
  have "filter (\<lambda>c. c \<noteq> SLASH) (cleanPath s) = filter (\<lambda>c. c \<noteq> SLASH) r"
  proof (cases "length r > 1 \<and> r ! (length r - 1) = SLASH")
    case True
    then have "r \<noteq> []" "last r = SLASH" by auto
    then have "filter (\<lambda>c. c \<noteq> SLASH) (butlast r @ [last r]) = filter (\<lambda>c. c \<noteq> SLASH) (butlast r)"
      by simp
    then have "filter (\<lambda>c. c \<noteq> SLASH) r = filter (\<lambda>c. c \<noteq> SLASH) (butlast r)"
      using \<open>r \<noteq> []\<close> by (simp del: last_index)
    with True show ?thesis by (simp add: cleanPath_def r_def [symmetric] Let_def butlast_conv_take)
  qed (auto simp: cleanPath_def r_def [symmetric] Let_def)
  then show ?thesis by (simp add: r_def cleanPath_loop_other)
qed

section \<open>Properties\<close>

text \<open>
  Percent decoding never creates or removes a path separator (\<open>%2F\<close> stays
  encoded), so the segments of the decoded path are the decoded segments of the target;
  and it inverts the standard escape of any string.
\<close>

theorem pctDecode_separators_roundtrip:
  "filter (\<lambda>c. c = SLASH) (pctDecode s) = filter (\<lambda>c. c = SLASH) s
   \<and> pctDecode (concat (map pct_encode s)) = s"
  using pctDecode_slashes pctDecode_encode by blast

text \<open>
  \<open>cleanPath\<close> returns a canonical path: no double slash, no trailing slash
  unless the path is the root, every other byte kept in order, and a second run
  changes nothing.
\<close>

theorem cleanPath_canonical:
  "(\<nexists>u v. cleanPath p = u @ SLASH # SLASH # v) \<and> (\<nexists>u. u \<noteq> [] \<and> cleanPath p = u @ [SLASH])
   \<and> filter (\<lambda>c. c \<noteq> SLASH) (cleanPath p) = filter (\<lambda>c. c \<noteq> SLASH) p
   \<and> cleanPath (cleanPath p) = cleanPath p"
proof (intro conjI)
  show "\<nexists>u. u \<noteq> [] \<and> cleanPath p = u @ [SLASH]"
    using cleanPath_no_trailing [of p] by auto
qed (use cleanPath_no_double cleanPath_other cleanPath_idem in auto)

end
