(* ===== verification/Request_Grammar.thy ===== *)
theory Request_Grammar
  imports Request_Line
begin

text \<open>
  What the state machine of \<open>_parseRequestLine\<close> accepts: a grammar of request lines,
  the proof that the scanner accepts exactly its sentences, and the guarantees a
  request carries once its request line is parsed.
\<close>

section \<open>The scanner accepts exactly the request-line grammar\<close>

text \<open>
  A scanner state in which every byte of \<open>m\<close> is a self loop runs over \<open>m\<close> by moving
  the position only.
\<close>

lemma rl_run_loop:
  assumes "\<And>c p. c \<in> set m \<Longrightarrow> rl_step (s\<lparr>pos := p\<rparr>) c = RLMore (s\<lparr>pos := Suc p\<rparr>)"
  shows "rl_run s (m @ ys) = rl_run (s\<lparr>pos := pos s + length m\<rparr>) ys"
  using assms
proof (induction m arbitrary: s)
  case (Cons c m)
  from Cons.prems [of c "pos s"] have step: "rl_step s c = RLMore (s\<lparr>pos := Suc (pos s)\<rparr>)" by simp
  have "rl_run (s\<lparr>pos := Suc (pos s)\<rparr>) (m @ ys) = rl_run (s\<lparr>pos := Suc (pos s) + length m\<rparr>) ys"
    using Cons.IH [of "s\<lparr>pos := Suc (pos s)\<rparr>"] Cons.prems by simp
  with step show ?case by simp
qed simp

lemma rl_run_self:
  assumes "\<And>t c. rl_state t = rl_state s \<Longrightarrow> c \<in> set m \<Longrightarrow> rl_step t c = RLMore (t\<lparr>pos := Suc (pos t)\<rparr>)"
  shows "rl_run s (m @ ys) = rl_run (s\<lparr>pos := pos s + length m\<rparr>) ys"
  by (rule rl_run_loop) (simp add: assms)

lemma rl_run_split:
  assumes "\<forall>u c. rl_state u = st \<and> P c \<longrightarrow> rl_step u c = RLMore (u\<lparr>pos := Suc (pos u)\<rparr>)"
    and "rl_state s = st" "rl_run s xs = RLDone t"
  obtains m c ys where "xs = m @ c # ys" "\<forall>x \<in> set m. P x" "\<not> P c"
    "rl_run (s\<lparr>pos := pos s + length m\<rparr>) (c # ys) = RLDone t"
proof -
  define m where "m = takeWhile P xs"
  have xs: "xs = m @ dropWhile P xs" by (simp add: m_def)
  have all: "\<forall>x \<in> set m. P x" by (auto simp: m_def dest: set_takeWhileD)
  have "rl_run s (m @ dropWhile P xs) = rl_run (s\<lparr>pos := pos s + length m\<rparr>) (dropWhile P xs)"
    by (rule rl_run_self) (use all assms(1,2) in blast)
  then have run: "rl_run (s\<lparr>pos := pos s + length m\<rparr>) (dropWhile P xs) = RLDone t"
    using assms(3) xs by simp
  then obtain c ys where cy: "dropWhile P xs = c # ys" by (cases "dropWhile P xs") auto
  then have "\<not> P c" by (simp add: dropWhile_eq_Cons_conv)
  moreover have "xs = m @ c # ys" using xs cy by simp
  ultimately show thesis using all run cy that [of m c ys] by simp
qed

lemma advance_self: "rl_state s = st \<Longrightarrow> advance s st = RLMore (s\<lparr>pos := Suc (pos s)\<rparr>)"
  by (cases s) (simp add: advance_def)

lemma token_not_space: "is_token_char c \<Longrightarrow> c \<noteq> CHR '' '' \<and> c \<noteq> CR \<and> c \<noteq> LF"
  by (auto simp: is_token_char_def in_range_def ord_def)

definition uri_body_char :: "char \<Rightarrow> bool" where
  "uri_body_char c \<longleftrightarrow> is_uri_char c \<and> c \<noteq> CHR '' ''"

text \<open>The parts of a request line, with the version text \<open>HTTP/1.1\<close>.\<close>

definition line_parts :: "string \<Rightarrow> string \<Rightarrow> string \<Rightarrow> string \<Rightarrow> string \<Rightarrow> string \<Rightarrow> string \<Rightarrow> bool" where
  "line_parts lead m sp u sp2 sp3 eol \<longleftrightarrow>
     set lead \<subseteq> {CR, LF} \<and> m \<noteq> [] \<and> (\<forall>c \<in> set m. is_token_char c)
     \<and> sp \<noteq> [] \<and> set sp \<subseteq> {CHR '' ''} \<and> u \<noteq> [] \<and> (\<forall>c \<in> set u. uri_body_char c)
     \<and> sp2 \<noteq> [] \<and> set sp2 \<subseteq> {CHR '' ''} \<and> set sp3 \<subseteq> {CHR '' ''} \<and> eol \<in> {[LF], [CR, LF]}"

definition request_line :: "string \<Rightarrow> string \<Rightarrow> string \<Rightarrow> string \<Rightarrow> string \<Rightarrow> string \<Rightarrow> string \<Rightarrow> string" where
  "request_line lead m sp u sp2 sp3 eol = lead @ m @ sp @ u @ sp2 @ ''HTTP/1.1'' @ sp3 @ eol"

definition scan_of :: "string \<Rightarrow> string \<Rightarrow> string \<Rightarrow> string \<Rightarrow> nat \<Rightarrow> rl_scan \<Rightarrow> bool" where
  "scan_of lead m sp u n s \<longleftrightarrow>
     method_start s = Some (length lead) \<and> method_end s = Some (length lead + length m)
     \<and> uri_start s = Some (length lead + length m + length sp)
     \<and> uri_end s = Some (length lead + length m + length sp + length u)
     \<and> http_major s = 1 \<and> http_minor s = 1 \<and> pos s = n"

lemma uri_body_not_eol: "uri_body_char c \<Longrightarrow> is_uri_char c \<and> c \<noteq> CHR '' '' \<and> c \<noteq> CR \<and> c \<noteq> LF"
  by (auto simp: uri_body_char_def is_uri_char_def ord_def)

lemma rl_self_loop:
  "rl_state s = RL_START \<Longrightarrow> c = CR \<or> c = LF \<Longrightarrow> rl_step s c = RLMore (s\<lparr>pos := Suc (pos s)\<rparr>)"
  "rl_state s = RL_METHOD \<Longrightarrow> is_token_char c \<Longrightarrow> rl_step s c = RLMore (s\<lparr>pos := Suc (pos s)\<rparr>)"
  "rl_state s = RL_SPACE_BEFORE_URI \<Longrightarrow> c = CHR '' '' \<Longrightarrow> rl_step s c = RLMore (s\<lparr>pos := Suc (pos s)\<rparr>)"
  "rl_state s = RL_URI \<Longrightarrow> uri_body_char c \<Longrightarrow> rl_step s c = RLMore (s\<lparr>pos := Suc (pos s)\<rparr>)"
  "rl_state s = RL_HTTP1_1 \<Longrightarrow> c = CHR '' '' \<Longrightarrow> rl_step s c = RLMore (s\<lparr>pos := Suc (pos s)\<rparr>)"
  "rl_state s = RL_SPACE_AFTER_VERSION \<Longrightarrow> c = CHR '' '' \<Longrightarrow> rl_step s c = RLMore (s\<lparr>pos := Suc (pos s)\<rparr>)"
  by (auto simp: rl_step_def advance_self dest: token_not_space uri_body_not_eol)

lemma rl_self_loops:
  "\<forall>u c. rl_state u = RL_START \<and> (c = CR \<or> c = LF) \<longrightarrow> rl_step u c = RLMore (u\<lparr>pos := Suc (pos u)\<rparr>)"
  "\<forall>u c. rl_state u = RL_METHOD \<and> is_token_char c \<longrightarrow> rl_step u c = RLMore (u\<lparr>pos := Suc (pos u)\<rparr>)"
  "\<forall>u c. rl_state u = RL_SPACE_BEFORE_URI \<and> c = CHR '' '' \<longrightarrow> rl_step u c = RLMore (u\<lparr>pos := Suc (pos u)\<rparr>)"
  "\<forall>u c. rl_state u = RL_URI \<and> uri_body_char c \<longrightarrow> rl_step u c = RLMore (u\<lparr>pos := Suc (pos u)\<rparr>)"
  "\<forall>u c. rl_state u = RL_HTTP1_1 \<and> c = CHR '' '' \<longrightarrow> rl_step u c = RLMore (u\<lparr>pos := Suc (pos u)\<rparr>)"
  "\<forall>u c. rl_state u = RL_SPACE_AFTER_VERSION \<and> c = CHR '' '' \<longrightarrow> rl_step u c = RLMore (u\<lparr>pos := Suc (pos u)\<rparr>)"
  by (blast intro: rl_self_loop)+

lemma rl_loops:
  "rl_state s = RL_START \<Longrightarrow> set m \<subseteq> {CR, LF} \<Longrightarrow> rl_run s (m @ ys) = rl_run (s\<lparr>pos := pos s + length m\<rparr>) ys"
  "rl_state s = RL_METHOD \<Longrightarrow> \<forall>c \<in> set m. is_token_char c \<Longrightarrow> rl_run s (m @ ys) = rl_run (s\<lparr>pos := pos s + length m\<rparr>) ys"
  "rl_state s = RL_SPACE_BEFORE_URI \<Longrightarrow> set m \<subseteq> {CHR '' ''} \<Longrightarrow> rl_run s (m @ ys) = rl_run (s\<lparr>pos := pos s + length m\<rparr>) ys"
  "rl_state s = RL_URI \<Longrightarrow> \<forall>c \<in> set m. uri_body_char c \<Longrightarrow> rl_run s (m @ ys) = rl_run (s\<lparr>pos := pos s + length m\<rparr>) ys"
  "rl_state s = RL_HTTP1_1 \<Longrightarrow> set m \<subseteq> {CHR '' ''} \<Longrightarrow> rl_run s (m @ ys) = rl_run (s\<lparr>pos := pos s + length m\<rparr>) ys"
  "rl_state s = RL_SPACE_AFTER_VERSION \<Longrightarrow> set m \<subseteq> {CHR '' ''} \<Longrightarrow> rl_run s (m @ ys) = rl_run (s\<lparr>pos := pos s + length m\<rparr>) ys"
  subgoal by (rule rl_run_self) (auto intro: rl_self_loop(1))
  subgoal by (rule rl_run_self) (auto intro: rl_self_loop(2))
  subgoal by (rule rl_run_self) (auto intro: rl_self_loop(3))
  subgoal by (rule rl_run_self) (auto intro: rl_self_loop(4))
  subgoal by (rule rl_run_self) (auto intro: rl_self_loop(5))
  subgoal by (rule rl_run_self) (auto intro: rl_self_loop(6))
  done

lemma version_chars [simp]:
  "is_digit (CHR ''1'')" "\<not> is_digit (CHR ''.'')" "\<not> is_digit CR" "\<not> is_digit LF" "\<not> is_digit (CHR '' '')"
  "digit_int (CHR ''1'') = 1"
  by (simp_all add: in_range_def ord_def digit_int_def)

lemma rl_run_complete:
  assumes "line_parts lead m sp u sp2 sp3 eol"
  shows "\<exists>s. rl_run rl_init (request_line lead m sp u sp2 sp3 eol @ rest) = RLDone s
    \<and> scan_of lead m sp u (length (request_line lead m sp u sp2 sp3 eol)) s"
proof -
  note parts = assms [unfolded line_parts_def]
  obtain m0 m1 where m: "m = m0 # m1" using parts by (cases m) auto
  obtain sp0 where sp: "sp = CHR '' '' # sp0" "set sp0 \<subseteq> {CHR '' ''}" using parts by (cases sp) auto
  obtain u0 u1 where u: "u = u0 # u1" using parts by (cases u) auto
  obtain sq where sq: "sp2 = CHR '' '' # sq" "set sq \<subseteq> {CHR '' ''}" using parts by (cases sp2) auto
  have tail: "\<exists>t. rl_run s (sp3 @ eol @ ys) = RLDone t \<and> pos t = pos s + length sp3 + length eol
      \<and> method_start t = method_start s \<and> method_end t = method_end s \<and> uri_start t = uri_start s
      \<and> uri_end t = uri_end s \<and> http_major t = http_major s \<and> http_minor t = http_minor s"
    if "rl_state s = RL_MINOR" for s ys
  proof (cases sp3)
    case Nil
    with parts that show ?thesis by (auto simp: rl_step_def advance_def finish_def)
  next
    case (Cons a sr)
    with parts have a: "a = CHR '' ''" "set sr \<subseteq> {CHR '' ''}" by auto
    with parts that Cons show ?thesis by (auto simp: rl_step_def advance_def finish_def rl_loops)
  qed
  have "is_token_char m0" "uri_body_char u0" using parts m u by auto
  then have heads: "m0 \<noteq> CR" "m0 \<noteq> LF" "is_token_char m0" "u0 \<noteq> CHR '' ''" "is_uri_char u0"
    by (auto dest: token_not_space uri_body_not_eol)
  let ?s = "rl_init\<lparr>rl_state := RL_MINOR, http_major := 1, http_minor := 1,
     method_start := Some (length lead), method_end := Some (length lead + length m),
     uri_start := Some (length lead + length m + length sp),
     uri_end := Some (length lead + length m + length sp + length u),
     pos := length lead + length m + length sp + length u + length sp2 + 8\<rparr>"
  have "rl_run rl_init (request_line lead m sp u sp2 sp3 eol @ rest) = rl_run ?s (sp3 @ eol @ rest)"
    using heads parts sp sq
    by (simp add: request_line_def rl_loops m u rl_step_def advance_def rl_init_def numeral_eq_Suc)
  with tail [of ?s rest] show ?thesis by (auto simp: scan_of_def request_line_def)
qed

text \<open>
  Conversely, a run that ends in \<open>RLDone\<close> goes through the states in order; each
  lemma peels off the bytes one state consumes.
\<close>

definition at :: "rl_scan \<Rightarrow> RLState \<Rightarrow> nat \<Rightarrow> rl_scan" where
  \<comment> \<open>the scanner \<open>n\<close> bytes further, in state \<open>st\<close>\<close>
  "at s st n = s\<lparr>rl_state := st, pos := pos s + n\<rparr>"

lemma rl_done_start:
  assumes "rl_state s = RL_START" "rl_run s xs = RLDone t"
  shows "\<exists>lead m0 ys. xs = lead @ m0 # ys \<and> set lead \<subseteq> {CR, LF} \<and> is_token_char m0
    \<and> rl_run (at (s\<lparr>method_start := Some (pos s + length lead)\<rparr>) RL_METHOD (length lead + 1)) ys = RLDone t"
proof -
  obtain m c ys where *: "xs = m @ c # ys" "\<forall>x \<in> set m. x = CR \<or> x = LF" "\<not> (c = CR \<or> c = LF)"
    "rl_run (s\<lparr>pos := pos s + length m\<rparr>) (c # ys) = RLDone t"
    by (rule rl_run_split [OF rl_self_loops(1) assms])
  then have "is_token_char c"
    "rl_run (at (s\<lparr>method_start := Some (pos s + length m)\<rparr>) RL_METHOD (length m + 1)) ys = RLDone t"
    using assms(1) by (auto simp: rl_step_def advance_def at_def split: if_splits)
  moreover have "set m \<subseteq> {CR, LF}" using *(2) by blast
  ultimately show ?thesis using *(1) by blast
qed

lemma rl_done_method:
  assumes "rl_state s = RL_METHOD" "rl_run s xs = RLDone t"
  shows "\<exists>m ys. xs = m @ CHR '' '' # ys \<and> (\<forall>c \<in> set m. is_token_char c)
    \<and> rl_run (at (s\<lparr>method_end := Some (pos s + length m)\<rparr>) RL_SPACE_BEFORE_URI (length m + 1)) ys = RLDone t"
proof -
  obtain m c ys where *: "xs = m @ c # ys" "\<forall>x \<in> set m. is_token_char x" "\<not> is_token_char c"
    "rl_run (s\<lparr>pos := pos s + length m\<rparr>) (c # ys) = RLDone t"
    by (rule rl_run_split [OF rl_self_loops(2) assms])
  then have "c = CHR '' ''"
    "rl_run (at (s\<lparr>method_end := Some (pos s + length m)\<rparr>) RL_SPACE_BEFORE_URI (length m + 1)) ys = RLDone t"
    using assms(1) by (auto simp: rl_step_def advance_def at_def split: if_splits)
  with * show ?thesis by blast
qed

lemma rl_done_space:
  assumes "rl_state s = RL_SPACE_BEFORE_URI" "rl_run s xs = RLDone t"
  shows "\<exists>m u0 ys. xs = m @ u0 # ys \<and> set m \<subseteq> {CHR '' ''} \<and> uri_body_char u0
    \<and> rl_run (at (s\<lparr>uri_start := Some (pos s + length m)\<rparr>) RL_URI (length m + 1)) ys = RLDone t"
proof -
  obtain m c ys where *: "xs = m @ c # ys" "\<forall>x \<in> set m. x = CHR '' ''" "c \<noteq> CHR '' ''"
    "rl_run (s\<lparr>pos := pos s + length m\<rparr>) (c # ys) = RLDone t"
    by (rule rl_run_split [OF rl_self_loops(3) assms])
  then have "uri_body_char c"
    "rl_run (at (s\<lparr>uri_start := Some (pos s + length m)\<rparr>) RL_URI (length m + 1)) ys = RLDone t"
    using assms(1) by (auto simp: rl_step_def advance_def at_def uri_body_char_def split: if_splits)
  moreover have "set m \<subseteq> {CHR '' ''}" using *(2) by blast
  ultimately show ?thesis using *(1) by blast
qed

lemma rl_uri_exit:
  "rl_state s = RL_URI \<Longrightarrow> \<not> uri_body_char c \<Longrightarrow> rl_run s (c # ys) = RLDone t \<Longrightarrow>
   c = CHR '' '' \<and> rl_run (at (s\<lparr>uri_end := Some (pos s)\<rparr>) RL_HTTP1_1 1) ys = RLDone t"
  by (cases "c = CHR '' ''") (simp_all add: rl_step_def advance_def at_def uri_body_char_def split: if_splits)

lemma rl_done_uri:
  assumes "rl_state s = RL_URI" "rl_run s xs = RLDone t"
  shows "\<exists>m ys. xs = m @ CHR '' '' # ys \<and> (\<forall>c \<in> set m. uri_body_char c)
    \<and> rl_run (at (s\<lparr>uri_end := Some (pos s + length m)\<rparr>) RL_HTTP1_1 (length m + 1)) ys = RLDone t"
proof -
  obtain m c ys where *: "xs = m @ c # ys" "\<forall>x \<in> set m. uri_body_char x" "\<not> uri_body_char c"
    "rl_run (s\<lparr>pos := pos s + length m\<rparr>) (c # ys) = RLDone t"
    by (rule rl_run_split [OF rl_self_loops(4) assms])
  from rl_uri_exit [OF _ *(3,4)] assms(1) have "c = CHR '' ''"
    "rl_run (at (s\<lparr>uri_end := Some (pos s + length m)\<rparr>) RL_HTTP1_1 (length m + 1)) ys = RLDone t"
    by (simp_all add: at_def)
  with * show ?thesis by blast
qed

text \<open>States that expect one fixed byte.\<close>

definition rl_fixed :: "(RLState \<times> char \<times> RLState) list" where
  "rl_fixed =
     [(RL_HTTP_H, CHR ''T'', RL_HTTP_HT), (RL_HTTP_HT, CHR ''T'', RL_HTTP_HTT),
      (RL_HTTP_HTT, CHR ''P'', RL_HTTP_HTTP), (RL_HTTP_HTTP, SLASH, RL_FIRST_MAJOR)]"

lemma rl_done_fixed:
  assumes "(st, ch, nx) \<in> set rl_fixed" "rl_state s = st" "rl_run s xs = RLDone t"
  shows "\<exists>ys. xs = ch # ys \<and> rl_run (at s nx 1) ys = RLDone t"
proof (cases xs)
  case (Cons c ys)
  with assms show ?thesis
    by (cases "c = ch") (auto simp: rl_fixed_def rl_step_def advance_def at_def)
qed (use assms in simp)

lemma at_at [simp]: "at (at s a n) b k = at s b (n + k)"
  by (simp add: at_def)

lemma at_sel [simp]:
  "rl_state (at s a n) = a" "http_major (at s a n) = http_major s" "http_minor (at s a n) = http_minor s"
  "pos (at s a n) = pos s + n" "method_start (at s a n) = method_start s"
  "method_end (at s a n) = method_end s" "uri_start (at s a n) = uri_start s"
  "uri_end (at s a n) = uri_end s"
  by (simp_all add: at_def)

lemma rl_done_http:
  assumes "rl_state s = RL_HTTP1_1" "rl_run s xs = RLDone t"
  shows "\<exists>m ys. xs = m @ ''HTTP/1'' @ ys \<and> set m \<subseteq> {CHR '' ''}
    \<and> rl_run (at (s\<lparr>http_major := 1\<rparr>) RL_MAJOR (length m + 6)) ys = RLDone t"
proof -
  obtain m c y0 where *: "xs = m @ c # y0" "\<forall>x \<in> set m. x = CHR '' ''" "c \<noteq> CHR '' ''"
    "rl_run (s\<lparr>pos := pos s + length m\<rparr>) (c # y0) = RLDone t"
    by (rule rl_run_split [OF rl_self_loops(5) assms])
  have c: "c = CHR ''H''" "rl_run (at s RL_HTTP_H (length m + 1)) y0 = RLDone t"
    using *(3,4) assms(1) by (auto simp: rl_step_def advance_def at_def split: if_splits)
  obtain y1 where 1: "y0 = CHR ''T'' # y1" "rl_run (at s RL_HTTP_HT (length m + 2)) y1 = RLDone t"
    using rl_done_fixed [OF _ _ c(2), of RL_HTTP_H] by (auto simp: rl_fixed_def eval_nat_numeral)
  obtain y2 where 2: "y1 = CHR ''T'' # y2" "rl_run (at s RL_HTTP_HTT (length m + 3)) y2 = RLDone t"
    using rl_done_fixed [OF _ _ 1(2), of RL_HTTP_HT] by (auto simp: rl_fixed_def eval_nat_numeral)
  obtain y3 where 3: "y2 = CHR ''P'' # y3" "rl_run (at s RL_HTTP_HTTP (length m + 4)) y3 = RLDone t"
    using rl_done_fixed [OF _ _ 2(2), of RL_HTTP_HTT] by (auto simp: rl_fixed_def eval_nat_numeral)
  obtain y4 where 4: "y3 = SLASH # y4" "rl_run (at s RL_FIRST_MAJOR (length m + 5)) y4 = RLDone t"
    using rl_done_fixed [OF _ _ 3(2), of RL_HTTP_HTTP] by (auto simp: rl_fixed_def eval_nat_numeral)
  obtain d y5 where 5: "y4 = d # y5" using 4(2) by (cases y4) auto
  have d: "d = CHR ''1''" "rl_run (at (s\<lparr>http_major := 1\<rparr>) RL_MAJOR (length m + 6)) y5 = RLDone t"
    using 4(2) 5 by (auto simp: rl_step_def advance_def at_def algebra_simps split: if_splits)
  have "xs = m @ ''HTTP/1'' @ y5" using *(1) c(1) 1(1) 2(1) 3(1) 4(1) 5 d(1) by simp
  moreover have "set m \<subseteq> {CHR '' ''}" using *(2) by blast
  ultimately show ?thesis using d(2) by blast
qed

lemma digit_int_nonneg: "is_digit c \<Longrightarrow> 0 \<le> digit_int c"
  by (simp add: in_range_def digit_int_def ord_def)

text \<open>A version number of two digits is never reset.\<close>

definition late_major :: "rl_scan \<Rightarrow> bool" where
  "late_major s \<longleftrightarrow> 10 \<le> http_major s \<and>
     rl_state s \<in> {RL_MAJOR, RL_FIRST_MINOR, RL_MINOR, RL_SPACE_AFTER_VERSION, RL_ALMOST_DONE}"

definition late_minor :: "rl_scan \<Rightarrow> bool" where
  "late_minor s \<longleftrightarrow> 10 \<le> http_minor s \<and>
     rl_state s \<in> {RL_MINOR, RL_SPACE_AFTER_VERSION, RL_ALMOST_DONE}"

lemma late_major_step:
  "late_major s \<Longrightarrow> case rl_step s c of RLMore s' \<Rightarrow> late_major s' | RLDone t \<Rightarrow> 10 \<le> http_major t | _ \<Rightarrow> True"
  by (cases "rl_state s") (simp_all add: late_major_def rl_step_def advance_def finish_def)

lemma late_minor_step:
  "late_minor s \<Longrightarrow> case rl_step s c of RLMore s' \<Rightarrow> late_minor s' | RLDone t \<Rightarrow> 10 \<le> http_minor t | _ \<Rightarrow> True"
  by (cases "rl_state s") (simp_all add: late_minor_def rl_step_def advance_def finish_def)

lemma rl_done_major_large: "rl_run s xs = RLDone t \<Longrightarrow> late_major s \<Longrightarrow> 10 \<le> http_major t"
proof (induction xs arbitrary: s)
  case (Cons c cs)
  with late_major_step [of s c] show ?case by (cases "rl_step s c") auto
qed simp

lemma rl_done_minor_large: "rl_run s xs = RLDone t \<Longrightarrow> late_minor s \<Longrightarrow> 10 \<le> http_minor t"
proof (induction xs arbitrary: s)
  case (Cons c cs)
  with late_minor_step [of s c] show ?case by (cases "rl_step s c") auto
qed simp

lemma rl_done_major:
  assumes "rl_state s = RL_MAJOR" "http_major s = 1" "rl_run s xs = RLDone t" "http_major t = 1"
    "http_minor t \<in> {0, 1}"
  shows "\<exists>ys. xs = ''.1'' @ ys \<and> rl_run (at (s\<lparr>http_minor := 1\<rparr>) RL_MINOR 2) ys = RLDone t"
proof -
  obtain c ys where xs: "xs = c # ys" using assms(3) by (cases xs) auto
  have "c = CHR ''.''"
  proof (rule ccontr)
    assume "c \<noteq> CHR ''.''"
    with assms xs have d: "is_digit c" "rl_run (at (s\<lparr>http_major := 10 + digit_int c\<rparr>) RL_MAJOR 1) ys = RLDone t"
      by (auto simp: rl_step_def advance_def at_def split: if_splits)
    then have "10 \<le> http_major t"
      using digit_int_nonneg [of c] by (intro rl_done_major_large [OF d(2)]) (auto simp: late_major_def)
    with assms(4) show False by simp
  qed
  with assms xs have run: "rl_run (at s RL_FIRST_MINOR 1) ys = RLDone t"
    by (auto simp: rl_step_def advance_def at_def split: if_splits)
  then obtain d zs where ys: "ys = d # zs" by (cases ys) auto
  with run have "d = CHR ''1''" "rl_run (at (s\<lparr>http_minor := 1\<rparr>) RL_MINOR 2) zs = RLDone t"
    by (auto simp: rl_step_def advance_def at_def split: if_splits)
  with xs ys \<open>c = CHR ''.''\<close> show ?thesis by auto
qed

lemma rl_done_almost:
  "rl_state s = RL_ALMOST_DONE \<Longrightarrow> rl_run s xs = RLDone t \<Longrightarrow>
     \<exists>ys. xs = LF # ys \<and> t = s\<lparr>pos := Suc (pos s)\<rparr>"
  by (cases xs) (auto simp: rl_step_def finish_def split: if_splits)

lemma version_tailI:
  "xs = m @ eol @ ys \<Longrightarrow> set m \<subseteq> {CHR '' ''} \<Longrightarrow> eol = [LF] \<or> eol = [CR, LF] \<Longrightarrow>
   t = at s st (length m + length eol) \<Longrightarrow>
   \<exists>m eol ys st. xs = m @ eol @ ys \<and> set m \<subseteq> {CHR '' ''} \<and> eol \<in> {[LF], [CR, LF]}
    \<and> t = at s st (length m + length eol)"
  by blast

lemma rl_done_spaces:
  assumes "rl_state s = RL_SPACE_AFTER_VERSION" "rl_run s xs = RLDone t"
  shows "\<exists>m eol ys st. xs = m @ eol @ ys \<and> set m \<subseteq> {CHR '' ''} \<and> eol \<in> {[LF], [CR, LF]}
    \<and> t = at s st (length m + length eol)"
proof -
  obtain m c ys where *: "xs = m @ c # ys" "\<forall>x \<in> set m. x = CHR '' ''" "c \<noteq> CHR '' ''"
    "rl_run (s\<lparr>pos := pos s + length m\<rparr>) (c # ys) = RLDone t"
    by (rule rl_run_split [OF rl_self_loops(6) assms])
  consider "c = LF" | "c = CR"
    using *(3,4) assms(1) by (auto simp: rl_step_def split: if_splits)
  then show ?thesis
  proof cases
    case 1
    with *(1,3,4) assms(1) have "t = at s RL_SPACE_AFTER_VERSION (length m + 1)"
      by (cases s) (auto simp: rl_step_def finish_def at_def)
    moreover have "xs = m @ [LF] @ ys" using *(1) 1 by simp
    moreover have "set m \<subseteq> {CHR '' ''}" using *(2) by blast
    ultimately show ?thesis by (intro version_tailI [of _ m "[LF]"]) auto
  next
    case 2
    with *(1,3,4) assms(1) have "rl_run (at s RL_ALMOST_DONE (length m + 1)) ys = RLDone t"
      by (auto simp: rl_step_def advance_def at_def)
    from rl_done_almost [OF _ this] obtain zs where "ys = LF # zs" "t = at s RL_ALMOST_DONE (length m + 2)"
      by (auto simp: at_def)
    moreover have "xs = m @ [CR, LF] @ zs" using *(1) 2 calculation by simp
    moreover have "set m \<subseteq> {CHR '' ''}" using *(2) by blast
    ultimately show ?thesis by (intro version_tailI [of _ m "[CR, LF]"]) (auto simp: numeral_2_eq_2)
  qed
qed

lemma rl_done_minor:
  assumes "rl_state s = RL_MINOR" "http_minor s = 1" "rl_run s xs = RLDone t" "http_minor t \<in> {0, 1}"
  shows "\<exists>m eol ys st. xs = m @ eol @ ys \<and> set m \<subseteq> {CHR '' ''} \<and> eol \<in> {[LF], [CR, LF]}
    \<and> t = at s st (length m + length eol)"
proof -
  obtain c ys where xs: "xs = c # ys" using assms(3) by (cases xs) auto
  have "\<not> is_digit c"
  proof
    assume d: "is_digit c"
    with assms xs have run: "rl_run (at (s\<lparr>http_minor := 10 + digit_int c\<rparr>) RL_MINOR 1) ys = RLDone t"
      by (auto simp: rl_step_def advance_def at_def split: if_splits)
    have "10 \<le> http_minor t"
      using digit_int_nonneg [OF d] by (intro rl_done_minor_large [OF run]) (auto simp: late_minor_def)
    with assms(4) show False by auto
  qed
  with assms xs consider "c = CR" | "c = LF" | "c = CHR '' ''"
    by (auto simp: rl_step_def split: if_splits)
  then show ?thesis
  proof cases
    case 1
    with assms xs have "rl_run (at s RL_ALMOST_DONE 1) ys = RLDone t"
      by (auto simp: rl_step_def advance_def at_def)
    from rl_done_almost [OF _ this] obtain zs where "ys = LF # zs" "t = at s RL_ALMOST_DONE 2"
      by (auto simp: at_def)
    moreover have "xs = [] @ [CR, LF] @ zs" using 1 xs calculation by simp
    ultimately show ?thesis by (intro version_tailI [of _ "[]" "[CR, LF]"]) (auto simp: numeral_2_eq_2)
  next
    case 2
    with assms xs have "t = at s RL_MINOR 1"
      by (cases s) (auto simp: rl_step_def finish_def at_def)
    moreover have "xs = [] @ [LF] @ ys" using 2 xs by simp
    ultimately show ?thesis by (intro version_tailI [of _ "[]" "[LF]"]) auto
  next
    case 3
    with assms xs have "rl_run (at s RL_SPACE_AFTER_VERSION 1) ys = RLDone t"
      by (auto simp: rl_step_def advance_def at_def)
    from rl_done_spaces [OF _ this] obtain m eol zs st where
      "ys = m @ eol @ zs" "set m \<subseteq> {CHR '' ''}" "eol \<in> {[LF], [CR, LF]}"
      "t = at s st (Suc (length m) + length eol)" by (auto simp: at_def)
    moreover have "xs = (CHR '' '' # m) @ eol @ zs" using 3 xs calculation by simp
    ultimately show ?thesis by (intro version_tailI [of _ "CHR '' '' # m" eol]) auto
  qed
qed

lemma rl_run_sound:
  assumes run: "rl_run rl_init data = RLDone t"
    and v: "http_major t = 1" "http_minor t \<in> {0, 1}"
  obtains lead m sp u sp2 sp3 eol rest where "line_parts lead m sp u sp2 sp3 eol"
    "data = request_line lead m sp u sp2 sp3 eol @ rest"
    "scan_of lead m sp u (length (request_line lead m sp u sp2 sp3 eol)) t"
proof -
  let ?s0 = "rl_init\<lparr>method_start := Some 0\<rparr>"
  obtain lead m0 d1 where 1: "data = lead @ m0 # d1" "set lead \<subseteq> {CR, LF}" "is_token_char m0"
    "rl_run (at (rl_init\<lparr>method_start := Some (length lead)\<rparr>) RL_METHOD (length lead + 1)) d1 = RLDone t"
    using rl_done_start [OF _ run] by (auto simp: rl_init_def)
  let ?s1 = "at (rl_init\<lparr>method_start := Some (length lead)\<rparr>) RL_METHOD (length lead + 1)"
  obtain m d2 where 2: "d1 = m @ CHR '' '' # d2" "\<forall>c \<in> set m. is_token_char c"
    "rl_run (at (?s1\<lparr>method_end := Some (length lead + 1 + length m)\<rparr>) RL_SPACE_BEFORE_URI (length m + 1)) d2 = RLDone t"
    using rl_done_method [OF _ 1(4)] by (auto simp: rl_init_def)
  let ?s2 = "at (?s1\<lparr>method_end := Some (length lead + 1 + length m)\<rparr>) RL_SPACE_BEFORE_URI (length m + 1)"
  obtain sp u0 d3 where 3: "d2 = sp @ u0 # d3" "set sp \<subseteq> {CHR '' ''}" "uri_body_char u0"
    "rl_run (at (?s2\<lparr>uri_start := Some (pos ?s2 + length sp)\<rparr>) RL_URI (length sp + 1)) d3 = RLDone t"
    using rl_done_space [OF _ 2(3)] by (metis at_sel(1))
  let ?s3 = "at (?s2\<lparr>uri_start := Some (pos ?s2 + length sp)\<rparr>) RL_URI (length sp + 1)"
  obtain u d4 where 4: "d3 = u @ CHR '' '' # d4" "\<forall>c \<in> set u. uri_body_char c"
    "rl_run (at (?s3\<lparr>uri_end := Some (pos ?s3 + length u)\<rparr>) RL_HTTP1_1 (length u + 1)) d4 = RLDone t"
    using rl_done_uri [OF _ 3(4)] by (metis at_sel(1))
  let ?s4 = "at (?s3\<lparr>uri_end := Some (pos ?s3 + length u)\<rparr>) RL_HTTP1_1 (length u + 1)"
  obtain sq d5 where 5: "d4 = sq @ ''HTTP/1'' @ d5" "set sq \<subseteq> {CHR '' ''}"
    "rl_run (at (?s4\<lparr>http_major := 1\<rparr>) RL_MAJOR (length sq + 6)) d5 = RLDone t"
    using rl_done_http [OF _ 4(3)] by (metis at_sel(1))
  let ?s5 = "at (?s4\<lparr>http_major := 1\<rparr>) RL_MAJOR (length sq + 6)"
  obtain d6 where 6: "d5 = ''.1'' @ d6" "rl_run (at (?s5\<lparr>http_minor := 1\<rparr>) RL_MINOR 2) d6 = RLDone t"
    using rl_done_major [OF _ _ 5(3) v] by (auto simp: at_def)
  let ?s6 = "at (?s5\<lparr>http_minor := 1\<rparr>) RL_MINOR 2"
  obtain sp3 eol rest st where 7: "d6 = sp3 @ eol @ rest" "set sp3 \<subseteq> {CHR '' ''}" "eol \<in> {[LF], [CR, LF]}"
    "t = at ?s6 st (length sp3 + length eol)"
    using rl_done_minor [OF _ _ 6(2) v(2)] by (auto simp: at_def)
  have "line_parts lead (m0 # m) (CHR '' '' # sp) (u0 # u) (CHR '' '' # sq) sp3 eol"
    using 1(2,3) 2(2) 3(2,3) 4(2) 5(2) 7(2,3) by (simp add: line_parts_def)
  moreover have "data = request_line lead (m0 # m) (CHR '' '' # sp) (u0 # u) (CHR '' '' # sq) sp3 eol @ rest"
    using 1(1) 2(1) 3(1) 4(1) 5(1) 6(1) 7(1) by (simp add: request_line_def)
  moreover have "scan_of lead (m0 # m) (CHR '' '' # sp) (u0 # u)
     (length (request_line lead (m0 # m) (CHR '' '' # sp) (u0 # u) (CHR '' '' # sq) sp3 eol)) t"
    by (simp add: 7(4) scan_of_def request_line_def at_def rl_init_def)
  ultimately show thesis by (rule that)
qed

section \<open>The verdict on a request line\<close>

definition with_line :: "string \<Rightarrow> string \<Rightarrow> connection \<Rightarrow> connection" where
  \<comment> \<open>specification: the request after its method and target are stored\<close>
  "with_line m u c =
     map_request (\<lambda>r. set_target (origin_form u) (r\<lparr>req_method := m, version := ''HTTP/1.1''\<rparr>)) c"

definition stat_target :: "os \<Rightarrow> connection \<Rightarrow> connection" where
  \<comment> \<open>specification: the outcome of looking the target up\<close>
  "stat_target w c =
     (case os_stat w (c_str (validatePath c)) of
        Inl EACCES \<Rightarrow> fail_request 403 c
      | Inl _ \<Rightarrow> fail_request 404 c
      | Inr _ \<Rightarrow> map_request (\<lambda>r. r\<lparr>parse_state := PSTATE_HEADERS\<rparr>) c)"

lemma rl_run_append:
  "rl_run s xs = RLDone t \<Longrightarrow> rl_run s (xs @ ys) = RLDone t"
  "rl_run s xs = RLFail code \<Longrightarrow> rl_run s (xs @ ys) = RLFail code"
  "rl_run s xs = RLMore t \<Longrightarrow> rl_run s (xs @ ys) = rl_run t ys"
  by (induction xs arbitrary: s) (auto split: rl_result.splits)

lemma version_text: "''HTTP/'' @ [chr (48 + nat 1)] @ ''.'' @ [chr (48 + nat 1)] = ''HTTP/1.1''"
  using chr_ord [of "CHR ''1''"] by (simp add: ord_def)

lemma finish_request_line_eval:
  assumes "buf_ok (read_buffer c)" "scan_of lead m sp u n s" "data = lead @ m @ sp @ u @ after"
    "length u \<le> 8192" "m \<in> set allowed_request_methods"
  shows "\<exists>rb. finish_request_line w data s c = Inr ((stat_target w (with_line m u c))\<lparr>read_buffer := rb\<rparr>)
    \<and> content rb = drop n (content (read_buffer c)) \<and> buf_ok rb \<and> cmbs rb = cmbs (read_buffer c)"
proof -
  have rb: "read_buffer (stat_target w (with_line m u c)) = read_buffer c"
    by (simp add: stat_target_def with_line_def map_request_def fail_request_def
        split: sum.split errno.split)
  obtain rb where "Buffer_consume (read_buffer c) n = Inr rb"
    "content rb = drop n (content (read_buffer c))" "buf_ok rb" "cmbs rb = cmbs (read_buffer c)"
    using assms(1) by (rule consume_ok)
  moreover have "substr data (length lead) (length m) = m"
    "substr data (length lead + length m + length sp) (length u) = u"
    using assms(3) by (simp_all add: substr_def)
  ultimately have "finish_request_line w data s c = Inr ((stat_target w (with_line m u c))\<lparr>read_buffer := rb\<rparr>)"
    using assms(2,4,5) rb version_text
    by (simp add: finish_request_line_def scan_of_def Let_def map_request_def with_line_def
        flip: stat_target_def)
  then show ?thesis
    using \<open>content rb = _\<close> \<open>buf_ok rb\<close> \<open>cmbs rb = _\<close> by blast
qed

lemma finish_request_line_errors:
  assumes "scan_of lead m sp u n s" "data = lead @ m @ sp @ u @ after"
  shows "length u > 8192 \<Longrightarrow> finish_request_line w data s c = Inr (fail_request 414 c)"
    and "length u \<le> 8192 \<Longrightarrow> m \<notin> set allowed_request_methods \<Longrightarrow>
      finish_request_line w data s c = Inr (fail_request 501 (map_request (\<lambda>r. r\<lparr>req_method := m\<rparr>) c))"
  using assms by (simp_all add: finish_request_line_def scan_of_def Let_def map_request_def substr_def)

text \<open>
  C6: A buffer that starts with a request line of the grammar, of at most 8192 bytes
  of target and with a known method, is accepted: method, version and decoded target
  are stored, the target is looked up (403/404 on failure) and exactly the line is
  consumed.  Longer targets give 414 and unknown methods 501.
\<close>

theorem request_line_complete:
  assumes "buf_ok (read_buffer c)" "content (read_buffer c) = request_line lead m sp u sp2 sp3 eol @ rest"
    and "line_parts lead m sp u sp2 sp3 eol"
  shows "if length u > 8192 then parseRequestLine w c = Inr (fail_request 414 c)
    else if m \<notin> {''GET'', ''HEAD'', ''POST'', ''DELETE''}
    then parseRequestLine w c = Inr (fail_request 501 (map_request (\<lambda>r. r\<lparr>req_method := m\<rparr>) c))
    else \<exists>rb. parseRequestLine w c = Inr ((stat_target w (with_line m u c))\<lparr>read_buffer := rb\<rparr>)
      \<and> content rb = rest \<and> buf_ok rb"
proof -
  define line where "line = request_line lead m sp u sp2 sp3 eol"
  obtain s where s: "rl_run rl_init (line @ rest) = RLDone s" "scan_of lead m sp u (length line) s"
    using rl_run_complete [OF assms(3)] unfolding line_def by blast
  have "line \<noteq> []" by (simp add: line_def request_line_def)
  then have parse: "parseRequestLine w c = finish_request_line w (line @ rest) s c"
    using assms(1,2) s(1) by (simp add: parseRequestLine_def buf_ok_size buf_ok_data flip: line_def)
  have data: "line @ rest = lead @ m @ sp @ u @ (sp2 @ ''HTTP/1.1'' @ sp3 @ eol @ rest)"
    by (simp add: line_def request_line_def)
  have allowed: "set allowed_request_methods = {''GET'', ''HEAD'', ''POST'', ''DELETE''}"
    by (simp add: allowed_request_methods_def)
  note errors = finish_request_line_errors [OF s(2) data, of w c]
  have rest: "drop (length line) (content (read_buffer c)) = rest" using assms(2) by (simp add: line_def)
  note accept = finish_request_line_eval [OF assms(1) s(2) data, of w, unfolded rest]
  consider "length u > 8192" | "length u \<le> 8192" "m \<notin> set allowed_request_methods"
    | "length u \<le> 8192" "m \<in> set allowed_request_methods" by linarith
  then show ?thesis
  proof cases
    case 3
    with accept show ?thesis unfolding parse allowed by auto
  qed (use errors allowed in \<open>simp_all add: parse\<close>)
qed

definition sample_line :: string where
  "sample_line = ''GET /a%20b?x=1 HTTP/1.1'' @ crlf"

lemma sample_line_parts:
  "line_parts [] ''GET'' '' '' ''/a%20b?x=1'' '' '' [] [CR, LF]"
  "request_line [] ''GET'' '' '' ''/a%20b?x=1'' '' '' [] [CR, LF] = sample_line"
  by (simp_all add: line_parts_def request_line_def sample_line_def crlf_def uri_body_char_def
      is_token_char_def is_uri_char_def in_range_def ord_def)

lemma sample_target:
  "stat_target sample_os (with_line m u c) =
     map_request (\<lambda>r. r\<lparr>parse_state := PSTATE_HEADERS\<rparr>) (with_line m u c)"
  by (simp add: stat_target_def sample_os_def)

theorem request_line_complete_witness:
  "\<exists>rb. parseRequestLine sample_os (sample_conn (sample_line @ ''Host: a''))
        = Inr ((map_request (\<lambda>r. r\<lparr>parse_state := PSTATE_HEADERS\<rparr>)
             (with_line ''GET'' ''/a%20b?x=1'' (sample_conn (sample_line @ ''Host: a''))))\<lparr>read_buffer := rb\<rparr>)
      \<and> content rb = ''Host: a'' \<and> buf_ok rb"
  using request_line_complete [of "sample_conn (sample_line @ ''Host: a'')" "[]" "''GET''" "'' ''"
      "''/a%20b?x=1''" "'' ''" "[]" "[CR, LF]" "''Host: a''" sample_os]
  by (simp add: sample_line_parts sample_target) (simp add: sample_line_def crlf_def max_size_def)

lemma finish_request_line_version:
  assumes "finish_request_line w data s c = Inr c'" "parse_state (request c') = PSTATE_HEADERS"
    "parse_state (request c) \<noteq> PSTATE_HEADERS"
  shows "http_major s = 1 \<and> http_minor s \<in> {0, 1}"
  using assms
  by (auto simp: finish_request_line_def Let_def fail_request_def map_request_def split: if_splits option.splits)

text \<open>
  C5: Nothing else is accepted: whenever the parser moves on to the headers, the bytes
  it consumed are a request line of the grammar, with a known method and a target of
  at most 8192 bytes, the target passed the file lookup, and the stored fields are the
  decoded ones.
\<close>

theorem request_line_sound:
  assumes "buf_ok (read_buffer c)" "parse_state (request c) \<noteq> PSTATE_HEADERS"
    and "parseRequestLine w c = Inr c'" "parse_state (request c') = PSTATE_HEADERS"
  shows "\<exists>lead m sp u sp2 sp3 eol rest. line_parts lead m sp u sp2 sp3 eol
    \<and> content (read_buffer c) = request_line lead m sp u sp2 sp3 eol @ rest
    \<and> m \<in> {''GET'', ''HEAD'', ''POST'', ''DELETE''} \<and> length u \<le> 8192
    \<and> (\<exists>rb st. os_stat w (c_str (validatePath (with_line m u c))) = Inr st \<and> content rb = rest
      \<and> c' = (map_request (\<lambda>r. r\<lparr>parse_state := PSTATE_HEADERS\<rparr>) (with_line m u c))\<lparr>read_buffer := rb\<rparr>)"
proof -
  define data where "data = content (read_buffer c)"
  have data: "Buffer_data (read_buffer c) = Inr data" using assms(1) by (simp add: buf_ok_data data_def)
  have "\<not> (Buffer_size (read_buffer c) = 0)"
    using assms(2-4) by (cases "Buffer_size (read_buffer c) = 0") (auto simp: parseRequestLine_def)
  with assms data obtain s where s: "rl_run rl_init data = RLDone s" "finish_request_line w data s c = Inr c'"
    by (auto simp: parseRequestLine_def fail_request_def map_request_def split: rl_result.splits)
  have v: "http_major s = 1" "http_minor s \<in> {0, 1}"
    using finish_request_line_version [OF s(2) assms(4,2)] by simp_all
  obtain lead m sp u sp2 sp3 eol rest where line: "line_parts lead m sp u sp2 sp3 eol"
    "data = request_line lead m sp u sp2 sp3 eol @ rest"
    "scan_of lead m sp u (length (request_line lead m sp u sp2 sp3 eol)) s"
    using s(1) v by (rule rl_run_sound)
  have parts: "data = lead @ m @ sp @ u @ (sp2 @ ''HTTP/1.1'' @ sp3 @ eol @ rest)"
    using line(2) by (simp add: request_line_def)
  have err: "finish_request_line w data s c \<noteq> Inr (fail_request code c0)" for code c0
    using s(2) assms(4) by (auto simp: fail_request_def map_request_def)
  have ok: "length u \<le> 8192" "m \<in> set allowed_request_methods"
    using finish_request_line_errors [OF line(3) parts, of w c] err by (metis linorder_not_le)+
  obtain rb where rb: "c' = (stat_target w (with_line m u c))\<lparr>read_buffer := rb\<rparr>" "content rb = rest"
    using finish_request_line_eval [OF assms(1) line(3) parts ok, of w] s(2) line(2) data_def by auto
  with assms(4) obtain st where "os_stat w (c_str (validatePath (with_line m u c))) = Inr st"
    "c' = (map_request (\<lambda>r. r\<lparr>parse_state := PSTATE_HEADERS\<rparr>) (with_line m u c))\<lparr>read_buffer := rb\<rparr>"
    by (auto simp: stat_target_def fail_request_def map_request_def split: sum.splits errno.splits)
  moreover have "m \<in> {''GET'', ''HEAD'', ''POST'', ''DELETE''}"
    using ok(2) by (simp add: allowed_request_methods_def)
  moreover have "content (read_buffer c) = request_line lead m sp u sp2 sp3 eol @ rest"
    using line(2) by (simp add: data_def)
  ultimately show ?thesis
    using line(1) ok(1) rb(2) by (intro exI conjI) assumption+
qed

theorem request_line_sound_witness:
  "\<exists>lead m sp u sp2 sp3 eol rest. line_parts lead m sp u sp2 sp3 eol
    \<and> sample_line = request_line lead m sp u sp2 sp3 eol @ rest \<and> m \<in> {''GET'', ''HEAD'', ''POST'', ''DELETE''}"
proof -
  obtain c' where "parseRequestLine sample_os (sample_conn sample_line) = Inr c'"
    "parse_state (request c') = PSTATE_HEADERS"
  proof -
    have "buf_ok (read_buffer (sample_conn sample_line))" by (simp add: sample_line_def crlf_def max_size_def)
    moreover obtain s where "rl_run rl_init sample_line = RLDone s"
      "scan_of [] ''GET'' '' '' ''/a%20b?x=1'' (length sample_line) s"
      using rl_run_complete [OF sample_line_parts(1), of "[]"] by (auto simp: sample_line_parts)
    ultimately show thesis
      using finish_request_line_eval [of "sample_conn sample_line" "[]" "''GET''" "'' ''" "''/a%20b?x=1''"
          "length sample_line" s sample_line "'' HTTP/1.1'' @ crlf" sample_os] that
      by (auto simp: parseRequestLine_def buf_ok_size buf_ok_data sample_target sample_line_def crlf_def
          allowed_request_methods_def map_request_def)
  qed
  moreover have "buf_ok (read_buffer (sample_conn sample_line))"
    by (simp add: sample_line_def crlf_def max_size_def)
  ultimately show ?thesis
    using request_line_sound [of "sample_conn sample_line" sample_os c', simplified sample_conn_simps]
    by (simp, elim exE conjE, intro exI conjI) assumption+
qed

end
