(* ===== verification/Header_Parser.thy ===== *)
theory Header_Parser
  imports Request_Line Incremental
begin

text \<open>
  The second stage of \<open>src/HttpParser.cpp\<close>: \<open>validate_host\<close> with its state machine
  \<open>HostState\<close>, \<open>override_host\<close>, and \<open>_parseHeaders\<close>: the loop over header lines and
  the checks that decide how the body is framed.
\<close>

section \<open>The Host header\<close>

definition is_host_char :: "char \<Rightarrow> bool" where
  "is_host_char ch \<longleftrightarrow> is_lower ch \<or> is_upper ch \<or> is_digit ch \<or> ch \<in> set ''-._~!$&'' \<or> ch = SQUOTE
     \<or> ch \<in> set ''()*+,;=%''"

datatype HostState = HOST_START | HOST_IN_HOST | HOST_IP_LITERAL | HOST_IP_LITERAL_END | HOST_PORT

record host_scan =
  host_state :: HostState
  host_len :: nat
  dot_pos :: nat
  port_num :: int
  need_lc :: bool

definition host_in_host :: "nat \<Rightarrow> char \<Rightarrow> host_scan \<Rightarrow> host_scan option" where
  \<comment> \<open>\<open>case HOST_IN_HOST\<close> for byte \<open>ch\<close> at index \<open>i\<close>; \<open>None\<close> is \<open>return false\<close>\<close>
  "host_in_host i ch s =
     (if is_upper ch then Some (s\<lparr>need_lc := True\<rparr>)
      else if is_lower ch \<or> is_digit ch then Some s
      else if ch = CHR '':'' then Some (s\<lparr>host_len := i, host_state := HOST_PORT\<rparr>)
      else if ch = CHR ''-'' then Some s
      else if ch = CHR ''.'' then
        (if dot_pos s = sz_sub i 1 then None else Some (s\<lparr>dot_pos := i\<rparr>))
      else if is_host_char ch then Some s
      else None)"

definition host_step :: "nat \<Rightarrow> char \<Rightarrow> host_scan \<Rightarrow> host_scan option" where
  "host_step i ch s =
     (case host_state s of
        HOST_START \<Rightarrow>
          if ch = CHR ''['' then Some (s\<lparr>host_state := HOST_IP_LITERAL\<rparr>)
          else host_in_host i ch (s\<lparr>host_state := HOST_IN_HOST\<rparr>)
      | HOST_IN_HOST \<Rightarrow> host_in_host i ch s
      | HOST_IP_LITERAL \<Rightarrow>
          if is_upper ch then Some (s\<lparr>need_lc := True\<rparr>)
          else if is_lower ch \<or> is_digit ch then Some s
          else if ch = CHR '':'' \<or> ch = CHR ''-'' then Some s
          else if ch = CHR ''.'' then
            (if dot_pos s = sz_sub i 1 then None else Some (s\<lparr>dot_pos := i\<rparr>))
          else if ch = CHR '']'' then Some (s\<lparr>host_len := i + 1, host_state := HOST_IP_LITERAL_END\<rparr>)
          else if is_host_char ch then Some s
          else None
      | HOST_IP_LITERAL_END \<Rightarrow>
          if ch = CHR '':'' then Some (s\<lparr>host_state := HOST_PORT\<rparr>) else None
      | HOST_PORT \<Rightarrow>
          if is_digit ch then
            (if port_num s > 6553 \<or> (port_num s = 6553 \<and> digit_int ch > 5) then None
             else Some (s\<lparr>port_num := port_num s * 10 + digit_int ch\<rparr>))
          else None)"

fun host_run :: "nat \<Rightarrow> string \<Rightarrow> host_scan \<Rightarrow> host_scan option" where
  "host_run i [] s = Some s"
| "host_run i (ch # cs) s =
     (case host_step i ch s of None \<Rightarrow> None | Some s' \<Rightarrow> host_run (i + 1) cs s')"

definition host_init :: "string \<Rightarrow> host_scan" where
  "host_init v = \<lparr>host_state = HOST_START, host_len = length v, dot_pos = length v, port_num = 0, need_lc = False\<rparr>"

definition validate_host :: "string \<Rightarrow> (string \<times> nat) option" where
  \<comment> \<open>the rewritten value and \<open>port_out\<close>; \<open>None\<close> is \<open>false\<close>\<close>
  "validate_host v =
     (if v = [] then None
      else case host_run 0 v (host_init v) of
        None \<Rightarrow> None
      | Some s \<Rightarrow>
          if host_state s = HOST_IP_LITERAL then None
          else
            let n = (if host_len s > 0 \<and> v ! (host_len s - 1) = CHR ''.'' then host_len s - 1 else host_len s) in
            if n = 0 then None
            else let normalized = substr v 0 n;
                     normalized = (if need_lc s then str_tolower normalized else normalized)
                 in Some (normalized, nat (port_num s mod 2 ^ 16)))"

fun override_host_loop :: "server list \<Rightarrow> string \<Rightarrow> connection \<Rightarrow> connection" where
  "override_host_loop [] host c = c"
| "override_host_loop (s # ss) host c =
     (if srv_server_name s = host then resize_buffers (overide_conf s c)
      else override_host_loop ss host c)"

definition override_host :: "connection \<Rightarrow> string \<Rightarrow> connection" where
  "override_host c host = override_host_loop (configuration c) host c"

section \<open>Header lines\<close>

definition init_singleton_headers :: "string list" where
  "init_singleton_headers =
     [''host'', ''content-length'', ''transfer-encoding'', ''content-type'', ''content-location'',
      ''authorization'', ''date'', ''location'', ''retry-after'', ''max-forwards'',
      ''if-modified-since'', ''if-unmodified-since'', ''if-range'']"

definition has_header :: "http_request \<Rightarrow> string \<Rightarrow> bool" where
  "has_header r k \<longleftrightarrow> omap_get (headers r) k \<noteq> None"

definition fail_req :: "int \<Rightarrow> http_request \<Rightarrow> http_request" where
  "fail_req code r = r\<lparr>parse_state := PSTATE_ERROR, error_code := code\<rparr>"

definition header_line :: "string \<Rightarrow> http_request \<Rightarrow> http_request + http_request" where
  \<comment> \<open>one line without its CRLF; \<open>Inl\<close>: the handler returns with this request\<close>
  "header_line line r =
     (case str_find_char (CHR '':'') 0 line of
        None \<Rightarrow> Inl (fail_req 400 r)
      | Some colon \<Rightarrow>
          let name = str_tolower (str_trim (take colon line));
              value = str_trim (drop (colon + 1) line) in
          if name = [] then Inl (fail_req 400 r)
          else rbind
            (if has_header r name then
               (if name \<in> set init_singleton_headers then Inl (fail_req 400 r)
                else Inr (set_header name (header r name @ '', '' @ value) r))
             else Inr (set_header name value r))
            (\<lambda>r. if length (headers r) > 100 then Inl (fail_req 431 r) else Inr r))"

datatype line_outcome =
    LineWait                    \<comment> \<open>no complete line yet: return\<close>
  | LineEnd connection          \<comment> \<open>the empty line: break\<close>
  | LineReturn connection       \<comment> \<open>rejected: return\<close>
  | LineNext connection         \<comment> \<open>go round the loop\<close>

definition parse_header_line :: "connection \<Rightarrow> (failure \<times> connection) + line_outcome" where
  \<comment> \<open>one turn of the loop of \<open>_parseHeaders\<close>\<close>
  "parse_header_line c =
     (let buf = read_buffer c in
      if Buffer_size buf = 0 then Inr LineWait
      else rbind (with_state c (Buffer_data buf)) (\<lambda>data.
        case find_crlf data of
          None \<Rightarrow> Inr LineWait
        | Some crlf_pos \<Rightarrow>
            if crlf_pos > 8192 then Inr (LineReturn (map_request (fail_req 431) c))
            else if crlf_pos = 0 then
              rbind (with_state c (Buffer_consume buf 2)) (\<lambda>rb. Inr (LineEnd (c\<lparr>read_buffer := rb\<rparr>)))
            else rbind (with_state c (Buffer_consume buf (crlf_pos + 2))) (\<lambda>rb.
              let c = c\<lparr>read_buffer := rb\<rparr> in
              case header_line (take crlf_pos data) (request c) of
                Inl r \<Rightarrow> Inr (LineReturn (c\<lparr>request := r\<rparr>))
              | Inr r \<Rightarrow> Inr (LineNext (c\<lparr>request := r\<rparr>)))))"

section \<open>Framing of the body\<close>

fun content_length_loop :: "nat \<Rightarrow> string \<Rightarrow> nat \<Rightarrow> int + nat" where
  \<comment> \<open>\<open>Inl\<close>: the error code\<close>
  "content_length_loop limit [] cl = Inr cl"
| "content_length_loop limit (ch # cs) cl =
     (if \<not> is_digit ch then Inl 400
      else let cl = (cl * 10 + digit_val ch) mod 2 ^ 64 in
           if cl > limit then Inl 413 else content_length_loop limit cs cl)"

definition headers_framing :: "connection \<Rightarrow> connection" where
  \<comment> \<open>\<open>_parseHeaders\<close> from the \<open>content-length\<close> / \<open>transfer-encoding\<close> checks to its end\<close>
  "headers_framing c =
     (let r = request c in
      if has_header r ''content-length'' \<and> has_header r ''transfer-encoding''
      then map_request (fail_req 400) c
      else
        case (if has_header r ''content-length'' then
                (if header r ''content-length'' = [] then Inl 400
                 else content_length_loop (getMaxBody (config c)) (header r ''content-length'') 0)
              else Inr (content_length r)) of
          Inl code \<Rightarrow> map_request (fail_req code) c
        | Inr cl \<Rightarrow>
            let r = r\<lparr>content_length := cl\<rparr>;
                r = (if has_header r ''transfer-encoding''
                       \<and> str_tolower (header r ''transfer-encoding'') = ''chunked''
                     then r\<lparr>chunked := True, content_length := 0\<rparr> else r);
                r = (if \<not> chunked r \<and> content_length r = 0 then
                       (if req_method r = ''POST'' then fail_req 411 r
                        else r\<lparr>parse_state := PSTATE_COMPLETE\<rparr>)
                     else r\<lparr>parse_state := PSTATE_BODY\<rparr>)
            in c\<lparr>request := r\<rparr>)"

definition finish_headers :: "connection \<Rightarrow> connection" where
  \<comment> \<open>\<open>_parseHeaders\<close> after the loop\<close>
  "finish_headers c =
     (let r = request c in
      if version r = ''HTTP/1.1'' \<and> \<not> has_header r ''host'' then map_request (fail_req 400) c
      else if has_header r ''host'' then
        (case validate_host (header r ''host'') of
           None \<Rightarrow> map_request (fail_req 400) c
         | Some (host_val, port) \<Rightarrow>
             headers_framing (map_request (set_header ''host'' host_val) (override_host c host_val)))
      else headers_framing c)"

section \<open>The loop over the header lines\<close>

lemma find_crlf_SomeD: "find_crlf s = Some p \<Longrightarrow> p + 2 \<le> length s \<and> s = take p s @ CR # LF # drop (p + 2) s"
  by (induction s arbitrary: p rule: find_crlf.induct) (auto split: if_splits)

lemma parse_header_line_shrinks:
  assumes "parse_header_line c = Inr (LineNext c')"
  shows "length (content (read_buffer c')) < length (content (read_buffer c))"
proof -
  obtain data where data0: "Buffer_data (read_buffer c) = Inr data" "Buffer_size (read_buffer c) \<noteq> 0"
    using assms by (cases "Buffer_data (read_buffer c)")
      (auto simp: parse_header_line_def Let_def split: if_splits)
  obtain p where p: "find_crlf data = Some p"
    using assms data0 by (cases "find_crlf data") (auto simp: parse_header_line_def Let_def)
  have "p \<le> 8192" "p \<noteq> 0"
    using assms data0 p by (auto simp: parse_header_line_def Let_def rbind_Inr_iff split: if_splits)
  then obtain rb where "Buffer_consume (read_buffer c) (p + 2) = Inr rb" "read_buffer c' = rb"
    using assms data0 p
    by (cases "header_line (take p data) (request c)")
      (auto simp: parse_header_line_def Let_def rbind_Inr_iff)
  note * = data0(1) p this
  have data: "data = content (read_buffer c)" "head (read_buffer c) \<le> length (storage (read_buffer c))"
    "length (storage (read_buffer c)) \<le> max_size"
    using Buffer_data_InrD [OF *(1)] by simp_all
  have "content rb = drop (p + 2) data" using consume_InrD [OF data(2,3) *(3)] data(1) by simp
  moreover have "p + 2 \<le> length data" using find_crlf_SomeD [OF *(2)] by simp
  ultimately show ?thesis using data(1) *(4) by simp
qed

function parseHeaders :: "connection \<Rightarrow> (failure \<times> connection) + connection" where
  "parseHeaders c =
     rbind (parse_header_line c) (\<lambda>outcome.
       case outcome of
         LineWait \<Rightarrow> Inr c
       | LineEnd c' \<Rightarrow> Inr (finish_headers c')
       | LineReturn c' \<Rightarrow> Inr c'
       | LineNext c' \<Rightarrow> parseHeaders c')"
  by pat_completeness auto
termination
  by (relation "measure (\<lambda>c. length (content (read_buffer c)))") (auto dest: parse_header_line_shrinks)

declare parseHeaders.simps [simp del]

section \<open>The header section as an incremental parser\<close>

text \<open>The specification of one turn, on the request and the unread bytes only.\<close>

definition headers_turn :: "http_request \<Rightarrow> string \<Rightarrow> http_request turn" where
  "headers_turn r data =
     (case find_crlf data of
        None \<Rightarrow> Wait
      | Some p \<Rightarrow>
          if p > 8192 then Fail 431
          else if p = 0 then Stop r 2
          else case header_line (take p data) r of
                 Inl r' \<Rightarrow> Fail (error_code r')
               | Inr r' \<Rightarrow> Next r' (p + 2))"

lemma find_crlf_append: "find_crlf xs = Some p \<Longrightarrow> find_crlf (xs @ ys) = Some p"
  by (induction xs arbitrary: p rule: find_crlf.induct) (auto split: if_splits)

interpretation hdr: incremental headers_turn
proof
  fix r r' :: http_request and xs ys :: string and n :: nat and e :: int
  show "headers_turn r xs = Next r' n \<Longrightarrow> 0 < n \<and> n \<le> length xs"
    by (auto simp: headers_turn_def dest: find_crlf_SomeD split: option.splits if_splits sum.splits)
  show "headers_turn r [] = Wait" by (simp add: headers_turn_def)
  have same: "headers_turn r (xs @ ys) = headers_turn r xs" if "headers_turn r xs \<noteq> Wait" for ys
  proof -
    have "find_crlf xs \<noteq> None" using that by (rule contrapos_nn) (simp add: headers_turn_def)
    then obtain p where p: "find_crlf xs = Some p" by blast
    with find_crlf_SomeD [OF p] show ?thesis by (simp add: headers_turn_def find_crlf_append)
  qed
  show "headers_turn r xs = Next r' n \<Longrightarrow> (\<forall>ys. headers_turn r (xs @ ys) = Next r' n) \<or>
      n = length xs \<and> (\<forall>ys. ys \<noteq> [] \<longrightarrow> headers_turn r' ys \<noteq> Wait \<and> headers_turn r (xs @ ys) = shift_turn n (headers_turn r' ys))"
    using same by auto
  show "headers_turn r xs = Fail e \<Longrightarrow> headers_turn r (xs @ ys) = Fail e" using same by auto
  show "headers_turn r xs = Stop r' n \<Longrightarrow> n \<le> length xs \<and> headers_turn r (xs @ ys) = Stop r' n"
    using same [of ys]
    by (auto simp: headers_turn_def dest: find_crlf_SomeD split: option.splits if_splits sum.splits)
qed

lemma header_line_InlD: "header_line line r = Inl r' \<Longrightarrow> parse_state r' = PSTATE_ERROR"
  by (auto simp: header_line_def fail_req_def Let_def rbind_def split: option.splits if_splits sum.splits)

text \<open>The loop on the connection refines the incremental parser.\<close>

lemma parse_header_line_turn:
  assumes "buf_ok (read_buffer c)"
  shows "case headers_turn (request c) (content (read_buffer c)) of
      Wait \<Rightarrow> parse_header_line c = Inr LineWait
    | Next r n \<Rightarrow> \<exists>rb. parse_header_line c = Inr (LineNext (c\<lparr>read_buffer := rb, request := r\<rparr>))
        \<and> content rb = drop n (content (read_buffer c)) \<and> buf_ok rb \<and> cmbs rb = cmbs (read_buffer c)
    | Stop r n \<Rightarrow> \<exists>rb. parse_header_line c = Inr (LineEnd (c\<lparr>read_buffer := rb\<rparr>)) \<and> r = request c
        \<and> content rb = drop n (content (read_buffer c)) \<and> buf_ok rb \<and> cmbs rb = cmbs (read_buffer c)
    | Fail e \<Rightarrow> \<exists>rb r. parse_header_line c = Inr (LineReturn (c\<lparr>read_buffer := rb, request := r\<rparr>))
        \<and> parse_state r = PSTATE_ERROR \<and> error_code r = e \<and> buf_ok rb \<and> cmbs rb = cmbs (read_buffer c)"
proof (cases "find_crlf (content (read_buffer c))")
  case None
  then show ?thesis using assms
    by (simp add: headers_turn_def parse_header_line_def Let_def buf_ok_size buf_ok_data)
next
  case (Some p)
  then have ne: "Buffer_size (read_buffer c) \<noteq> 0"
    using assms by (auto simp: buf_ok_size)
  obtain rb where rb: "Buffer_consume (read_buffer c) (p + 2) = Inr rb"
    "content rb = drop (p + 2) (content (read_buffer c))" "buf_ok rb" "cmbs rb = cmbs (read_buffer c)"
    using assms by (rule consume_ok)
  show ?thesis
  proof (cases "p > 8192")
    case True
    with Some ne assms show ?thesis
      by (auto simp: headers_turn_def parse_header_line_def Let_def buf_ok_data map_request_def fail_req_def
          intro!: exI [of _ "read_buffer c"] exI [of _ "fail_req 431 (request c)"])
  next
    case small: False
    show ?thesis
    proof (cases "p = 0")
      case True
      with Some ne assms rb show ?thesis
        by (auto simp: headers_turn_def parse_header_line_def Let_def buf_ok_data numeral_2_eq_2)
    next
      case False
      with Some ne assms rb small show ?thesis
      by (cases "header_line (take p (content (read_buffer c))) (request c)")
        (auto simp: headers_turn_def parse_header_line_def Let_def buf_ok_data dest: header_line_InlD)
    qed
  qed
qed

definition with_request :: "connection \<Rightarrow> http_request \<Rightarrow> buffer \<Rightarrow> connection" where
  "with_request c r rb = c\<lparr>request := r, read_buffer := rb\<rparr>"

lemma with_request_sel [simp]:
  "request (with_request c r rb) = r" "read_buffer (with_request c r rb) = rb"
  "with_request (with_request c r rb) r' rb' = with_request c r' rb'"
  "config (with_request c r rb) = config c" "configuration (with_request c r rb) = configuration c"
  "map_request f (with_request c r rb) = with_request c (f r) rb"
  by (simp_all add: with_request_def map_request_def)

lemma with_request_fold:
  "c\<lparr>read_buffer := rb, request := r\<rparr> = with_request c r rb"
  "c\<lparr>request := r, read_buffer := rb\<rparr> = with_request c r rb"
  by (simp_all add: with_request_def)

definition same_bytes :: "buffer \<Rightarrow> string \<Rightarrow> buffer \<Rightarrow> bool" where
  \<comment> \<open>\<open>rb\<close> is a well-formed descendant of \<open>b\<close> holding \<open>rest\<close>\<close>
  "same_bytes rb rest b \<longleftrightarrow> content rb = rest \<and> buf_ok rb \<and> cmbs rb = cmbs b"

lemma parseHeaders_refines:
  "buf_ok (read_buffer c) \<Longrightarrow>
   case run_parser headers_turn (request c) (content (read_buffer c)) of
     Waiting r rest \<Rightarrow> \<exists>rb. parseHeaders c = Inr (with_request c r rb) \<and> same_bytes rb rest (read_buffer c)
   | Stopped r rest \<Rightarrow> \<exists>rb. parseHeaders c = Inr (finish_headers (with_request c r rb)) \<and> same_bytes rb rest (read_buffer c)
   | Failed e \<Rightarrow> \<exists>rb r. parseHeaders c = Inr (with_request c r rb) \<and> parse_state r = PSTATE_ERROR
       \<and> error_code r = e \<and> buf_ok rb \<and> cmbs rb = cmbs (read_buffer c)"
proof (induction c rule: parseHeaders.induct)
  case (1 c)
  note turn = parse_header_line_turn [OF "1.prems"]
  show ?case
  proof (cases "headers_turn (request c) (content (read_buffer c))")
    case Wait
    with turn have "parseHeaders c = Inr c" by (simp add: parseHeaders.simps [of c])
    moreover have "c = with_request c (request c) (read_buffer c)" by (simp add: with_request_def)
    ultimately show ?thesis using Wait "1.prems"
      by (subst run_parser.simps) (auto simp: same_bytes_def intro!: exI [of _ "read_buffer c"])
  next
    case (Next r n)
    then obtain rb where rb: "parse_header_line c = Inr (LineNext (with_request c r rb))"
      "content rb = drop n (content (read_buffer c))" "buf_ok rb" "cmbs rb = cmbs (read_buffer c)"
      using turn by (auto simp: with_request_fold)
    have eq: "parseHeaders c = parseHeaders (with_request c r rb)"
      by (subst parseHeaders.simps) (simp add: rb(1))
    have "buf_ok (read_buffer (with_request c r rb))" using rb(3) by simp
    from "1.IH" [OF rb(1) refl this] show ?thesis
      unfolding hdr.run_Next [OF Next] eq same_bytes_def with_request_sel rb(2,4) .
  next
    case (Stop r n)
    with turn obtain rb where "parse_header_line c = Inr (LineEnd (c\<lparr>read_buffer := rb\<rparr>))" "r = request c"
      "same_bytes rb (drop n (content (read_buffer c))) (read_buffer c)"
      by (auto simp: same_bytes_def)
    moreover have "c\<lparr>read_buffer := rb\<rparr> = with_request c (request c) rb" for rb by (simp add: with_request_def)
    ultimately have "parse_header_line c = Inr (LineEnd (with_request c r rb))"
      "same_bytes rb (drop n (content (read_buffer c))) (read_buffer c)" by simp_all
    with Stop show ?thesis
      by (subst run_parser.simps) (auto simp: parseHeaders.simps [of c])
  next
    case (Fail e)
    with turn obtain rb r where "parse_header_line c = Inr (LineReturn (with_request c r rb))"
      "parse_state r = PSTATE_ERROR" "error_code r = e" "buf_ok rb" "cmbs rb = cmbs (read_buffer c)"
      by (auto simp: with_request_fold)
    moreover from this have "parseHeaders c = Inr (with_request c r rb)" by (simp add: parseHeaders.simps [of c])
    ultimately show ?thesis using Fail by (subst run_parser.simps) auto
  qed
qed

section \<open>Invariants of the header loop\<close>

definition hdrs_ok :: "http_request \<Rightarrow> bool" where
  "hdrs_ok r \<longleftrightarrow> omap_ok (headers r) \<and> length (headers r) \<le> 100"

lemma header_line_InrD:
  assumes "header_line line r = Inr r'" "omap_ok (headers r)"
  shows "hdrs_ok r' \<and> (\<exists>h. r' = r\<lparr>headers := h\<rparr>)"
proof -
  obtain colon where "str_find_char (CHR '':'') 0 line = Some colon"
    using assms by (cases "str_find_char (CHR '':'') 0 line") (auto simp: header_line_def)
  then show ?thesis using assms
    by (auto simp: header_line_def Let_def rbind_Inr_iff set_header_def hdrs_ok_def split: if_splits)
qed

lemma headers_turn_NextD:
  "headers_turn r xs = Next r' n \<Longrightarrow> omap_ok (headers r) \<Longrightarrow> hdrs_ok r' \<and> (\<exists>h. r' = r\<lparr>headers := h\<rparr>)"
  by (cases "find_crlf xs"; cases "header_line (take (the (find_crlf xs)) xs) r")
    (auto simp: headers_turn_def dest: header_line_InrD split: if_splits)

lemma headers_turn_StopD: "headers_turn r xs = Stop r' n \<Longrightarrow> r' = r"
  by (cases "find_crlf xs"; cases "header_line (take (the (find_crlf xs)) xs) r")
    (auto simp: headers_turn_def split: if_splits)

lemma run_headers_keeps:
  "hdrs_ok r \<Longrightarrow>
   case run_parser headers_turn r xs of
     Waiting r' rest \<Rightarrow> hdrs_ok r' \<and> (\<exists>h. r' = r\<lparr>headers := h\<rparr>)
   | Stopped r' rest \<Rightarrow> hdrs_ok r' \<and> (\<exists>h. r' = r\<lparr>headers := h\<rparr>)
   | Failed e \<Rightarrow> True"
proof (induction "length xs" arbitrary: r xs rule: less_induct)
  case less
  have refl_h: "\<exists>h. r = r\<lparr>headers := h\<rparr>" by (rule exI [of _ "headers r"]) simp
  show ?case
  proof (cases "headers_turn r xs")
    case (Next r' n)
    have "omap_ok (headers r)" using less.prems by (simp add: hdrs_ok_def)
    from headers_turn_NextD [OF Next this] obtain h where r': "hdrs_ok r'" "r' = r\<lparr>headers := h\<rparr>"
      by blast
    have "length (drop n xs) < length xs" using hdr.next_progress [OF Next] by auto
    from less.hyps [OF this r'(1)] show ?thesis
      unfolding hdr.run_Next [OF Next]
      by (cases "run_parser headers_turn r' (drop n xs)") (auto simp: r'(2))
  next
    case (Stop r' n)
    with headers_turn_StopD [OF Stop] less.prems refl_h show ?thesis by (simp add: run_parser.simps [of _ r xs])
  qed (use less.prems refl_h in \<open>simp_all add: run_parser.simps [of _ r xs]\<close>)
qed

lemma fail_req_sel [simp]: "parse_state (fail_req e r) = PSTATE_ERROR" "error_code (fail_req e r) = e"
  by (simp_all add: fail_req_def)

lemma map_request_sel [simp]: "request (map_request f c) = f (request c)" "read_buffer (map_request f c) = read_buffer c"
  by (simp_all add: map_request_def)

lemma headers_framing_state:
  "parse_state (request (headers_framing c)) \<in> {PSTATE_ERROR, PSTATE_COMPLETE, PSTATE_BODY}"
proof -
  let ?r = "request c"
  let ?cl = "if has_header ?r ''content-length'' then
                (if header ?r ''content-length'' = [] then Inl 400
                 else content_length_loop (getMaxBody (config c)) (header ?r ''content-length'') 0)
              else Inr (content_length ?r)"
  show ?thesis
    by (cases ?cl; cases "has_header ?r ''content-length'' \<and> has_header ?r ''transfer-encoding''")
      (simp_all only: headers_framing_def Let_def if_True if_False sum.case map_request_sel fail_req_sel,
        auto)
qed

lemma finish_headers_cases:
  obtains (reject) "if has_header (request c) ''host'' then validate_host (header (request c) ''host'') = None
        else version (request c) = ''HTTP/1.1''" "finish_headers c = map_request (fail_req 400) c"
  | (host) h p where "has_header (request c) ''host''" "validate_host (header (request c) ''host'') = Some (h, p)"
      "finish_headers c = headers_framing (map_request (set_header ''host'' h) (override_host c h))"
  | (no_host) "\<not> has_header (request c) ''host''" "version (request c) \<noteq> ''HTTP/1.1''"
      "finish_headers c = headers_framing c"
proof (cases "has_header (request c) ''host''")
  case True
  then show thesis
  proof (cases "validate_host (header (request c) ''host'')")
    case None
    with True show thesis by (intro reject) (simp_all add: finish_headers_def)
  next
    case (Some x)
    with True show thesis by (cases x) (rule host, auto simp: finish_headers_def)
  qed
next
  case False
  then show thesis
    by (cases "version (request c) = ''HTTP/1.1''") (rule reject, simp_all add: finish_headers_def, rule no_host, simp_all add: finish_headers_def)
qed

lemma finish_headers_state:
  "parse_state (request (finish_headers c)) \<in> {PSTATE_ERROR, PSTATE_COMPLETE, PSTATE_BODY}"
  by (cases c rule: finish_headers_cases) (simp_all only: headers_framing_state, simp)

lemma content_length_loop_spec:
  "(\<forall>c \<in> set s. is_digit c) \<Longrightarrow> cl \<le> limit \<Longrightarrow> limit < 2 ^ 60 \<Longrightarrow>
   content_length_loop limit s cl =
     (let v = foldl (\<lambda>v c. v * 10 + digit_val c) cl s in if v \<le> limit then Inr v else Inl 413)"
proof (induction s arbitrary: cl)
  case (Cons ch cs)
  define v where "v = cl * 10 + digit_val ch"
  have "digit_val ch < 10" using Cons.prems(1) by simp
  then have small: "v < 2 ^ 64" using Cons.prems(2,3) unfolding v_def by simp
  have mono: "v \<le> foldl (\<lambda>v c. v * 10 + digit_val c) v xs" for v xs
  proof (induction xs arbitrary: v)
    case (Cons a xs)
    have "v \<le> v * 10 + digit_val a" by simp
    also have "\<dots> \<le> foldl (\<lambda>v c. v * 10 + digit_val c) (v * 10 + digit_val a) xs" by (rule Cons.IH)
    finally show ?case by simp
  qed simp
  from Cons.prems have d: "is_digit ch" by simp
  have "content_length_loop limit (ch # cs) cl = (if v > limit then Inl 413 else content_length_loop limit cs v)"
    using d small by (simp add: v_def mod_less)
  also have "\<dots> = (let w = foldl (\<lambda>v c. v * 10 + digit_val c) v cs in if w \<le> limit then Inr w else Inl 413)"
    using Cons.IH [of v] Cons.prems(1,3) mono [of v cs] by (auto simp: Let_def)
  finally show ?case by (simp add: v_def)
qed (simp add: Let_def)

lemma content_length_loop_bad:
  "content_length_loop limit s cl = Inr n \<Longrightarrow> \<forall>c \<in> set s. is_digit c"
  by (induction s arbitrary: cl) (auto simp: Let_def split: if_splits)

lemma content_length_loop_InrD:
  assumes "content_length_loop limit s 0 = Inr n" "limit < 2 ^ 60"
  shows "(\<forall>c \<in> set s. is_digit c) \<and> n = dec_val s \<and> n \<le> limit"
  using content_length_loop_spec [of s 0 limit] content_length_loop_bad [OF assms(1)] assms
  by (auto simp: dec_val_def Let_def split: if_splits)

definition framed :: "connection \<Rightarrow> bool" where
  \<comment> \<open>specification: how many bytes follow is decided by exactly one header\<close>
  "framed c \<longleftrightarrow>
     (let r = request c in
      \<not> (has_header r ''content-length'' \<and> has_header r ''transfer-encoding'')
      \<and> (parse_state r = PSTATE_COMPLETE \<longrightarrow> \<not> chunked r \<and> content_length r = 0 \<and> req_method r \<noteq> ''POST'')
      \<and> (parse_state r = PSTATE_BODY \<longrightarrow>
           (if chunked r then str_tolower (header r ''transfer-encoding'') = ''chunked'' \<and> content_length r = 0
            else (\<forall>ch \<in> set (header r ''content-length''). is_digit ch)
              \<and> content_length r = dec_val (header r ''content-length'')
              \<and> 0 < content_length r \<and> content_length r \<le> getMaxBody (config c))))"

lemma headers_framing_keeps:
  "config (headers_framing c) = config c \<and> headers (request (headers_framing c)) = headers (request c)
   \<and> read_buffer (headers_framing c) = read_buffer c \<and> version (request (headers_framing c)) = version (request c)"
  by (simp add: headers_framing_def Let_def map_request_def fail_req_def split: sum.split)

lemma header_cong: "headers r = headers r' \<Longrightarrow> header r = header r' \<and> has_header r = has_header r'"
  by (auto simp: header_def has_header_def)

lemma header_updates [simp]:
  "header (r\<lparr>content_length := n\<rparr>) k = header r k" "header (r\<lparr>chunked := b\<rparr>) k = header r k"
  "header (r\<lparr>parse_state := st\<rparr>) k = header r k" "header (r\<lparr>error_code := e\<rparr>) k = header r k"
  "has_header (r\<lparr>content_length := n\<rparr>) k = has_header r k" "has_header (r\<lparr>chunked := b\<rparr>) k = has_header r k"
  "has_header (r\<lparr>parse_state := st\<rparr>) k = has_header r k" "has_header (r\<lparr>error_code := e\<rparr>) k = has_header r k"
  by (simp_all add: header_def has_header_def)

lemma headers_framing_framed:
  assumes "content_length (request c) = 0" "\<not> chunked (request c)" "getMaxBody (config c) < 2 ^ 60"
    and ok: "parse_state (request (headers_framing c)) \<noteq> PSTATE_ERROR"
  shows "framed (headers_framing c)"
proof -
  let ?r = "request c"
  have one: "\<not> (has_header ?r ''content-length'' \<and> has_header ?r ''transfer-encoding'')"
    using ok by (auto simp: headers_framing_def Let_def)
  have hd: "header (request (headers_framing c)) = header ?r" "has_header (request (headers_framing c)) = has_header ?r"
    using header_cong [of "request (headers_framing c)" ?r] headers_framing_keeps by auto
  show ?thesis
  proof (cases "has_header ?r ''content-length''")
    case True
    then obtain n where n: "content_length_loop (getMaxBody (config c)) (header ?r ''content-length'') 0 = Inr n"
      "header ?r ''content-length'' \<noteq> []"
      using ok one by (cases "content_length_loop (getMaxBody (config c)) (header ?r ''content-length'') 0")
        (auto simp: headers_framing_def Let_def split: if_splits)
    with content_length_loop_InrD [OF n(1) assms(3)] True one hd assms(1,2) ok show ?thesis
      by (auto simp: framed_def Let_def headers_framing_keeps)
        (auto simp: headers_framing_def Let_def split: if_splits)
  next
    case False
    with one hd assms(1,2) ok show ?thesis
      by (auto simp: framed_def Let_def headers_framing_keeps)
        (auto simp: headers_framing_def Let_def split: if_splits)
  qed
qed

lemma override_host_keeps:
  "request (override_host c h) = (request c)\<lparr>body := body (request (override_host c h))\<rparr>"
proof -
  have "request (override_host_loop ss h c) = (request c)\<lparr>body := body (request (override_host_loop ss h c))\<rparr>" for ss
    by (induction ss) (simp_all add: resize_buffers_def overide_conf_def Let_def)
  then show ?thesis by (simp add: override_host_def)
qed

lemma finish_headers_safe:
  assumes "content_length (request c) = 0" "\<not> chunked (request c)"
    and "getMaxBody (config (finish_headers c)) < 2 ^ 60"
    and "parse_state (request (finish_headers c)) \<noteq> PSTATE_ERROR" "hdrs_ok (request c)"
  shows "framed (finish_headers c)
    \<and> (version (request (finish_headers c)) = ''HTTP/1.1'' \<longrightarrow> has_header (request (finish_headers c)) ''host'')
    \<and> hdrs_ok (request (finish_headers c))"
proof (cases c rule: finish_headers_cases)
  case reject
  with assms(4) show ?thesis by simp
next
  case (host h p)
  define c1 where "c1 = map_request (set_header ''host'' h) (override_host c h)"
  have r1: "request c1 = set_header ''host'' h ((request c)\<lparr>body := body (request (override_host c h))\<rparr>)"
    using override_host_keeps [of c h] by (simp add: c1_def)
  have eq: "finish_headers c = headers_framing c1" using host(3) by (simp add: c1_def)
  have hs: "headers (request c1) = omap_put ''host'' h (headers (request c))"
    using r1 by (simp add: set_header_def)
  have "content_length (request c1) = 0" "\<not> chunked (request c1)"
    using assms(1,2) r1 by (simp_all add: set_header_def)
  with assms(3,4) have "framed (headers_framing c1)"
    unfolding eq by (intro headers_framing_framed) (simp_all add: headers_framing_keeps)
  moreover have "has_header (request (headers_framing c1)) ''host''"
    by (simp add: has_header_def headers_framing_keeps hs)
  moreover have "hdrs_ok (request (headers_framing c1))"
    using assms(5) host(1) by (auto simp: hdrs_ok_def headers_framing_keeps hs length_omap_put has_header_def)
  ultimately show ?thesis unfolding eq by blast
next
  case no_host
  with assms headers_framing_framed [of c] headers_framing_keeps [of c] show ?thesis
    by (auto simp: hdrs_ok_def)
qed

section \<open>Rendering and parsing header lines\<close>

definition render_header :: "string \<times> string \<Rightarrow> string" where
  "render_header kv = fst kv @ '': '' @ snd kv @ crlf"

definition clean_header :: "string \<times> string \<Rightarrow> bool" where
  \<comment> \<open>a lower-case trimmed name without colon, a trimmed value, no CR, at most 8192 bytes\<close>
  "clean_header kv \<longleftrightarrow>
     fst kv \<noteq> [] \<and> str_tolower (str_trim (fst kv)) = fst kv \<and> CHR '':'' \<notin> set (fst kv) \<and> CR \<notin> set (fst kv)
     \<and> str_trim ('' '' @ snd kv) = snd kv \<and> CR \<notin> set (snd kv) \<and> length (fst kv) + length (snd kv) \<le> 8190"

lemma find_crlf_first: "CR \<notin> set line \<Longrightarrow> find_crlf (line @ CR # LF # rest) = Some (length line)"
proof (induction line)
  case (Cons a line)
  then show ?case by (cases line) auto
qed simp

lemma str_find_char_first: "c \<notin> set xs \<Longrightarrow> str_find_char c 0 (xs @ c # ys) = Some (length xs)"
  by (induction xs) (auto simp: str_find_char_def)

lemma header_line_render:
  assumes "clean_header (k, v)" "\<not> has_header r k" "omap_ok (headers r)" "length (headers r) < 100"
  shows "header_line (k @ '': '' @ v) r = Inr (set_header k v r)"
proof -
  have "str_find_char (CHR '':'') 0 (k @ '': '' @ v) = Some (length k)"
    using assms(1) str_find_char_first [of "CHR '':''" k "'' '' @ v"] by (simp add: clean_header_def)
  moreover have "length (omap_put k v (headers r)) \<le> 100"
    using assms(2-4) by (simp add: length_omap_put has_header_def)
  ultimately show ?thesis
    using assms(1,2) by (simp add: header_line_def Let_def clean_header_def set_header_def)
qed

lemma headers_turn_render:
  assumes "clean_header (k, v)" "\<not> has_header r k" "omap_ok (headers r)" "length (headers r) < 100"
  shows "headers_turn r (render_header (k, v) @ rest) = Next (set_header k v r) (length (render_header (k, v)))"
proof -
  have "find_crlf ((k @ '': '' @ v) @ CR # LF # rest) = Some (length (k @ '': '' @ v))"
    using assms(1) by (intro find_crlf_first) (auto simp: clean_header_def)
  with header_line_render [OF assms] assms(1) show ?thesis
    by (simp add: headers_turn_def render_header_def crlf_def clean_header_def)
qed

lemma run_headers_render:
  "(\<forall>kv \<in> set kvs. clean_header kv) \<Longrightarrow> distinct (map fst kvs) \<Longrightarrow> omap_ok (headers r) \<Longrightarrow>
   (\<forall>kv \<in> set kvs. \<not> has_header r (fst kv)) \<Longrightarrow> length (headers r) + length kvs \<le> 100 \<Longrightarrow>
   run_parser headers_turn r (concat (map render_header kvs) @ crlf @ rest)
     = Stopped (fold (\<lambda>(k, v). set_header k v) kvs r) rest"
proof (induction kvs arbitrary: r)
  case Nil
  then show ?case by (subst run_parser.simps) (simp add: headers_turn_def crlf_def)
next
  case (Cons kv kvs)
  obtain k v where kv: "kv = (k, v)" by (cases kv)
  let ?more = "concat (map render_header kvs) @ crlf @ rest"
  have turn: "headers_turn r (render_header (k, v) @ ?more) = Next (set_header k v r) (length (render_header (k, v)))"
    using Cons.prems kv by (intro headers_turn_render) auto
  have "run_parser headers_turn (set_header k v r) ?more
      = Stopped (fold (\<lambda>(k, v). set_header k v) kvs (set_header k v r)) rest"
    using Cons.prems kv
    by (intro Cons.IH) (auto simp: set_header_def has_header_def length_omap_put)
  with hdr.run_Next [OF turn] show ?case by (simp add: kv)
qed

section \<open>Connections that differ in the representation of the read buffer only\<close>

definition same_verdict :: "connection \<Rightarrow> connection \<Rightarrow> bool" where
  "same_verdict a b \<longleftrightarrow>
     (if parse_state (request a) = PSTATE_ERROR
      then parse_state (request b) = PSTATE_ERROR \<and> error_code (request a) = error_code (request b)
      else request a = request b \<and> config a = config b \<and> content (read_buffer a) = content (read_buffer b))"

lemma same_verdict_with: "content rb = content rb' \<Longrightarrow> same_verdict (with_request c r rb) (with_request c r rb')"
  by (simp add: same_verdict_def with_request_def)

lemma same_verdict_error:
  "parse_state r = PSTATE_ERROR \<Longrightarrow> parse_state r' = PSTATE_ERROR \<Longrightarrow> error_code r = error_code r' \<Longrightarrow>
   same_verdict (with_request c r rb) (with_request c r' rb')"
  by (simp add: same_verdict_def)

lemma override_host_loop_buffer:
  "\<exists>X. content X = content rb \<and> override_host_loop ss h (c\<lparr>read_buffer := rb\<rparr>) = (override_host_loop ss h c)\<lparr>read_buffer := X\<rparr>"
proof (induction ss)
  case (Cons s ss)
  show ?case
  proof (cases "srv_server_name s = h")
    case True
    then show ?thesis
      by (intro exI [of _ "Buffer_setMaxSize (getMaxBody s) rb"])
        (simp add: resize_buffers_def overide_conf_def Let_def)
  next
    case False
    with Cons show ?thesis by simp
  qed
qed auto

lemma headers_framing_buffer:
  "headers_framing (c\<lparr>read_buffer := rb\<rparr>) = (headers_framing c)\<lparr>read_buffer := rb\<rparr>"
  by (simp add: headers_framing_def Let_def map_request_def split: sum.split)

lemma map_request_buffer: "map_request f (c\<lparr>read_buffer := rb\<rparr>) = (map_request f c)\<lparr>read_buffer := rb\<rparr>"
  by (simp add: map_request_def)

lemma finish_headers_buffer:
  "\<exists>X. content X = content rb \<and> finish_headers (c\<lparr>read_buffer := rb\<rparr>) = (finish_headers c)\<lparr>read_buffer := X\<rparr>"
proof (cases c rule: finish_headers_cases)
  case reject
  then show ?thesis
    by (intro exI [of _ rb]) (auto simp: finish_headers_def map_request_buffer split: if_splits)
next
  case (host h p)
  obtain X where X: "content X = content rb"
    "override_host (c\<lparr>read_buffer := rb\<rparr>) h = (override_host c h)\<lparr>read_buffer := X\<rparr>"
    using override_host_loop_buffer [of rb "configuration c" h c] by (auto simp: override_host_def)
  with host show ?thesis
    by (intro exI [of _ X]) (simp add: finish_headers_def map_request_buffer headers_framing_buffer)
next
  case no_host
  then show ?thesis by (intro exI [of _ rb]) (simp add: finish_headers_def headers_framing_buffer)
qed

lemma finish_headers_not_waiting: "parse_state (request (finish_headers c)) \<noteq> PSTATE_HEADERS"
  using finish_headers_state [of c] by auto

lemma same_verdict_finish:
  assumes "content rb = content rb'"
  shows "same_verdict (finish_headers (with_request c r rb)) (finish_headers (with_request c r rb'))"
proof -
  have "with_request c r b = (c\<lparr>request := r\<rparr>)\<lparr>read_buffer := b\<rparr>" for b by (simp add: with_request_def)
  then have "\<exists>X. content X = content b \<and> finish_headers (with_request c r b) = (finish_headers (c\<lparr>request := r\<rparr>))\<lparr>read_buffer := X\<rparr>" for b
    using finish_headers_buffer [of b "c\<lparr>request := r\<rparr>"] by simp
  from this [of rb] this [of rb'] assms show ?thesis by (auto simp: same_verdict_def)
qed

section \<open>What a validated host looks like\<close>

definition host_text_char :: "char \<Rightarrow> bool" where
  "host_text_char c \<longleftrightarrow> is_host_char c \<or> c = CHR ''['' \<or> c = CHR '']'' \<or> c = CHR '':''"

definition host_inv :: "string \<Rightarrow> nat \<Rightarrow> host_scan \<Rightarrow> bool" where
  \<comment> \<open>after the first \<open>i\<close> bytes of \<open>v\<close>\<close>
  "host_inv v i s \<longleftrightarrow>
     0 \<le> port_num s \<and> port_num s \<le> 65535 \<and> host_len s \<le> length v
     \<and> (\<not> need_lc s \<longrightarrow> (\<forall>c \<in> set (take i v). \<not> is_upper c))
     \<and> (\<forall>c \<in> set (take i v). host_text_char c)
     \<and> (\<forall>j. Suc j < i \<longrightarrow> \<not> (v ! j = CHR ''.'' \<and> v ! Suc j = CHR ''.''))
     \<and> (0 < i \<and> v ! (i - 1) = CHR ''.'' \<longrightarrow> dot_pos s = i - 1)"

lemma host_in_host_cases:
  assumes "host_in_host i ch s = Some s'"
  shows "port_num s' = port_num s \<and> (host_len s' = host_len s \<or> host_len s' = i)
    \<and> (need_lc s' \<longleftrightarrow> need_lc s \<or> is_upper ch) \<and> host_text_char ch
    \<and> (if ch = CHR ''.'' then dot_pos s \<noteq> sz_sub i 1 \<and> dot_pos s' = i else dot_pos s' = dot_pos s)"
  using assms
  by (auto simp: host_in_host_def host_text_char_def is_host_char_def split: if_splits)
    (simp_all add: in_range_def ord_def)

lemma host_step_cases:
  assumes "host_step i ch s = Some s'" "0 \<le> port_num s" "port_num s \<le> 65535"
  shows "0 \<le> port_num s' \<and> port_num s' \<le> 65535
    \<and> (host_len s' = host_len s \<or> host_len s' = i \<or> host_len s' = Suc i)
    \<and> (need_lc s' \<longleftrightarrow> need_lc s \<or> is_upper ch) \<and> host_text_char ch
    \<and> (if ch = CHR ''.'' then dot_pos s \<noteq> sz_sub i 1 \<and> dot_pos s' = i else dot_pos s' = dot_pos s)"
proof (cases "host_state s")
  case HOST_START
  with assms host_in_host_cases [of i ch "s\<lparr>host_state := HOST_IN_HOST\<rparr>" s'] show ?thesis
    by (cases "ch = CHR ''[''") (auto simp: host_step_def host_text_char_def in_range_def ord_def)
next
  case HOST_IN_HOST
  with assms host_in_host_cases [of i ch s s'] show ?thesis by (auto simp: host_step_def)
next
  case HOST_IP_LITERAL
  with assms show ?thesis
    by (auto simp: host_step_def host_text_char_def is_host_char_def split: if_splits)
      (simp_all add: in_range_def ord_def)
next
  case HOST_IP_LITERAL_END
  with assms show ?thesis
    by (auto simp: host_step_def host_text_char_def in_range_def ord_def split: if_splits)
next
  case HOST_PORT
  with assms have d: "is_digit ch" "port_num s \<le> 6553" "port_num s < 6553 \<or> digit_int ch \<le> 5"
    "s' = s\<lparr>port_num := port_num s * 10 + digit_int ch\<rparr>"
    by (auto simp: host_step_def split: if_splits)
  then have "0 \<le> digit_int ch" "digit_int ch \<le> 9" by (simp_all add: digit_int_def in_range_def ord_def)
  with d assms(2) have "0 \<le> port_num s'" "port_num s' \<le> 65535" by auto
  with d show ?thesis by (auto simp: host_text_char_def is_host_char_def in_range_def ord_def)
qed

lemma host_inv_step:
  assumes "host_inv v i s" "host_step i (v ! i) s = Some s'" "i < length v"
  shows "host_inv v (Suc i) s'"
proof -
  have c: "0 \<le> port_num s'" "port_num s' \<le> 65535" "host_len s' = host_len s \<or> host_len s' = i \<or> host_len s' = Suc i"
    "need_lc s' \<longleftrightarrow> need_lc s \<or> is_upper (v ! i)" "host_text_char (v ! i)"
    "if v ! i = CHR ''.'' then dot_pos s \<noteq> sz_sub i 1 \<and> dot_pos s' = i else dot_pos s' = dot_pos s"
    using host_step_cases [OF assms(2)] assms(1) by (auto simp: host_inv_def)
  have t: "set (take (Suc i) v) = insert (v ! i) (set (take i v))"
    using assms(3) by (simp add: take_Suc_conv_app_nth)
  have dots: "\<not> (v ! j = CHR ''.'' \<and> v ! Suc j = CHR ''.'')" if "Suc j < Suc i" for j
  proof (cases "Suc j = i")
    case True
    then show ?thesis using assms(1) c(6) by (auto simp: host_inv_def)
  next
    case False
    with that assms(1) show ?thesis by (simp add: host_inv_def)
  qed
  have inv: "host_len s \<le> length v" "\<forall>c \<in> set (take i v). host_text_char c"
    "\<not> need_lc s \<longrightarrow> (\<forall>c \<in> set (take i v). \<not> is_upper c)"
    using assms(1) by (simp_all add: host_inv_def)
  show ?thesis
    unfolding host_inv_def t
  proof (intro conjI)
    show "host_len s' \<le> length v" using c(3) inv(1) assms(3) by linarith
    show "\<not> need_lc s' \<longrightarrow> (\<forall>c \<in> insert (v ! i) (set (take i v)). \<not> is_upper c)" using c(4) inv(3) by blast
    show "\<forall>c \<in> insert (v ! i) (set (take i v)). host_text_char c" using c(5) inv(2) by blast
    show "0 < Suc i \<and> v ! (Suc i - 1) = CHR ''.'' \<longrightarrow> dot_pos s' = Suc i - 1" using c(6) by simp
  qed (use c(1,2) dots in blast)+
qed

lemma host_run_inv:
  "host_inv v i s \<Longrightarrow> i \<le> length v \<Longrightarrow> host_run i (drop i v) s = Some t \<Longrightarrow> host_inv v (length v) t"
proof (induction "length v - i" arbitrary: i s)
  case (Suc n)
  then have i: "i < length v" by simp
  then have d: "drop i v = v ! i # drop (Suc i) v" by (simp add: Cons_nth_drop_Suc)
  with Suc.prems obtain s' where s': "host_step i (v ! i) s = Some s'" "host_run (Suc i) (drop (Suc i) v) s' = Some t"
    by (auto split: option.splits)
  show ?case
    by (rule Suc.hyps(1) [of "Suc i" s']) (use Suc.hyps(2) i host_inv_step [OF Suc.prems(1) s'(1) i] s'(2) in auto)
qed simp

section \<open>Properties\<close>

definition sample_headers :: "string \<Rightarrow> connection" where
  \<comment> \<open>for concrete instances: the request line is parsed and \<open>s\<close> is unread\<close>
  "sample_headers s =
     map_request (\<lambda>r. r\<lparr>parse_state := PSTATE_HEADERS, req_method := ''GET'', version := ''HTTP/1.1''\<rparr>) (sample_conn s)"

lemma sample_headers_simps [simp]:
  "length s \<le> max_size \<Longrightarrow> buf_ok (read_buffer (sample_headers s))"
  "content (read_buffer (sample_headers s)) = s"
  "parse_state (request (sample_headers s)) = PSTATE_HEADERS"
  "headers (request (sample_headers s)) = []" "content_length (request (sample_headers s)) = 0"
  "\<not> chunked (request (sample_headers s))"
  by (simp_all add: sample_headers_def)

lemma sample_headers_config [simp]:
  "config (sample_headers s) = Server_set_default_conf Server_new" "configuration (sample_headers s) = []"
  "req_method (request (sample_headers s)) = ''GET''"
  by (simp_all add: sample_headers_def map_request_def sample_conn_def Connection_new_def)

text \<open>
  C7: the header section is parsed the same however the bytes arrive.  Parsing what
  has come, waiting, and parsing again once \<open>ys\<close> has arrived leads to the verdict,
  the request, the selected server and the unread bytes that parsing everything at
  once leads to.
\<close>

theorem parseHeaders_any_pieces:
  assumes "buf_ok (read_buffer c)" "buf_ok bw" "buf_ok b2"
    and "parseHeaders c = Inr c1" "parse_state (request c1) = PSTATE_HEADERS"
    and "content b2 = content (read_buffer c1) @ ys" "content bw = content (read_buffer c) @ ys"
  shows "\<exists>d2 dw. parseHeaders (c1\<lparr>read_buffer := b2\<rparr>) = Inr d2 \<and> parseHeaders (c\<lparr>read_buffer := bw\<rparr>) = Inr dw
    \<and> same_verdict d2 dw"
proof -
  let ?r = "request c" and ?xs = "content (read_buffer c)"
  obtain r rest where w: "run_parser headers_turn ?r ?xs = Waiting r rest"
    "content (read_buffer c1) = rest" "\<And>b. c1\<lparr>read_buffer := b\<rparr> = with_request c r b"
  proof (cases "run_parser headers_turn ?r ?xs")
    case (Waiting r rest)
    with parseHeaders_refines [OF assms(1)] obtain rb where "parseHeaders c = Inr (with_request c r rb)" "content rb = rest"
      by (auto simp: same_bytes_def)
    then have "c1 = with_request c r rb" using assms(4) by simp
    with Waiting that [of r rest] \<open>content rb = rest\<close> show thesis by (auto simp: with_request_def)
  qed (use parseHeaders_refines [OF assms(1)] assms(4,5) finish_headers_not_waiting in auto)
  have run: "run_parser headers_turn ?r (content bw) = run_parser headers_turn r (content b2)"
    using hdr.run_append [of ?r ?xs ys] assms(6,7) w(1,2) by (simp add: resume_def)
  have cw: "c\<lparr>read_buffer := bw\<rparr> = with_request c ?r bw" by (simp add: with_request_def)
  have R2: "buf_ok (read_buffer (with_request c r b2))" and Rw: "buf_ok (read_buffer (with_request c ?r bw))"
    using assms(2,3) by simp_all
  show ?thesis
  proof (cases "run_parser headers_turn r (content b2)")
    case (Waiting r' rest')
    with parseHeaders_refines [OF R2] parseHeaders_refines [OF Rw] run show ?thesis
      unfolding w(3) cw by (auto simp: same_bytes_def intro!: same_verdict_with)
  next
    case (Stopped r' rest')
    with parseHeaders_refines [OF R2] parseHeaders_refines [OF Rw] run show ?thesis
      unfolding w(3) cw by (auto simp: same_bytes_def intro!: same_verdict_finish)
  next
    case (Failed e)
    with parseHeaders_refines [OF R2] parseHeaders_refines [OF Rw] run show ?thesis
      unfolding w(3) cw by (auto intro!: same_verdict_error)
  qed
qed

theorem parseHeaders_any_pieces_witness:
  "\<exists>c1 d2 dw. parseHeaders (sample_headers (''a: b'' @ crlf @ ''Ho'')) = Inr c1
    \<and> parseHeaders (c1\<lparr>read_buffer := read_buffer (sample_conn (''Host: x'' @ crlf))\<rparr>) = Inr d2
    \<and> parseHeaders ((sample_headers (''a: b'' @ crlf @ ''Ho''))\<lparr>read_buffer := read_buffer (sample_conn (''a: b'' @ crlf @ ''Host: x'' @ crlf))\<rparr>) = Inr dw
    \<and> same_verdict d2 dw"
proof -
  let ?c = "sample_headers (''a: b'' @ crlf @ ''Ho'')"
  have "headers_turn (request ?c) (render_header (''a'', ''b'') @ ''Ho'')
      = Next (set_header ''a'' ''b'' (request ?c)) (length (render_header (''a'', ''b'')))"
    by (rule headers_turn_render) (simp_all add: clean_header_def str_tolower_def str_trim_def is_blank_def
        to_lower_def in_range_def ord_def has_header_def)
  from hdr.run_Next [OF this]
  have "run_parser headers_turn (request ?c) (''a: b'' @ crlf @ ''Ho'') = Waiting (set_header ''a'' ''b'' (request ?c)) ''Ho''"
    by (simp add: render_header_def crlf_def run_parser.simps [of _ _ "''Ho''"] headers_turn_def)
  with parseHeaders_refines [of ?c] obtain rb where "parseHeaders ?c = Inr (with_request ?c (set_header ''a'' ''b'' (request ?c)) rb)"
    "content rb = ''Ho''" by (auto simp: same_bytes_def max_size_def crlf_def)
  then obtain c1 where c1: "parseHeaders ?c = Inr c1"
    "parse_state (request c1) = PSTATE_HEADERS" "content (read_buffer c1) = ''Ho''"
    by (simp add: set_header_def)
  then show ?thesis
    using parseHeaders_any_pieces [of "sample_headers (''a: b'' @ crlf @ ''Ho'')"
        "read_buffer (sample_conn (''a: b'' @ crlf @ ''Host: x'' @ crlf))"
        "read_buffer (sample_conn (''Host: x'' @ crlf))" c1 "''st: x'' @ crlf"]
    by (simp add: max_size_def crlf_def)
qed

lemma parseHeaders_render_step:
  assumes "buf_ok (read_buffer c)" "headers (request c) = []"
    and "content (read_buffer c) = concat (map render_header kvs) @ crlf @ rest"
    and "\<forall>kv \<in> set kvs. clean_header kv" "distinct (map fst kvs)" "length kvs \<le> 100"
  shows "\<exists>rb. parseHeaders c = Inr (finish_headers (with_request c (fold (\<lambda>(k, v). set_header k v) kvs (request c)) rb))
    \<and> content rb = rest \<and> buf_ok rb"
proof -
  have "run_parser headers_turn (request c) (content (read_buffer c))
      = Stopped (fold (\<lambda>(k, v). set_header k v) kvs (request c)) rest"
    unfolding assms(3) using assms by (intro run_headers_render) (auto simp: has_header_def)
  with parseHeaders_refines [OF assms(1)] show ?thesis by (auto simp: same_bytes_def)
qed

text \<open>
  C8: headers are read back as they were written.  A clean header list with distinct
  names, rendered as \<open>name: value\<close> lines and closed by an empty line, is stored as that
  map, exactly its bytes are consumed, and the checks of the header section run on it.
\<close>

theorem parseHeaders_render:
  assumes "buf_ok (read_buffer c)" "headers (request c) = []"
    and "content (read_buffer c) = concat (map render_header kvs) @ crlf @ rest"
    and "\<forall>kv \<in> set kvs. clean_header kv" "distinct (map fst kvs)" "length kvs \<le> 100"
  shows "\<exists>rb. parseHeaders c = Inr (finish_headers (with_request c (fold (\<lambda>(k, v). set_header k v) kvs (request c)) rb))
    \<and> content rb = rest \<and> buf_ok rb"
  using assms by (rule parseHeaders_render_step)

theorem parseHeaders_render_witness:
  "\<exists>rb. parseHeaders (sample_conn (concat (map render_header [(''host'', ''a.org''), (''accept'', ''*'')]) @ crlf @ ''xyz''))
      = Inr (finish_headers (with_request (sample_conn (concat (map render_header [(''host'', ''a.org''), (''accept'', ''*'')]) @ crlf @ ''xyz''))
          (fold (\<lambda>(k, v). set_header k v) [(''host'', ''a.org''), (''accept'', ''*'')]
            (request (sample_conn (concat (map render_header [(''host'', ''a.org''), (''accept'', ''*'')]) @ crlf @ ''xyz'')))) rb))
    \<and> content rb = ''xyz'' \<and> buf_ok rb"
  by (rule parseHeaders_render)
    (simp_all add: render_header_def crlf_def max_size_def clean_header_def str_tolower_def str_trim_def
      is_blank_def to_lower_def in_range_def ord_def)

text \<open>
  C9: a request whose headers are accepted is framed unambiguously.  It never carries
  both \<open>Content-Length\<close> and \<open>Transfer-Encoding\<close>; a body of known length is announced
  by a decimal number, read exactly, within the limit of the selected server; a request
  complete at this point has no body and is not a \<open>POST\<close>; HTTP/1.1 requests name a host;
  and at most 100 headers are kept.
\<close>

theorem parseHeaders_framing_safe:
  assumes "buf_ok (read_buffer c)" "parse_state (request c) = PSTATE_HEADERS" "hdrs_ok (request c)"
    and "content_length (request c) = 0" "\<not> chunked (request c)"
    and "parseHeaders c = Inr c'" "parse_state (request c') \<in> {PSTATE_BODY, PSTATE_COMPLETE}"
    and "getMaxBody (config c') < 2 ^ 60"
  shows "framed c' \<and> hdrs_ok (request c')
    \<and> (version (request c') = ''HTTP/1.1'' \<longrightarrow> has_header (request c') ''host'')"
proof -
  note run = parseHeaders_refines [OF assms(1)]
  show ?thesis
  proof (cases "run_parser headers_turn (request c) (content (read_buffer c))")
    case (Waiting r rest)
    with run run_headers_keeps [OF assms(3), of "content (read_buffer c)"] assms(2,6,7) show ?thesis by auto
  next
    case (Stopped r rest)
    with run obtain rb where c': "c' = finish_headers (with_request c r rb)" using assms(6) by auto
    obtain h where r: "hdrs_ok r" "r = (request c)\<lparr>headers := h\<rparr>"
      using run_headers_keeps [OF assms(3), of "content (read_buffer c)"] Stopped by auto
    have "content_length r = 0" "\<not> chunked r" using r(2) assms(4,5) by simp_all
    with finish_headers_safe [of "with_request c r rb"] r(1) assms(7,8) show ?thesis unfolding c' by auto
  next
    case (Failed e)
    with run assms(6,7) show ?thesis by auto
  qed
qed

theorem parseHeaders_framing_safe_witness:
  "\<exists>c'. parseHeaders (sample_headers (''host: a'' @ crlf @ ''content-length: 12'' @ crlf @ crlf)) = Inr c' \<and> framed c'"
proof -
  let ?c = "sample_headers (''host: a'' @ crlf @ ''content-length: 12'' @ crlf @ crlf)"
  define r where "r = set_header ''content-length'' ''12'' (set_header ''host'' ''a'' (request ?c))"
  have "\<exists>rb. parseHeaders ?c = Inr (finish_headers (with_request ?c
      (fold (\<lambda>(k, v). set_header k v) [(''host'', ''a''), (''content-length'', ''12'')] (request ?c)) rb)) \<and> content rb = [] \<and> buf_ok rb"
    by (rule parseHeaders_render_step)
      (simp_all add: render_header_def crlf_def max_size_def clean_header_def str_tolower_def str_trim_def
        is_blank_def to_lower_def in_range_def ord_def)
  then obtain rb where p: "parseHeaders ?c = Inr (finish_headers (with_request ?c r rb))" by (auto simp: r_def)
  have v: "validate_host ''a'' = Some (''a'', 0)"
    by (simp add: validate_host_def host_init_def host_step_def host_in_host_def in_range_def ord_def substr_def)
  have hs: "headers r = [(''content-length'', ''12''), (''host'', ''a'')]" "\<not> chunked r"
    by (simp_all add: set_header_def r_def)
  have g: "omap_get (headers r) ''host'' = Some ''a''" "omap_get (headers r) ''content-length'' = Some ''12''"
    "omap_get (headers r) ''transfer-encoding'' = None"
    by (simp_all add: hs omap_get_def)
  have fin: "finish_headers (with_request ?c r rb) =
      headers_framing (with_request ?c (set_header ''host'' ''a'' r) rb)"
    using v by (simp add: finish_headers_def Let_def has_header_def header_def g override_host_def)
  have "parse_state (request (finish_headers (with_request ?c r rb))) = PSTATE_BODY"
    unfolding fin by (simp add: headers_framing_def Let_def has_header_def header_def g digit_val_def ord_def in_range_def
        set_header_def)
  with p fin obtain c' where "parseHeaders ?c = Inr c'" "parse_state (request c') = PSTATE_BODY"
    "getMaxBody (config c') < 2 ^ 60" by (simp add: headers_framing_keeps)
  then show ?thesis
    using parseHeaders_framing_safe [of ?c c'] by (simp add: max_size_def crlf_def hdrs_ok_def)
qed

lemma to_lower_dot: "to_lower c = CHR ''.'' \<Longrightarrow> c = CHR ''.''"
proof (rule ccontr)
  assume *: "to_lower c = CHR ''.''" "c \<noteq> CHR ''.''"
  then have "is_upper c" "chr (ord c + 32) = CHR ''.''" by (auto simp: to_lower_def split: if_splits)
  moreover from this have "ord (chr (ord c + 32)) = ord c + 32"
    by (intro ord_chr) (simp add: in_range_def ord_def)
  ultimately show False by (simp add: in_range_def ord_def)
qed

text \<open>
  A validated \<open>Host\<close> value is normalised: the stored name is a non-empty prefix of
  the value in lower case, made of host characters, without consecutive dots; the port
  fits 16 bits, so the narrowing cast loses nothing.
\<close>

theorem validate_host_normal:
  assumes "validate_host v = Some (h, p)" "length v < 2 ^ 64 - 1"
  shows "h \<noteq> [] \<and> h = map to_lower (take (length h) v) \<and> p \<le> 65535
    \<and> (\<forall>c \<in> set h. \<not> is_upper c) \<and> (\<forall>c \<in> set (take (length h) v). host_text_char c)
    \<and> (\<nexists>u w. h = u @ ''..'' @ w)"
proof -
  obtain s where s: "host_run 0 v (host_init v) = Some s" and v: "v \<noteq> []"
    using assms(1) by (auto simp: validate_host_def split: option.splits if_splits)
  have "host_inv v (length v) s"
    using s assms(2) by (intro host_run_inv [of v 0 "host_init v"]) (auto simp: host_inv_def host_init_def)
  then have inv: "0 \<le> port_num s" "port_num s \<le> 65535" "host_len s \<le> length v"
    "\<not> need_lc s \<longrightarrow> (\<forall>c \<in> set v. \<not> is_upper c)" "\<forall>c \<in> set v. host_text_char c"
    "\<And>j. Suc j < length v \<Longrightarrow> \<not> (v ! j = CHR ''.'' \<and> v ! Suc j = CHR ''.'')"
    by (simp_all add: host_inv_def)
  define n where "n = (if host_len s > 0 \<and> v ! (host_len s - 1) = CHR ''.'' then host_len s - 1 else host_len s)"
  have n: "n \<noteq> 0" "n \<le> host_len s" "p = nat (port_num s mod 2 ^ 16)"
    "h = (if need_lc s then map to_lower (take n v) else take n v)"
    using assms(1) s v
    by (auto simp: validate_host_def Let_def str_tolower_def substr_def n_def split: if_splits)
  have low: "map to_lower xs = xs" if "\<forall>c \<in> set xs. \<not> is_upper c" for xs
    using that by (induction xs) (auto simp: to_lower_def)
  have sub: "set (take n v) \<subseteq> set v" by (rule set_take_subset)
  have len: "length h = n" using n inv(3) by simp
  have h: "h = map to_lower (take n v)"
  proof (cases "need_lc s")
    case False
    with inv(4) sub have "\<forall>c \<in> set (take n v). \<not> is_upper c" by blast
    with low [OF this] n(4) False show ?thesis by simp
  qed (use n(4) in simp)
  have "\<nexists>u w. h = u @ ''..'' @ w"
  proof
    assume "\<exists>u w. h = u @ ''..'' @ w"
    then obtain u w where uw: "map to_lower (take n v) = u @ ''..'' @ w" using h by auto
    have nv: "n \<le> length v" using n(2) inv(3) by simp
    moreover have "length u + 2 \<le> n" using arg_cong [OF uw, of length] nv by simp
    ultimately have l: "length u + 2 \<le> n" "n \<le> length v" by simp_all
    have "to_lower (v ! (length u)) = CHR ''.''" "to_lower (v ! Suc (length u)) = CHR ''.''"
      using arg_cong [OF uw, of "\<lambda>xs. xs ! length u"] arg_cong [OF uw, of "\<lambda>xs. xs ! Suc (length u)"] l
      by (simp_all add: nth_append)
    then have "v ! (length u) = CHR ''.''" "v ! Suc (length u) = CHR ''.''"
      by (simp_all add: to_lower_dot)
    with inv(6) [of "length u"] l show False by simp
  qed
  moreover have "p \<le> 65535" using n(3) inv(1,2) by simp
  moreover have "h \<noteq> []" using len n(1) by auto
  ultimately show ?thesis using h len inv(5) sub not_upper_to_lower by auto
qed

lemma low_a: "chr 97 = CHR ''a''"
  using chr_ord [of "CHR ''a''"] by (simp add: ord_def)

theorem validate_host_normal_witness:
  "validate_host ''A.b.:80'' = Some (''a.b'', 80) \<and> ''a.b'' = map to_lower (take 3 ''A.b.:80'')"
proof -
  have "validate_host ''A.b.:80'' = Some (''a.b'', 80)"
    by (simp add: validate_host_def host_init_def host_step_def host_in_host_def in_range_def ord_def substr_def
        digit_int_def str_tolower_def to_lower_def low_a sz_sub_def)
  with validate_host_normal [OF this] show ?thesis by simp
qed

end
