(* ===== verification/Body_Parser.thy ===== *)
theory Body_Parser
  imports Header_Parser
begin

text \<open>
  The third stage of \<open>src/HttpParser.cpp\<close>: \<open>_parseBody\<close> for bodies of known length and
  \<open>_parseChunked\<close>, the decoder of the chunked transfer coding.  Both move bytes from the
  read buffer into the body buffer of the request.  The decoder is specified by
  \<open>chunk_turn\<close>, a pure function on the decoder state and the unread bytes.
\<close>

section \<open>Moving bytes into the body\<close>

definition too_large :: "http_request \<Rightarrow> nat \<Rightarrow> bool" where
  \<comment> \<open>\<open>req.written + to_read > req.max_body_size\<close>\<close>
  "too_large r to_read \<longleftrightarrow> sz_add (written r) to_read > max_body_size r"

definition move_to_body :: "nat \<Rightarrow> connection \<Rightarrow> (failure \<times> connection) + connection" where
  \<comment> \<open>\<open>req.body.append(buf.data(), to_read); buf.consume(to_read); req.written += to_read\<close>\<close>
  "move_to_body to_read c =
     rbind (with_state c (Buffer_data (read_buffer c))) (\<lambda>data.
     rbind (with_state c (Buffer_append (body (request c)) (take to_read data))) (\<lambda>b.
       let c = map_request (\<lambda>r. r\<lparr>body := b\<rparr>) c in
     rbind (with_state c (Buffer_consume (read_buffer c) to_read)) (\<lambda>rb.
       Inr (map_request (\<lambda>r. r\<lparr>written := sz_add (written r) to_read\<rparr>) (c\<lparr>read_buffer := rb\<rparr>)))))"

definition parseBody :: "connection \<Rightarrow> (failure \<times> connection) + connection" where
  "parseBody c =
     (let buf = read_buffer c; r = request c in
      if Buffer_size buf = 0 then Inr c
      else if content_length r = 0 \<and> \<not> chunked r then
        (let to_read = Buffer_size buf in
         if too_large r to_read then Inr (map_request (fail_req 413) c) else move_to_body to_read c)
      else
        (let already = written r;
             needed = sz_sub (content_length r) already;
             available = Buffer_size buf;
             to_read = (if needed < available then needed else available) in
         if too_large r to_read then Inr (map_request (fail_req 413) c)
         else rbind (move_to_body to_read c) (\<lambda>c.
           if written (request c) = content_length (request c)
           then Inr (map_request (\<lambda>r. r\<lparr>parse_state := PSTATE_COMPLETE\<rparr>)
                      (c\<lparr>read_buffer := Buffer_earase (read_buffer c)\<rparr>))
           else Inr c)))"

section \<open>The chunk size line\<close>

definition MAX_ALLOWED_CHUNK :: nat where "MAX_ALLOWED_CHUNK = 1073741824"

definition chunk_digit :: "char \<Rightarrow> nat option" where
  "chunk_digit c =
     (if is_digit c then Some (ord c - ord (CHR ''0''))
      else if in_range (CHR ''a'') (CHR ''f'') c then Some (ord c - ord (CHR ''a'') + 10)
      else if in_range (CHR ''A'') (CHR ''F'') c then Some (ord c - ord (CHR ''A'') + 10)
      else None)"

fun chunk_size_loop :: "string \<Rightarrow> nat \<Rightarrow> bool \<Rightarrow> int + nat \<times> bool \<times> string" where
  \<comment> \<open>the size, \<open>valid\<close> and the bytes from \<open>ext_start\<close> on\<close>
  "chunk_size_loop [] chunk_sz valid = Inr (chunk_sz, valid, [])"
| "chunk_size_loop (c # cs) chunk_sz valid =
     (if c = CHR '';'' then Inr (chunk_sz, valid, c # cs)
      else case chunk_digit c of
        None \<Rightarrow> Inl 400
      | Some d \<Rightarrow>
          if chunk_sz > MAX_ALLOWED_CHUNK div 16 then Inl 413
          else let next_val = chunk_sz * 16 + d in
               if next_val > MAX_ALLOWED_CHUNK then Inl 413
               else chunk_size_loop cs next_val True)"

definition chunk_size_line :: "string \<Rightarrow> int + nat" where
  "chunk_size_line hex_line =
     (if hex_line = [] then Inl 400
      else rbind (chunk_size_loop hex_line 0 False) (\<lambda>(chunk_sz, valid, ext).
        if \<not> valid then Inl 400
        else if list_ex (\<lambda>uc. (ord uc < 0x20 \<and> ord uc \<noteq> 0x09) \<or> ord uc = 0x7F) ext then Inl 400
        else Inr chunk_sz))"

section \<open>The chunked decoder\<close>

datatype ctl = Return | Continue | Fall   \<comment> \<open>how a part of the loop body ends\<close>

definition chunk_trailer :: "connection \<Rightarrow> (failure \<times> connection) + ctl \<times> connection" where
  "chunk_trailer c =
     (if \<not> chunk_trailing (request c) then Inr (Fall, c)
      else if Buffer_size (read_buffer c) < 2 then Inr (Return, c)
      else rbind (with_state c (Buffer_consume (read_buffer c) 2)) (\<lambda>rb.
        let c = map_request (\<lambda>r. r\<lparr>chunk_trailing := False\<rparr>) (c\<lparr>read_buffer := rb\<rparr>) in
        if chunk_done (request c)
        then Inr (Return, map_request (\<lambda>r. r\<lparr>parse_state := PSTATE_COMPLETE\<rparr>) c)
        else Inr (Fall, map_request (\<lambda>r. r\<lparr>chunk_size := 0\<rparr>) c)))"

definition chunk_header :: "connection \<Rightarrow> (failure \<times> connection) + ctl \<times> connection" where
  "chunk_header c =
     (if chunk_size (request c) \<noteq> 0 then Inr (Fall, c)
      else rbind (with_state c (Buffer_data (read_buffer c))) (\<lambda>data.
        case find_crlf data of
          None \<Rightarrow> Inr (Return, c)
        | Some crlf_pos \<Rightarrow>
            rbind (with_state c (Buffer_consume (read_buffer c) (crlf_pos + 2))) (\<lambda>rb.
              let c = c\<lparr>read_buffer := rb\<rparr> in
              case chunk_size_line (take crlf_pos data) of
                Inl code \<Rightarrow> Inr (Return, map_request (fail_req code) c)
              | Inr chunk_sz \<Rightarrow>
                  if chunk_sz = 0
                  then Inr (Continue, map_request (\<lambda>r. r\<lparr>chunk_done := True, chunk_trailing := True\<rparr>) c)
                  else Inr (Fall, map_request (\<lambda>r. r\<lparr>chunk_size := chunk_sz\<rparr>) c))))"

definition chunk_data :: "connection \<Rightarrow> (failure \<times> connection) + ctl \<times> connection" where
  "chunk_data c =
     (let r = request c; buf = read_buffer c in
      if Buffer_size buf = 0 then Inr (Return, c)
      else
        let to_read = (if chunk_size r < Buffer_size buf then chunk_size r else Buffer_size buf) in
        if too_large r to_read then Inr (Return, map_request (fail_req 413) c)
        else rbind (move_to_body to_read c) (\<lambda>c.
          let c = map_request (\<lambda>r. r\<lparr>chunk_size := sz_sub (chunk_size r) to_read\<rparr>) c in
          Inr (Continue,
            if chunk_size (request c) = 0
            then map_request (\<lambda>r. r\<lparr>chunk_trailing := True, chunk_done := False\<rparr>) c else c)))"

definition chunk_then :: "(connection \<Rightarrow> (failure \<times> connection) + ctl \<times> connection)
    \<Rightarrow> (connection \<Rightarrow> (failure \<times> connection) + ctl \<times> connection)
    \<Rightarrow> connection \<Rightarrow> (failure \<times> connection) + ctl \<times> connection" where
  \<comment> \<open>run the second part unless the first one returned or continued\<close>
  "chunk_then f g c = rbind (f c) (\<lambda>(k, c). if k = Fall then g c else Inr (k, c))"

definition chunk_iteration :: "connection \<Rightarrow> (failure \<times> connection) + ctl \<times> connection" where
  "chunk_iteration = chunk_then chunk_trailer (chunk_then chunk_header chunk_data)"

partial_function (option) parseChunked :: "connection \<Rightarrow> ((failure \<times> connection) + connection) option" where
  "parseChunked c =
     (case chunk_iteration c of
        Inl e \<Rightarrow> Some (Inl e)
      | Inr (Return, c') \<Rightarrow> Some (Inr c')
      | Inr (Continue, c') \<Rightarrow> parseChunked c'
      | Inr (Fall, c') \<Rightarrow> parseChunked c')"

section \<open>Specification of the decoder\<close>

record decoder =
  d_size :: nat
  d_trailing :: bool
  d_done :: bool
  d_body :: string

definition chunk_turn :: "nat \<Rightarrow> decoder \<Rightarrow> string \<Rightarrow> decoder turn" where
  "chunk_turn limit d data =
     (if d_trailing d then
        (if length data < 2 then Wait
         else if d_done d then Stop (d\<lparr>d_trailing := False\<rparr>) 2
         else Next (d\<lparr>d_trailing := False, d_size := 0\<rparr>) 2)
      else if d_size d = 0 then
        (case find_crlf data of
           None \<Rightarrow> Wait
         | Some p \<Rightarrow>
             case chunk_size_line (take p data) of
               Inl e \<Rightarrow> Fail e
             | Inr 0 \<Rightarrow> Next (d\<lparr>d_done := True, d_trailing := True\<rparr>) (p + 2)
             | Inr n \<Rightarrow> Next (d\<lparr>d_size := n\<rparr>) (p + 2))
      else if data = [] then Wait
      else let n = min (d_size d) (length data) in
        if length (d_body d) + n > limit then Fail 413
        else let d = d\<lparr>d_body := d_body d @ take n data, d_size := d_size d - n\<rparr> in
          Next (if d_size d = 0 then d\<lparr>d_trailing := True, d_done := False\<rparr> else d) n)"

text \<open>Only the turn that copies data depends on how much has arrived, and it can go on.\<close>

lemma chunk_turn_stable:
  assumes "chunk_turn limit d xs \<noteq> Wait" "d_trailing d \<or> d_size d = 0 \<or> d_size d \<le> length xs"
  shows "chunk_turn limit d (xs @ ys) = chunk_turn limit d xs"
proof -
  consider "d_trailing d" "2 \<le> length xs" | p where "\<not> d_trailing d" "d_size d = 0" "find_crlf xs = Some p"
    | "\<not> d_trailing d" "0 < d_size d" "d_size d \<le> length xs"
    using assms by (auto simp: chunk_turn_def split: if_splits option.splits)
  then show ?thesis
  proof cases
    case (2 p)
    with find_crlf_SomeD [OF 2(3)] show ?thesis by (simp add: chunk_turn_def find_crlf_append)
  next
    case 3
    then have "xs \<noteq> []" by auto
    with 3 show ?thesis by (simp add: chunk_turn_def Let_def min_def)
  qed (simp add: chunk_turn_def)
qed

lemma chunk_turn_partial:
  assumes "\<not> d_trailing d" "length xs < d_size d" "xs \<noteq> []"
  shows "chunk_turn limit d xs =
    (if length (d_body d) + length xs > limit then Fail 413
     else Next (d\<lparr>d_body := d_body d @ xs, d_size := d_size d - length xs\<rparr>) (length xs))"
  using assms by (auto simp: chunk_turn_def Let_def min_def)

lemma chunk_turn_goes_on:
  assumes "\<not> d_trailing d" "length xs < d_size d" "length (d_body d) + length xs \<le> limit" "ys \<noteq> []"
  shows "chunk_turn limit (d\<lparr>d_body := d_body d @ xs, d_size := d_size d - length xs\<rparr>) ys \<noteq> Wait
    \<and> chunk_turn limit d (xs @ ys) = shift_turn (length xs)
        (chunk_turn limit (d\<lparr>d_body := d_body d @ xs, d_size := d_size d - length xs\<rparr>) ys)"
proof -
  have "min (d_size d) (length xs + length ys) = length xs + min (d_size d - length xs) (length ys)"
    using assms(2) by linarith
  with assms show ?thesis by (auto simp: chunk_turn_def Let_def add.assoc)
qed

lemma chunk_turn_Next: "chunk_turn limit d xs = Next d' n \<Longrightarrow> 0 < n \<and> n \<le> length xs"
  by (auto simp: chunk_turn_def Let_def dest: find_crlf_SomeD split: if_splits option.splits sum.splits nat.splits)

interpretation chunk: incremental "chunk_turn limit" for limit
proof
  fix d d' :: decoder and xs ys :: string and n :: nat and e :: int
  show "chunk_turn limit d xs = Next d' n \<Longrightarrow> 0 < n \<and> n \<le> length xs" by (rule chunk_turn_Next)
  show "chunk_turn limit d [] = Wait" by (simp add: chunk_turn_def)
  show "(\<forall>ys. chunk_turn limit d (xs @ ys) = Next d' n) \<or>
      n = length xs \<and> (\<forall>ys. ys \<noteq> [] \<longrightarrow> chunk_turn limit d' ys \<noteq> Wait
        \<and> chunk_turn limit d (xs @ ys) = shift_turn n (chunk_turn limit d' ys))"
    if turn: "chunk_turn limit d xs = Next d' n"
  proof (cases "d_trailing d \<or> d_size d = 0 \<or> d_size d \<le> length xs")
    case True
    with chunk_turn_stable [of limit d xs] turn show ?thesis by auto
  next
    case False
    moreover from this have "xs \<noteq> []" using turn by (auto simp: chunk_turn_def)
    ultimately show ?thesis
      using turn chunk_turn_partial [of d xs limit] chunk_turn_goes_on [of d xs limit]
      by (auto split: if_splits)
  qed
  show "n \<le> length xs \<and> chunk_turn limit d (xs @ ys) = Stop d' n" if "chunk_turn limit d xs = Stop d' n"
  proof -
    have "d_trailing d" "n \<le> length xs"
      using that by (auto simp: chunk_turn_def Let_def split: if_splits option.splits sum.splits nat.splits)
    with that chunk_turn_stable [of limit d xs ys] show ?thesis by simp
  qed
  show "chunk_turn limit d (xs @ ys) = Fail e" if fail: "chunk_turn limit d xs = Fail e"
  proof (cases "d_trailing d \<or> d_size d = 0 \<or> d_size d \<le> length xs")
    case True
    with fail chunk_turn_stable [of limit d xs ys] show ?thesis by simp
  next
    case False
    moreover from this have "xs \<noteq> []" using fail by (auto simp: chunk_turn_def)
    ultimately show ?thesis
      using fail chunk_turn_partial [of d xs limit]
      by (auto simp: chunk_turn_def Let_def min_def split: if_splits)
  qed
qed

section \<open>The code refines the decoder\<close>

text \<open>
  A request to a CGI location moves its body to a file while it is received, and empties
  the body buffer; \<open>written\<close> keeps counting.  The decoder sees the bytes that are still in
  the buffer, and a limit lowered by what has been moved.
\<close>

definition spooled :: "http_request \<Rightarrow> nat" where
  \<comment> \<open>bytes of the body that are no longer in the buffer\<close>
  "spooled r = written r - length (content (body r))"

definition body_inv :: "nat \<Rightarrow> connection \<Rightarrow> bool" where
  "body_inv limit c \<longleftrightarrow>
     (let r = request c in
      buf_ok (read_buffer c) \<and> buf_ok (body r) \<and> cmbs (body r) = max_body_size r
      \<and> spooled r + limit = max_body_size r \<and> max_body_size r < 2 ^ 61
      \<and> length (content (body r)) \<le> written r \<and> length (content (body r)) \<le> limit)"

definition decoder_of :: "http_request \<Rightarrow> decoder" where
  "decoder_of r = \<lparr>d_size = chunk_size r, d_trailing = chunk_trailing r, d_done = chunk_done r,
     d_body = content (body r)\<rparr>"

definition body_frame :: "connection \<Rightarrow> connection \<Rightarrow> bool" where
  \<comment> \<open>only the read buffer and the fields of the decoder differ\<close>
  "body_frame c c' \<longleftrightarrow>
     (\<exists>rb b w s t dn. c' = c\<lparr>read_buffer := rb,
        request := (request c)\<lparr>body := b, written := w, chunk_size := s, chunk_trailing := t, chunk_done := dn\<rparr>\<rparr>)"

definition moved :: "nat \<Rightarrow> connection \<Rightarrow> connection \<Rightarrow> decoder \<Rightarrow> string \<Rightarrow> bool" where
  "moved limit c c' d rest \<longleftrightarrow>
     body_inv limit c' \<and> decoder_of (request c') = d \<and> content (read_buffer c') = rest \<and> body_frame c c'
     \<and> cmbs (read_buffer c') = cmbs (read_buffer c)"

definition complete :: "connection \<Rightarrow> connection" where
  "complete c = map_request (\<lambda>r. r\<lparr>parse_state := PSTATE_COMPLETE\<rparr>) c"

definition final :: "nat \<Rightarrow> connection \<Rightarrow> decoder verdict \<Rightarrow> connection \<Rightarrow> bool" where
  "final limit c v res \<longleftrightarrow>
     (case v of
        Waiting d rest \<Rightarrow> moved limit c res d rest
      | Stopped d rest \<Rightarrow> \<exists>c'. moved limit c c' d rest \<and> res = complete c'
      | Failed e \<Rightarrow> \<exists>c' d rest. moved limit c c' d rest \<and> res = map_request (fail_req e) c')"

lemma body_frame_refl [simp]: "body_frame c c"
  unfolding body_frame_def
  by (rule exI [of _ "read_buffer c"], rule exI [of _ "body (request c)"], rule exI [of _ "written (request c)"],
      rule exI [of _ "chunk_size (request c)"], rule exI [of _ "chunk_trailing (request c)"],
      rule exI [of _ "chunk_done (request c)"]) simp

lemma body_frame_trans: "body_frame a b \<Longrightarrow> body_frame b c \<Longrightarrow> body_frame a c"
  by (clarsimp simp: body_frame_def) (intro exI, rule refl)

lemma moved_refl: "body_inv limit c \<Longrightarrow> moved limit c c (decoder_of (request c)) (content (read_buffer c))"
  by (simp add: moved_def)

lemma moved_trans: "moved limit a b d xs \<Longrightarrow> moved limit b c d' xs' \<Longrightarrow> moved limit a c d' xs'"
  by (auto simp: moved_def intro: body_frame_trans)

lemma final_trans:
  assumes "moved limit a b d xs" "final limit b v res"
  shows "final limit a v res"
  using assms(2) moved_trans [OF assms(1)] by (cases v) (simp_all add: final_def, blast+)

lemma move_to_body_ok:
  assumes "body_inv limit c" "n \<le> length (content (read_buffer c))"
    and "length (content (body (request c))) + n \<le> limit"
  obtains b rb where
    "move_to_body n c = Inr (c\<lparr>read_buffer := rb,
       request := (request c)\<lparr>body := b, written := written (request c) + n\<rparr>\<rparr>)"
    "content b = content (body (request c)) @ take n (content (read_buffer c))"
    "content rb = drop n (content (read_buffer c))" "buf_ok b" "buf_ok rb" "cmbs b = max_body_size (request c)"
    "cmbs rb = cmbs (read_buffer c)"
proof -
  let ?b = "body (request c)" and ?xs = "content (read_buffer c)"
  have inv: "buf_ok (read_buffer c)" "buf_ok ?b" "cmbs ?b = max_body_size (request c)" "cmbs ?b < 2 ^ 61"
      "spooled (request c) + limit = max_body_size (request c)"
      "written (request c) = spooled (request c) + length (content ?b)"
    using assms by (auto simp: body_inv_def spooled_def Let_def)
  have "length (content ?b) + length (take n ?xs) \<le> cmbs ?b"
    using assms by (simp add: body_inv_def Let_def)
  then obtain b where b1: "Buffer_append ?b (take n ?xs) = Inr b"
    using append_total [OF inv(2,4)] by blast
  then have b: "content b = content ?b @ take n ?xs" "buf_ok b" "cmbs b = max_body_size (request c)"
    using append_InrD [OF inv(2) b1] inv(3) by simp_all
  obtain rb where rb: "Buffer_consume (read_buffer c) n = Inr rb" "content rb = drop n ?xs" "buf_ok rb"
    "cmbs rb = cmbs (read_buffer c)"
    using inv(1) by (rule consume_ok)
  have "sz_add (written (request c)) n = written (request c) + n"
    using inv(3-6) assms(3) by (intro sz_add_small) simp
  with inv(1) b1 rb(1) have "move_to_body n c = Inr (c\<lparr>read_buffer := rb,
       request := (request c)\<lparr>body := b, written := written (request c) + n\<rparr>\<rparr>)"
    by (simp add: move_to_body_def buf_ok_data map_request_def Let_def)
  with b rb that show thesis by blast
qed

definition stage_ok :: "nat \<Rightarrow> (connection \<Rightarrow> (failure \<times> connection) + ctl \<times> connection) \<Rightarrow> connection \<Rightarrow> (ctl \<Rightarrow> decoder \<Rightarrow> bool) \<Rightarrow> bool" where
  \<comment> \<open>the stage ends the parse with the specified verdict, or makes progress and leaves a state in \<open>Q\<close>\<close>
  "stage_ok limit f c Q \<longleftrightarrow>
     (let run = run_parser (chunk_turn limit) in
      \<exists>k c'. f c = Inr (k, c') \<and>
       (if k = Return then final limit c (run (decoder_of (request c)) (content (read_buffer c))) c'
        else \<exists>d xs. moved limit c c' d xs \<and> Q k d
          \<and> run (decoder_of (request c)) (content (read_buffer c)) = run d xs
          \<and> length xs < length (content (read_buffer c))))"

lemma stage_Wait:
  assumes "body_inv limit c" "f c = Inr (Return, c)" "chunk_turn limit (decoder_of (request c)) (content (read_buffer c)) = Wait"
  shows "stage_ok limit f c Q"
  using assms moved_refl [OF assms(1)]
  by (auto simp: stage_ok_def Let_def final_def run_parser.simps [of "chunk_turn limit" "decoder_of (request c)"])

lemma stage_Fail:
  assumes "f c = Inr (Return, map_request (fail_req e) c')" "moved limit c c' d xs"
    "chunk_turn limit (decoder_of (request c)) (content (read_buffer c)) = Fail e"
  shows "stage_ok limit f c Q"
  using assms
  by (auto simp: stage_ok_def Let_def final_def run_parser.simps [of "chunk_turn limit" "decoder_of (request c)"])

lemma stage_Stop:
  assumes "f c = Inr (Return, complete c')" "moved limit c c' d (drop n (content (read_buffer c)))"
    "chunk_turn limit (decoder_of (request c)) (content (read_buffer c)) = Stop d n"
  shows "stage_ok limit f c Q"
  using assms
  by (auto simp: stage_ok_def Let_def final_def run_parser.simps [of "chunk_turn limit" "decoder_of (request c)"])

lemma stage_Next:
  assumes "f c = Inr (k, c')" "k \<noteq> Return" "moved limit c c' d (drop n (content (read_buffer c)))"
    "chunk_turn limit (decoder_of (request c)) (content (read_buffer c)) = Next d n" "Q k d"
  shows "stage_ok limit f c Q"
proof -
  have "length (drop n (content (read_buffer c))) < length (content (read_buffer c))"
    using chunk_turn_Next [OF assms(4)] by auto
  with assms(2,3,5) chunk.run_Next [OF assms(4)]
  have "\<exists>d xs. moved limit c c' d xs \<and> Q k d
      \<and> run_parser (chunk_turn limit) (decoder_of (request c)) (content (read_buffer c)) = run_parser (chunk_turn limit) d xs
      \<and> length xs < length (content (read_buffer c))" by blast
  with assms(1,2) show ?thesis by (simp add: stage_ok_def Let_def)
qed

lemma moved_update:
  assumes "body_inv limit c" "buf_ok rb" "cmbs rb = cmbs (read_buffer c)"
  shows "moved limit c (map_request (\<lambda>r. r\<lparr>chunk_size := s, chunk_trailing := t, chunk_done := dn\<rparr>) (c\<lparr>read_buffer := rb\<rparr>))
     ((decoder_of (request c))\<lparr>d_size := s, d_trailing := t, d_done := dn\<rparr>) (content rb)"
proof -
  have "body_frame c (map_request (\<lambda>r. r\<lparr>chunk_size := s, chunk_trailing := t, chunk_done := dn\<rparr>) (c\<lparr>read_buffer := rb\<rparr>))"
    unfolding body_frame_def
    by (rule exI [of _ rb], rule exI [of _ "body (request c)"], rule exI [of _ "written (request c)"],
        rule exI [of _ s], rule exI [of _ t], rule exI [of _ dn]) (simp add: map_request_def)
  with assms show ?thesis
    by (simp add: moved_def decoder_of_def body_inv_def spooled_def Let_def)
qed

lemma chunk_trailer_stage:
  assumes "body_inv limit c"
  shows "if chunk_trailing (request c)
    then stage_ok limit chunk_trailer c (\<lambda>k d. k = Fall \<and> \<not> d_trailing d)
    else chunk_trailer c = Inr (Fall, c)"
proof (cases "chunk_trailing (request c)")
  case tr: True
  let ?xs = "content (read_buffer c)" and ?d = "decoder_of (request c)"
  have rb_ok: "buf_ok (read_buffer c)" using assms by (simp add: body_inv_def Let_def)
  have d: "d_trailing ?d" "d_done ?d = chunk_done (request c)" using tr by (simp_all add: decoder_of_def)
  have "stage_ok limit chunk_trailer c (\<lambda>k d. k = Fall \<and> \<not> d_trailing d)"
  proof (cases "length ?xs < 2")
    case True
    with tr rb_ok assms d show ?thesis
      by (intro stage_Wait) (simp_all add: chunk_trailer_def buf_ok_size chunk_turn_def)
  next
    case False
    obtain rb where rb: "Buffer_consume (read_buffer c) 2 = Inr rb" "content rb = drop 2 ?xs" "buf_ok rb"
      "cmbs rb = cmbs (read_buffer c)"
      using rb_ok by (rule consume_ok)
    show ?thesis
    proof (cases "chunk_done (request c)")
      case True
      let ?c' = "map_request (\<lambda>r. r\<lparr>chunk_size := chunk_size (request c), chunk_trailing := False, chunk_done := True\<rparr>) (c\<lparr>read_buffer := rb\<rparr>)"
      have "chunk_trailer c = Inr (Return, complete ?c')"
        using tr False rb(1) rb_ok True
        by (simp add: chunk_trailer_def buf_ok_size complete_def map_request_def Let_def)
      moreover have "moved limit c ?c' (?d\<lparr>d_trailing := False\<rparr>) (drop 2 ?xs)"
        using moved_update [OF assms rb(3,4), where s = "chunk_size (request c)" and t = False and dn = True] rb(2) True
        by (simp add: decoder_of_def)
      ultimately show ?thesis
        by (rule stage_Stop) (use False d True in \<open>simp add: chunk_turn_def\<close>)
    next
      case ndone: False
      let ?c' = "map_request (\<lambda>r. r\<lparr>chunk_size := 0, chunk_trailing := False, chunk_done := False\<rparr>) (c\<lparr>read_buffer := rb\<rparr>)"
      have "chunk_trailer c = Inr (Fall, ?c')"
        using tr False rb(1) rb_ok ndone
        by (simp add: chunk_trailer_def buf_ok_size map_request_def Let_def)
      moreover have "moved limit c ?c' (?d\<lparr>d_trailing := False, d_size := 0\<rparr>) (drop 2 ?xs)"
        using moved_update [OF assms rb(3,4), where s = 0 and t = False and dn = False] rb(2) ndone
        by (simp add: decoder_of_def)
      moreover have "chunk_turn limit ?d ?xs = Next (?d\<lparr>d_trailing := False, d_size := 0\<rparr>) 2"
        using False d ndone by (simp add: chunk_turn_def)
      ultimately show ?thesis by (auto intro: stage_Next)
    qed
  qed
  with tr show ?thesis by simp
qed (simp add: chunk_trailer_def)

lemma chunk_header_stage:
  assumes "body_inv limit c" "\<not> chunk_trailing (request c)"
  shows "if chunk_size (request c) = 0
    then stage_ok limit chunk_header c (\<lambda>k d. k = Continue \<or> (k = Fall \<and> \<not> d_trailing d \<and> d_size d \<noteq> 0))
    else chunk_header c = Inr (Fall, c)"
proof (cases "chunk_size (request c) = 0")
  case sz: True
  let ?xs = "content (read_buffer c)" and ?d = "decoder_of (request c)"
  let ?Q = "\<lambda>k d. k = Continue \<or> (k = Fall \<and> \<not> d_trailing d \<and> d_size d \<noteq> 0)"
  have rb_ok: "buf_ok (read_buffer c)" using assms by (simp add: body_inv_def Let_def)
  have d: "\<not> d_trailing ?d" "d_size ?d = 0" using sz assms(2) by (simp_all add: decoder_of_def)
  have "stage_ok limit chunk_header c ?Q"
  proof (cases "find_crlf ?xs")
    case None
    with sz rb_ok assms d show ?thesis
      by (intro stage_Wait) (simp_all add: chunk_header_def buf_ok_data chunk_turn_def)
  next
    case (Some p)
    obtain rb where rb: "Buffer_consume (read_buffer c) (p + 2) = Inr rb" "content rb = drop (p + 2) ?xs" "buf_ok rb"
      "cmbs rb = cmbs (read_buffer c)"
      using rb_ok by (rule consume_ok)
    let ?upd = "\<lambda>s t dn. map_request (\<lambda>r. r\<lparr>chunk_size := s, chunk_trailing := t, chunk_done := dn\<rparr>) (c\<lparr>read_buffer := rb\<rparr>)"
    note upd = moved_update [OF assms(1) rb(3,4), unfolded rb(2)]
    have same: "c\<lparr>read_buffer := rb\<rparr> = ?upd 0 False (chunk_done (request c))"
      using sz assms(2) by (simp add: map_request_def)
    have head: "chunk_header c = (let c = c\<lparr>read_buffer := rb\<rparr> in case chunk_size_line (take p ?xs) of
          Inl code \<Rightarrow> Inr (Return, map_request (fail_req code) c)
        | Inr chunk_sz \<Rightarrow>
            if chunk_sz = 0 then Inr (Continue, map_request (\<lambda>r. r\<lparr>chunk_done := True, chunk_trailing := True\<rparr>) c)
            else Inr (Fall, map_request (\<lambda>r. r\<lparr>chunk_size := chunk_sz\<rparr>) c))"
      using sz rb_ok rb(1) Some by (simp add: chunk_header_def buf_ok_data)
    show ?thesis
    proof (cases "chunk_size_line (take p ?xs)")
      case (Inl e)
      show ?thesis
      proof (rule stage_Fail)
        show "chunk_header c = Inr (Return, map_request (fail_req e) (?upd 0 False (chunk_done (request c))))"
          unfolding head Let_def Inl sum.case by (subst same) (rule refl)
        show "chunk_turn limit ?d ?xs = Fail e" using d Some Inl by (simp add: chunk_turn_def)
      qed (rule upd)
    next
      case (Inr n)
      show ?thesis
      proof (cases "n = 0")
        case True
        show ?thesis
        proof (rule stage_Next)
          show "chunk_header c = Inr (Continue, ?upd 0 True True)"
            using True Inr sz by (simp add: head map_request_def)
          show "moved limit c (?upd 0 True True) (?d\<lparr>d_done := True, d_trailing := True\<rparr>) (drop (p + 2) ?xs)"
            using upd [where s = 0 and t = True and dn = True] d sz by (simp add: decoder_of_def)
          show "chunk_turn limit ?d ?xs = Next (?d\<lparr>d_done := True, d_trailing := True\<rparr>) (p + 2)"
            using d Some Inr True by (simp add: chunk_turn_def)
        qed simp_all
      next
        case False
        show ?thesis
        proof (rule stage_Next)
          show "chunk_header c = Inr (Fall, ?upd n False (chunk_done (request c)))"
            using False Inr assms(2) by (simp add: head map_request_def)
          show "moved limit c (?upd n False (chunk_done (request c))) (?d\<lparr>d_size := n\<rparr>) (drop (p + 2) ?xs)"
            using upd [where s = n and t = False and dn = "chunk_done (request c)"] d assms(2) by (simp add: decoder_of_def)
          show "chunk_turn limit ?d ?xs = Next (?d\<lparr>d_size := n\<rparr>) (p + 2)"
            using d Some Inr False by (auto simp: chunk_turn_def split: nat.split)
        qed (use d False in simp_all)
      qed
    qed
  qed
  with sz show ?thesis by simp
qed (simp add: chunk_header_def)

lemma chunk_data_stage:
  assumes "body_inv limit c" "\<not> chunk_trailing (request c)" "chunk_size (request c) \<noteq> 0"
  shows "stage_ok limit chunk_data c (\<lambda>k d. k = Continue)"
proof -
  let ?xs = "content (read_buffer c)" and ?r = "request c"
  define d where "d = decoder_of ?r"
  have rb_ok: "buf_ok (read_buffer c)" "spooled ?r + limit = max_body_size ?r" "written ?r = spooled ?r + length (content (body ?r))"
    "max_body_size ?r < 2 ^ 61" "length (content (body ?r)) \<le> limit" "length ?xs \<le> max_size"
    using assms(1) by (auto simp: body_inv_def spooled_def Let_def buf_ok_def content_def)
  have d: "\<not> d_trailing d" "d_size d = chunk_size ?r" "d_body d = content (body ?r)"
    using assms(2) by (simp_all add: d_def decoder_of_def)
  show ?thesis
  proof (cases "?xs = []")
    case True
    with rb_ok assms d show ?thesis
      by (intro stage_Wait) (simp_all add: chunk_data_def Let_def buf_ok_size chunk_turn_def flip: d_def)
  next
    case ne: False
    define n where "n = min (chunk_size ?r) (length ?xs)"
    have n: "(if chunk_size ?r < Buffer_size (read_buffer c) then chunk_size ?r else Buffer_size (read_buffer c)) = n"
      "n \<le> chunk_size ?r" "n \<le> length ?xs"
      using rb_ok(1) by (simp_all add: n_def buf_ok_size)
    have "sz_add (written ?r) n = written ?r + n"
      using rb_ok n(3) by (intro sz_add_small) (simp add: max_size_def)
    then have big: "too_large ?r n \<longleftrightarrow> length (d_body d) + n > limit"
      using rb_ok(2,3) d(3) unfolding too_large_def by auto
    have turn: "chunk_turn limit d ?xs = (if length (d_body d) + n > limit then Fail 413
        else let d = d\<lparr>d_body := d_body d @ take n ?xs, d_size := d_size d - n\<rparr> in
          Next (if d_size d = 0 then d\<lparr>d_trailing := True, d_done := False\<rparr> else d) n)"
      using ne d assms(3) by (simp add: chunk_turn_def n_def Let_def)
    show ?thesis
    proof (cases "too_large ?r n")
      case True
      show ?thesis
      proof (rule stage_Fail)
        show "chunk_data c = Inr (Return, map_request (fail_req 413) c)"
          using True ne rb_ok(1) n(1) by (simp add: chunk_data_def Let_def buf_ok_size)
        show "moved limit c c (decoder_of ?r) ?xs" using assms(1) by (rule moved_refl)
        show "chunk_turn limit (decoder_of ?r) ?xs = Fail 413"
          using True big turn by (simp add: d_def)
      qed
    next
      case False
      then have fits: "length (content (body ?r)) + n \<le> limit" using big d(3) by simp
      obtain b rb where m: "move_to_body n c = Inr (c\<lparr>read_buffer := rb,
           request := ?r\<lparr>body := b, written := written ?r + n\<rparr>\<rparr>)"
        "content b = content (body ?r) @ take n ?xs" "content rb = drop n ?xs" "buf_ok b" "buf_ok rb"
        "cmbs b = max_body_size ?r" "cmbs rb = cmbs (read_buffer c)"
        using assms(1) n(3) fits by (rule move_to_body_ok)
      define z where "z \<longleftrightarrow> chunk_size ?r - n = 0"
      define c' where "c' = c\<lparr>read_buffer := rb, request := ?r\<lparr>body := b, written := written ?r + n,
          chunk_size := chunk_size ?r - n, chunk_trailing := (if z then True else chunk_trailing ?r),
          chunk_done := (if z then False else chunk_done ?r)\<rparr>\<rparr>"
      have "chunk_data c = Inr (Continue, c')"
        using False ne rb_ok(1) n m(1)
        by (simp add: chunk_data_def Let_def buf_ok_size map_request_def c'_def z_def)
      moreover have "moved limit c c' (let d = d\<lparr>d_body := d_body d @ take n ?xs, d_size := d_size d - n\<rparr> in
          if d_size d = 0 then d\<lparr>d_trailing := True, d_done := False\<rparr> else d) (drop n ?xs)"
      proof -
        have "body_frame c c'" unfolding body_frame_def c'_def by (intro exI) (rule refl)
        moreover have "body_inv limit c'"
        proof -
          have len: "length (content b) = length (content (body ?r)) + n" using m(2) n(3) by simp
          have le: "length (content (body ?r)) \<le> written ?r" using rb_ok(3) by simp
          have sp: "spooled (request c') = spooled ?r" using len by (simp add: spooled_def c'_def)
          show ?thesis
            unfolding body_inv_def Let_def sp using m(4-6) rb_ok(2,4) fits len le by (simp add: c'_def)
        qed
        ultimately show ?thesis using m d by (simp add: moved_def decoder_of_def c'_def z_def d_def Let_def)
      qed
      moreover have "chunk_turn limit (decoder_of ?r) ?xs = Next (let d = d\<lparr>d_body := d_body d @ take n ?xs, d_size := d_size d - n\<rparr> in
          if d_size d = 0 then d\<lparr>d_trailing := True, d_done := False\<rparr> else d) n"
        using False big turn by (simp add: d_def Let_def)
      ultimately show ?thesis by (intro stage_Next) simp_all
    qed
  qed
qed

text \<open>Stages compose, and an iteration ends the parse or makes progress.\<close>

lemma stage_return_or_next:
  assumes "stage_ok limit f c Q"
  obtains c' where "f c = Inr (Return, c')"
      "final limit c (run_parser (chunk_turn limit) (decoder_of (request c)) (content (read_buffer c))) c'"
  | k c' where "f c = Inr (k, c')" "k \<noteq> Return" "Q k (decoder_of (request c'))"
      "moved limit c c' (decoder_of (request c')) (content (read_buffer c'))"
      "run_parser (chunk_turn limit) (decoder_of (request c)) (content (read_buffer c))
        = run_parser (chunk_turn limit) (decoder_of (request c')) (content (read_buffer c'))"
      "length (content (read_buffer c')) < length (content (read_buffer c))"
proof -
  obtain k c' where f: "f c = Inr (k, c')" and
    k: "if k = Return then final limit c (run_parser (chunk_turn limit) (decoder_of (request c)) (content (read_buffer c))) c'
        else \<exists>d xs. moved limit c c' d xs \<and> Q k d
          \<and> run_parser (chunk_turn limit) (decoder_of (request c)) (content (read_buffer c)) = run_parser (chunk_turn limit) d xs
          \<and> length xs < length (content (read_buffer c))"
    using assms by (auto simp: stage_ok_def Let_def)
  show thesis
  proof (cases "k = Return")
    case True
    with f k that(1) show thesis by simp
  next
    case False
    with k obtain d xs where *: "moved limit c c' d xs" "Q k d"
      "run_parser (chunk_turn limit) (decoder_of (request c)) (content (read_buffer c)) = run_parser (chunk_turn limit) d xs"
      "length xs < length (content (read_buffer c))" by auto
    then have "d = decoder_of (request c')" "xs = content (read_buffer c')" by (simp_all add: moved_def)
    with * False f that(2) show thesis by simp
  qed
qed

lemma stage_weaken:
  assumes "moved limit c c1 (decoder_of (request c1)) (content (read_buffer c1))" "g c1 = f c"
    and "run_parser (chunk_turn limit) (decoder_of (request c)) (content (read_buffer c))
        = run_parser (chunk_turn limit) (decoder_of (request c1)) (content (read_buffer c1))"
    and "length (content (read_buffer c1)) \<le> length (content (read_buffer c))"
    and "stage_ok limit g c1 Q"
  shows "stage_ok limit f c Q"
  using assms(5)
proof (cases rule: stage_return_or_next)
  case (1 c')
  then show ?thesis using assms(2,3) final_trans [OF assms(1)] by (auto simp: stage_ok_def Let_def)
next
  case (2 k c')
  have "moved limit c c' (decoder_of (request c')) (content (read_buffer c'))"
    using assms(1) 2(4) by (rule moved_trans)
  moreover have "length (content (read_buffer c')) < length (content (read_buffer c))" using 2(6) assms(4) by simp
  ultimately have "\<exists>d xs. moved limit c c' d xs \<and> Q k d
      \<and> run_parser (chunk_turn limit) (decoder_of (request c)) (content (read_buffer c)) = run_parser (chunk_turn limit) d xs
      \<and> length xs < length (content (read_buffer c))"
    using 2(3,5) assms(3) by metis
  then show ?thesis using 2(1,2) assms(2) by (simp add: stage_ok_def Let_def)
qed

lemma stage_then:
  assumes "stage_ok limit f c Q"
    and "\<And>c'. body_inv limit c' \<Longrightarrow> Q Fall (decoder_of (request c')) \<Longrightarrow> stage_ok limit g c' R"
    and "\<And>k d. k \<noteq> Fall \<Longrightarrow> Q k d \<Longrightarrow> R k d"
  shows "stage_ok limit (chunk_then f g) c R"
  using assms(1)
proof (cases rule: stage_return_or_next)
  case (1 c')
  then show ?thesis by (simp add: stage_ok_def Let_def chunk_then_def)
next
  case (2 k c')
  show ?thesis
  proof (cases "k = Fall")
    case True
    then have "body_inv limit c'" "chunk_then f g c = g c'"
      using 2(1,4) by (simp_all add: moved_def chunk_then_def)
    with assms(2) [of c'] 2 True show ?thesis by (intro stage_weaken [of limit c c' g "chunk_then f g"]) simp_all
  next
    case False
    with assms(3) 2 have "\<exists>d xs. moved limit c c' d xs \<and> R k d
      \<and> run_parser (chunk_turn limit) (decoder_of (request c)) (content (read_buffer c)) = run_parser (chunk_turn limit) d xs
      \<and> length xs < length (content (read_buffer c))" by blast
    with False 2(1,2) show ?thesis by (simp add: stage_ok_def Let_def chunk_then_def)
  qed
qed

lemma chunk_iteration_stage:
  assumes "body_inv limit c"
  shows "stage_ok limit chunk_iteration c (\<lambda>k d. k = Continue)"
proof -
  have tail: "stage_ok limit (chunk_then chunk_header chunk_data) c (\<lambda>k d. k = Continue)"
    if "body_inv limit c" "\<not> chunk_trailing (request c)" for c
  proof (cases "chunk_size (request c) = 0")
    case True
    have header: "stage_ok limit chunk_header c (\<lambda>k d. k = Continue \<or> (k = Fall \<and> \<not> d_trailing d \<and> d_size d \<noteq> 0))"
      using chunk_header_stage [OF that] True by simp
    show ?thesis
      by (rule stage_then [OF header]) (auto simp: decoder_of_def intro: chunk_data_stage)
  next
    case False
    with chunk_header_stage [OF that] have "chunk_then chunk_header chunk_data c = chunk_data c"
      by (simp add: chunk_then_def)
    with chunk_data_stage [OF that False] show ?thesis by (simp add: stage_ok_def)
  qed
  show ?thesis
  proof (cases "chunk_trailing (request c)")
    case True
    have trailer: "stage_ok limit chunk_trailer c (\<lambda>k d. k = Fall \<and> \<not> d_trailing d)"
      using chunk_trailer_stage [OF assms] True by simp
    show ?thesis
      unfolding chunk_iteration_def by (rule stage_then [OF trailer]) (auto simp: decoder_of_def intro: tail)
  next
    case False
    with chunk_trailer_stage [OF assms] have "chunk_iteration c = chunk_then chunk_header chunk_data c"
      by (simp add: chunk_iteration_def chunk_then_def [of chunk_trailer])
    with tail [OF assms False] show ?thesis by (simp add: stage_ok_def)
  qed
qed

lemma parseChunked_refines:
  "body_inv limit c \<Longrightarrow>
   \<exists>c'. parseChunked c = Some (Inr c')
     \<and> final limit c (run_parser (chunk_turn limit) (decoder_of (request c)) (content (read_buffer c))) c'"
proof (induction "length (content (read_buffer c))" arbitrary: c rule: less_induct)
  case less
  from chunk_iteration_stage [OF less.prems] show ?case
  proof (cases rule: stage_return_or_next)
    case (1 c')
    then show ?thesis by (subst parseChunked.simps) simp
  next
    case (2 k c')
    then have "parseChunked c = parseChunked c'" by (subst parseChunked.simps) simp
    moreover have "body_inv limit c'" using 2(4) by (simp add: moved_def)
    ultimately show ?thesis using less.hyps [OF 2(6)] 2(5) final_trans [OF 2(4)] by auto
  qed
qed

section \<open>Encoding and decoding chunks\<close>

definition encode_chunk :: "string \<Rightarrow> string" where
  "encode_chunk d = hex_string (length d) @ crlf @ d @ crlf"

definition last_chunk :: string where
  "last_chunk = ''0'' @ crlf @ crlf"

lemma chunk_digit_hex:
  assumes "d < 16"
  shows "chunk_digit (hex_digit d) = Some d \<and> hex_digit d \<noteq> CHR '';'' \<and> hex_digit d \<noteq> CR"
proof -
  have o: "ord (hex_digit d) = (if d < 10 then 48 + d else 87 + d)"
    using assms by (simp add: hex_digit_def)
  have k: "ord (CHR ''0'') = 48" "ord (CHR ''9'') = 57" "ord (CHR ''a'') = 97" "ord (CHR ''f'') = 102"
    "ord (CHR ''A'') = 65" "ord (CHR ''F'') = 70" "ord (CHR '';'') = 59" "ord CR = 13"
    by (simp_all add: ord_def)
  have "hex_digit d \<noteq> CHR '';''" "hex_digit d \<noteq> CR" using o k(7,8) by (auto split: if_splits)
  moreover have "chunk_digit (hex_digit d) = Some d"
    using assms by (simp add: chunk_digit_def in_range_def o k)
  ultimately show ?thesis by blast
qed

lemma hex_no_cr: "CR \<notin> set (hex_string n)"
proof (induction n rule: hex_string.induct)
  case (1 n)
  then show ?case using chunk_digit_hex [of "n mod 16"] chunk_digit_hex [of n]
    by (subst hex_string.simps) (auto split: if_splits)
qed

lemma chunk_size_loop_hex:
  "n \<le> MAX_ALLOWED_CHUNK \<Longrightarrow> chunk_size_loop (hex_string n @ cs) 0 v = chunk_size_loop cs n True"
proof (induction n arbitrary: cs v rule: hex_string.induct)
  case (1 n)
  show ?case
  proof (cases "n < 16")
    case True
    with chunk_digit_hex [OF this] "1.prems" show ?thesis
      by (subst hex_string.simps) (simp add: MAX_ALLOWED_CHUNK_def)
  next
    case False
    have "chunk_size_loop (hex_string n @ cs) 0 v
        = chunk_size_loop (hex_string (n div 16) @ hex_digit (n mod 16) # cs) 0 v"
      using False by (subst hex_string.simps) simp
    also have "\<dots> = chunk_size_loop (hex_digit (n mod 16) # cs) (n div 16) True"
      using False "1.prems" by (intro "1.IH") auto
    finally have step: "chunk_size_loop (hex_string n @ cs) 0 v = chunk_size_loop (hex_digit (n mod 16) # cs) (n div 16) True" .
    have "n div 16 \<le> 67108864" using div_le_mono [of n 1073741824 16] "1.prems" by (simp add: MAX_ALLOWED_CHUNK_def)
    then have "chunk_size_loop (hex_digit (n mod 16) # cs) (n div 16) True = chunk_size_loop cs n True"
      using chunk_digit_hex [of "n mod 16"] "1.prems" by (simp add: MAX_ALLOWED_CHUNK_def)
    with step show ?thesis by simp
  qed
qed

lemma chunk_size_line_hex: "n \<le> MAX_ALLOWED_CHUNK \<Longrightarrow> chunk_size_line (hex_string n) = Inr n"
  using chunk_size_loop_hex [of n "[]" False] by (simp add: chunk_size_line_def)

lemma find_crlf_hex: "find_crlf (hex_string n @ crlf @ rest) = Some (length (hex_string n))"
  using find_crlf_first [OF hex_no_cr] by (simp add: crlf_def)

definition idle :: "decoder \<Rightarrow> bool" where
  "idle d \<longleftrightarrow> \<not> d_trailing d \<and> d_size d = 0 \<and> \<not> d_done d"

lemma run_encode_chunk:
  assumes "idle d" "x \<noteq> []" "length x \<le> MAX_ALLOWED_CHUNK" "length (d_body d) + length x \<le> limit"
  shows "run_parser (chunk_turn limit) d (encode_chunk x @ rest)
    = run_parser (chunk_turn limit) (d\<lparr>d_body := d_body d @ x\<rparr>) rest"
proof -
  let ?L = "length (hex_string (length x)) + 2"
  let ?d1 = "d\<lparr>d_size := length x\<rparr>"
  let ?d2 = "d\<lparr>d_body := d_body d @ x, d_size := 0, d_trailing := True, d_done := False\<rparr>"
  have d: "\<not> d_trailing d" "d_size d = 0" "\<not> d_done d" using assms(1) by (simp_all add: idle_def)
  have "chunk_turn limit d (hex_string (length x) @ crlf @ x @ crlf @ rest) = Next ?d1 ?L"
    using d assms(2,3) chunk_size_line_hex [OF assms(3)] find_crlf_hex [of "length x"]
    by (auto simp: chunk_turn_def split: nat.split)
  from chunk.run_Next [OF this]
  have 1: "run_parser (chunk_turn limit) d (encode_chunk x @ rest) = run_parser (chunk_turn limit) ?d1 (x @ crlf @ rest)"
    by (simp add: encode_chunk_def crlf_def)
  have "chunk_turn limit ?d1 (x @ crlf @ rest) = Next ?d2 (length x)"
    using d assms(2,4) by (simp add: chunk_turn_def Let_def)
  from chunk.run_Next [OF this]
  have 2: "run_parser (chunk_turn limit) ?d1 (x @ crlf @ rest) = run_parser (chunk_turn limit) ?d2 (crlf @ rest)" by simp
  have "chunk_turn limit ?d2 (crlf @ rest) = Next (?d2\<lparr>d_trailing := False, d_size := 0\<rparr>) 2"
    by (simp add: chunk_turn_def crlf_def)
  from chunk.run_Next [OF this]
  have "run_parser (chunk_turn limit) ?d2 (crlf @ rest) = run_parser (chunk_turn limit) (?d2\<lparr>d_trailing := False, d_size := 0\<rparr>) rest"
    by (simp add: crlf_def)
  moreover have "?d2\<lparr>d_trailing := False, d_size := 0\<rparr> = d\<lparr>d_body := d_body d @ x\<rparr>"
    using d by (cases d) simp
  ultimately show ?thesis using 1 2 by simp
qed

lemma chunk_size_line_zero: "chunk_size_line ''0'' = Inr 0"
  by (simp add: chunk_size_line_def chunk_digit_def in_range_def ord_def MAX_ALLOWED_CHUNK_def)

lemma run_last_chunk:
  assumes "idle d"
  shows "run_parser (chunk_turn limit) d (last_chunk @ rest) = Stopped (d\<lparr>d_done := True\<rparr>) rest"
proof -
  have d: "\<not> d_trailing d" "d_size d = 0" using assms by (simp_all add: idle_def)
  have "chunk_turn limit d (last_chunk @ rest) = Next (d\<lparr>d_done := True, d_trailing := True\<rparr>) 3"
    using d chunk_size_line_zero by (simp add: chunk_turn_def last_chunk_def crlf_def)
  from chunk.run_Next [OF this] show ?thesis
    using d by (simp add: last_chunk_def crlf_def run_parser.simps [of _ "d\<lparr>d_done := True, d_trailing := True\<rparr>"] chunk_turn_def)
qed

lemma run_chunks:
  "idle d \<Longrightarrow> (\<forall>x \<in> set xs. x \<noteq> [] \<and> length x \<le> MAX_ALLOWED_CHUNK) \<Longrightarrow>
   length (d_body d) + length (concat xs) \<le> limit \<Longrightarrow>
   run_parser (chunk_turn limit) d (concat (map encode_chunk xs) @ last_chunk @ rest)
     = Stopped (d\<lparr>d_body := d_body d @ concat xs, d_done := True\<rparr>) rest"
proof (induction xs arbitrary: d)
  case (Cons x xs)
  let ?d = "d\<lparr>d_body := d_body d @ x\<rparr>"
  have "run_parser (chunk_turn limit) ?d (concat (map encode_chunk xs) @ last_chunk @ rest)
      = Stopped (?d\<lparr>d_body := d_body ?d @ concat xs, d_done := True\<rparr>) rest"
    using Cons.prems by (intro Cons.IH) (simp_all add: idle_def)
  with run_encode_chunk [of d x limit "concat (map encode_chunk xs) @ last_chunk @ rest"] Cons.prems
  show ?case by simp
qed (simp add: run_last_chunk)

lemma chunk_turn_too_large:
  assumes "idle d" "x \<noteq> []" "length x \<le> MAX_ALLOWED_CHUNK" "limit < length (d_body d) + length x"
  shows "run_parser (chunk_turn limit) d (encode_chunk x @ rest) = Failed 413"
proof -
  let ?d1 = "d\<lparr>d_size := length x\<rparr>"
  have d: "\<not> d_trailing d" "d_size d = 0" using assms(1) by (simp_all add: idle_def)
  have "chunk_turn limit d (hex_string (length x) @ crlf @ x @ crlf @ rest) = Next ?d1 (length (hex_string (length x)) + 2)"
    using d assms(2,3) chunk_size_line_hex [OF assms(3)] find_crlf_hex [of "length x"]
    by (auto simp: chunk_turn_def split: nat.split)
  from chunk.run_Next [OF this] show ?thesis
    using d assms(2,4)
    by (simp add: encode_chunk_def crlf_def run_parser.simps [of _ ?d1] chunk_turn_def Let_def)
qed

lemma run_chunks_over:
  "idle d \<Longrightarrow> (\<forall>x \<in> set xs. x \<noteq> [] \<and> length x \<le> MAX_ALLOWED_CHUNK) \<Longrightarrow>
   limit < length (d_body d) + length (concat xs) \<Longrightarrow> length (d_body d) \<le> limit \<Longrightarrow>
   run_parser (chunk_turn limit) d (concat (map encode_chunk xs) @ last_chunk @ rest) = Failed 413"
proof (induction xs arbitrary: d)
  case (Cons x xs)
  show ?case
  proof (cases "length (d_body d) + length x \<le> limit")
    case True
    have "run_parser (chunk_turn limit) (d\<lparr>d_body := d_body d @ x\<rparr>) (concat (map encode_chunk xs) @ last_chunk @ rest) = Failed 413"
      using Cons.prems True by (intro Cons.IH) (simp_all add: idle_def)
    with run_encode_chunk [of d x limit "concat (map encode_chunk xs) @ last_chunk @ rest"] Cons.prems True
    show ?thesis by simp
  next
    case False
    with chunk_turn_too_large [of d x limit "concat (map encode_chunk xs) @ last_chunk @ rest"] Cons.prems
    show ?thesis by simp
  qed
qed simp

definition same_body :: "connection \<Rightarrow> connection \<Rightarrow> bool" where
  "same_body a b \<longleftrightarrow> parse_state (request a) = parse_state (request b)
    \<and> (if parse_state (request b) = PSTATE_ERROR then error_code (request a) = error_code (request b)
       else decoder_of (request a) = decoder_of (request b) \<and> content (read_buffer a) = content (read_buffer b))"

lemma final_state:
  "final limit c v res \<Longrightarrow> parse_state (request res) =
     (case v of Waiting _ _ \<Rightarrow> parse_state (request c) | Stopped _ _ \<Rightarrow> PSTATE_COMPLETE | Failed _ \<Rightarrow> PSTATE_ERROR)"
  by (cases v) (auto simp: final_def moved_def body_frame_def complete_def)

lemma final_same_body:
  assumes "final limit c v res" "parse_state (request c) = parse_state (request c') \<and> parse_state (request c) \<noteq> PSTATE_ERROR"
    and "final limit c' v res'"
  shows "same_body res res'"
  using assms final_state [OF assms(1)] final_state [OF assms(3)]
  by (cases v) (auto simp: final_def same_body_def moved_def complete_def decoder_of_def)

section \<open>Bodies of known length\<close>

lemma parseBody_spec:
  assumes "body_inv limit c" "0 < content_length (request c)" "written (request c) \<le> content_length (request c)"
    and n: "n = min (content_length (request c) - written (request c)) (length (content (read_buffer c)))"
  shows "if content (read_buffer c) = [] then parseBody c = Inr c
    else if length (content (body (request c))) + n > limit then parseBody c = Inr (map_request (fail_req 413) c)
    else \<exists>b rb. content b = content (body (request c)) @ take n (content (read_buffer c)) \<and> buf_ok b \<and> cmbs b = max_body_size (request c)
      \<and> (if written (request c) + n = content_length (request c)
         then parseBody c = Inr (c\<lparr>read_buffer := Buffer_earase rb, request :=
             (request c)\<lparr>body := b, written := written (request c) + n, parse_state := PSTATE_COMPLETE\<rparr>\<rparr>)
         else parseBody c = Inr (c\<lparr>read_buffer := rb, request := (request c)\<lparr>body := b, written := written (request c) + n\<rparr>\<rparr>)
           \<and> content rb = [] \<and> buf_ok rb \<and> cmbs rb = cmbs (read_buffer c))"
proof -
  let ?r = "request c" and ?xs = "content (read_buffer c)"
  have inv: "buf_ok (read_buffer c)" "spooled ?r + limit = max_body_size ?r" "written ?r = spooled ?r + length (content (body ?r))"
    "max_body_size ?r < 2 ^ 61" "length (content (body ?r)) \<le> limit" "length ?xs \<le> max_size"
    using assms(1) by (auto simp: body_inv_def spooled_def Let_def buf_ok_def content_def)
  have n1: "(if sz_sub (content_length ?r) (written ?r) < Buffer_size (read_buffer c)
      then sz_sub (content_length ?r) (written ?r) else Buffer_size (read_buffer c)) = n"
    using inv(1) assms(3) by (simp add: n buf_ok_size)
  have "sz_add (written ?r) n = written ?r + n"
    using inv n by (intro sz_add_small) (simp add: max_size_def)
  then have big: "too_large ?r n \<longleftrightarrow> length (content (body ?r)) + n > limit"
    using inv(2,3) unfolding too_large_def by auto
  show ?thesis
  proof (cases "?xs = []")
    case True
    with inv(1) show ?thesis by (simp add: parseBody_def Let_def buf_ok_size)
  next
    case ne: False
    have eval: "parseBody c = (if too_large ?r n then Inr (map_request (fail_req 413) c)
         else rbind (move_to_body n c) (\<lambda>c. if written (request c) = content_length (request c)
           then Inr (map_request (\<lambda>r. r\<lparr>parse_state := PSTATE_COMPLETE\<rparr>) (c\<lparr>read_buffer := Buffer_earase (read_buffer c)\<rparr>))
           else Inr c))"
      unfolding parseBody_def Let_def n1 using ne inv(1) assms(2) by (simp add: buf_ok_size)
    show ?thesis
    proof (cases "too_large ?r n")
      case True
      with ne eval big show ?thesis by simp
    next
      case False
      then have fits: "length (content (body ?r)) + n \<le> limit" "n \<le> length ?xs" using big n by simp_all
      obtain b rb where m: "move_to_body n c = Inr (c\<lparr>read_buffer := rb,
           request := ?r\<lparr>body := b, written := written (request c) + n\<rparr>\<rparr>)"
        "content b = content (body ?r) @ take n ?xs" "content rb = drop n ?xs" "buf_ok b" "buf_ok rb"
        "cmbs b = max_body_size (request c)" "cmbs rb = cmbs (read_buffer c)"
        using assms(1) fits(2,1) by (rule move_to_body_ok)
      have drained: "content rb = []" if "written ?r + n \<noteq> content_length ?r"
      proof -
        from that n assms(3) have "n = length ?xs" by (auto simp: min_def split: if_splits)
        with m(3) show ?thesis by simp
      qed
      have "parseBody c = (if written ?r + n = content_length ?r
          then Inr (c\<lparr>read_buffer := Buffer_earase rb, request :=
             ?r\<lparr>body := b, written := written (request c) + n, parse_state := PSTATE_COMPLETE\<rparr>\<rparr>)
          else Inr (c\<lparr>read_buffer := rb, request := ?r\<lparr>body := b, written := written (request c) + n\<rparr>\<rparr>))"
        unfolding eval m(1) using False by (simp add: map_request_def)
      with drained m(2,4-7) have "content b = content (body ?r) @ take n ?xs \<and> buf_ok b \<and> cmbs b = max_body_size (request c)
        \<and> (if written ?r + n = content_length ?r
         then parseBody c = Inr (c\<lparr>read_buffer := Buffer_earase rb, request :=
             ?r\<lparr>body := b, written := written (request c) + n, parse_state := PSTATE_COMPLETE\<rparr>\<rparr>)
         else parseBody c = Inr (c\<lparr>read_buffer := rb, request := ?r\<lparr>body := b, written := written (request c) + n\<rparr>\<rparr>)
           \<and> content rb = [] \<and> buf_ok rb \<and> cmbs rb = cmbs (read_buffer c))"
        by simp
      moreover have "\<not> length (content (body ?r)) + n > limit" using False big by simp
      ultimately show ?thesis
        unfolding if_not_P [OF ne] if_not_P [OF \<open>\<not> length (content (body ?r)) + n > limit\<close>] by blast
    qed
  qed
qed

fun body_pieces :: "connection \<Rightarrow> string list \<Rightarrow> (failure \<times> connection) + connection" where
  \<comment> \<open>pieces arrive one by one; each is appended to the read buffer and parsed\<close>
  "body_pieces c [] = Inr c"
| "body_pieces c (p # ps) =
     rbind (with_state c (Buffer_append (read_buffer c) p)) (\<lambda>rb.
     rbind (parseBody (c\<lparr>read_buffer := rb\<rparr>)) (\<lambda>c.
       if parse_state (request c) = PSTATE_BODY then body_pieces c ps else Inr c))"

lemma body_piece_step:
  assumes "body_inv limit c" "content (read_buffer c) = []" "parse_state (request c) = PSTATE_BODY"
    and S: "spooled (request c) = 0"
    and L: "L = content_length (request c)" "written (request c) < L" "L \<le> limit"
    and "length p \<le> cmbs (read_buffer c)" "cmbs (read_buffer c) < 2 ^ 61"
  obtains rb c' where "Buffer_append (read_buffer c) p = Inr rb" "parseBody (c\<lparr>read_buffer := rb\<rparr>) = Inr c'"
    "content (body (request c')) = take L (content (body (request c)) @ p)"
    "if L \<le> length (content (body (request c))) + length p then parse_state (request c') = PSTATE_COMPLETE
     else parse_state (request c') = PSTATE_BODY \<and> body_inv limit c' \<and> content (read_buffer c') = [] \<and> spooled (request c') = 0
       \<and> content_length (request c') = L \<and> cmbs (read_buffer c') = cmbs (read_buffer c)"
proof -
  have inv: "buf_ok (read_buffer c)" "written (request c) = length (content (body (request c)))"
    "limit < 2 ^ 61" "max_body_size (request c) = limit" "cmbs (body (request c)) = limit"
    using assms(1) S by (simp_all add: body_inv_def spooled_def Let_def)
  have "length (content (read_buffer c)) + length p \<le> cmbs (read_buffer c)" using assms(2,8) by simp
  then obtain rb where a: "Buffer_append (read_buffer c) p = Inr rb"
    using append_total [OF inv(1) assms(9)] by blast
  then have rb: "content rb = p" "buf_ok rb" "cmbs rb = cmbs (read_buffer c)"
    using append_InrD [OF inv(1) a] assms(2) by simp_all
  define c1 where "c1 = c\<lparr>read_buffer := rb\<rparr>"
  define w where "w = length (content (body (request c)))"
  have c1: "body_inv limit c1" "request c1 = request c" "read_buffer c1 = rb"
    using assms(1) rb(2) by (simp_all add: c1_def body_inv_def Let_def)
  define n where "n = min (L - w) (length p)"
  have w: "written (request c) = w" using inv(2) by (simp add: w_def)
  have n': "n = min (content_length (request c1) - written (request c1)) (length (content (read_buffer c1)))"
    by (simp add: n_def c1(2,3) rb(1) w L(1))
  have spec: "if p = [] then parseBody c1 = Inr c1
    else if w + n > limit then parseBody c1 = Inr (map_request (fail_req 413) c1)
    else \<exists>b rb'. content b = content (body (request c)) @ take n p \<and> buf_ok b \<and> cmbs b = limit
      \<and> (if w + n = L
         then parseBody c1 = Inr (c1\<lparr>read_buffer := Buffer_earase rb', request :=
             (request c)\<lparr>body := b, written := w + n, parse_state := PSTATE_COMPLETE\<rparr>\<rparr>)
         else parseBody c1 = Inr (c1\<lparr>read_buffer := rb', request := (request c)\<lparr>body := b, written := w + n\<rparr>\<rparr>)
           \<and> content rb' = [] \<and> buf_ok rb' \<and> cmbs rb' = cmbs rb)"
    by (rule parseBody_spec [OF c1(1) _ _ n', unfolded c1(2,3) rb(1) w inv(4) L(1) [symmetric] w_def [symmetric]])
      (use L(2) w in simp_all)
  have small: "\<not> w + n > limit" using L(2,3) inv(2) by (simp add: n_def w_def)
  have tk: "content (body (request c)) @ take n p = take L (content (body (request c)) @ p)"
    using L(2) inv(2) by (simp add: n_def w_def min_def)
  show thesis
  proof (cases "p = []")
    case True
    with spec have "parseBody c1 = Inr c1" by simp
    with that [OF a, of c1] c1 True assms(2,3) S L inv rb show thesis by (simp add: c1_def)
  next
    case False
    with spec small obtain b rb' where b: "content b = content (body (request c)) @ take n p" "buf_ok b" "cmbs b = limit"
      "if w + n = L
         then parseBody c1 = Inr (c1\<lparr>read_buffer := Buffer_earase rb', request :=
             (request c)\<lparr>body := b, written := w + n, parse_state := PSTATE_COMPLETE\<rparr>\<rparr>)
         else parseBody c1 = Inr (c1\<lparr>read_buffer := rb', request := (request c)\<lparr>body := b, written := w + n\<rparr>\<rparr>)
           \<and> content rb' = [] \<and> buf_ok rb' \<and> cmbs rb' = cmbs rb" by auto
    have full: "w + n = L \<longleftrightarrow> L \<le> w + length p" and len: "length (content b) = w + n"
      using b(1) L(2) inv(2) by (auto simp: n_def w_def)
    show thesis
    proof (cases "L \<le> w + length p")
      case True
      with full b(4) have run: "parseBody (c\<lparr>read_buffer := rb\<rparr>) = Inr (c1\<lparr>read_buffer := Buffer_earase rb', request :=
             (request c)\<lparr>body := b, written := w + n, parse_state := PSTATE_COMPLETE\<rparr>\<rparr>)"
        by (simp add: c1_def)
      show thesis
        by (rule that [OF a run]) (use True b(1) tk in \<open>simp_all add: w_def\<close>)
    next
      case False
      with full b(4) have run: "parseBody (c\<lparr>read_buffer := rb\<rparr>) =
          Inr (c1\<lparr>read_buffer := rb', request := (request c)\<lparr>body := b, written := w + n\<rparr>\<rparr>)"
        and rb': "content rb' = []" "buf_ok rb'" "cmbs rb' = cmbs rb"
        by (simp_all add: c1_def)
      have "length (content b) \<le> limit" using len small by simp
      then show thesis
        by (intro that [OF a run])
          (use False b(2,3) tk b(1) len rb' rb L assms(3) inv S in \<open>simp_all add: body_inv_def spooled_def Let_def w_def [symmetric]\<close>)
    qed
  qed
qed

lemma body_pieces_ok:
  "body_inv limit c \<Longrightarrow> content (read_buffer c) = [] \<Longrightarrow> parse_state (request c) = PSTATE_BODY \<Longrightarrow>
   spooled (request c) = 0 \<Longrightarrow> L = content_length (request c) \<Longrightarrow> written (request c) < L \<Longrightarrow> L \<le> limit \<Longrightarrow>
   (\<forall>p \<in> set ps. length p \<le> cmbs (read_buffer c)) \<Longrightarrow> cmbs (read_buffer c) < 2 ^ 61 \<Longrightarrow>
   \<exists>c'. body_pieces c ps = Inr c' \<and> content (body (request c')) = take L (content (body (request c)) @ concat ps)
     \<and> parse_state (request c') = (if L \<le> length (content (body (request c))) + length (concat ps)
         then PSTATE_COMPLETE else PSTATE_BODY)"
proof (induction ps arbitrary: c)
  case Nil
  then have "length (content (body (request c))) < L" by (simp add: body_inv_def spooled_def Let_def)
  with Nil show ?case by simp
next
  case (Cons p ps)
  obtain rb c1 where step: "Buffer_append (read_buffer c) p = Inr rb" "parseBody (c\<lparr>read_buffer := rb\<rparr>) = Inr c1"
    "content (body (request c1)) = take L (content (body (request c)) @ p)"
    "if L \<le> length (content (body (request c))) + length p then parse_state (request c1) = PSTATE_COMPLETE
     else parse_state (request c1) = PSTATE_BODY \<and> body_inv limit c1 \<and> content (read_buffer c1) = [] \<and> spooled (request c1) = 0
       \<and> content_length (request c1) = L \<and> cmbs (read_buffer c1) = cmbs (read_buffer c)"
    using Cons.prems by (elim body_piece_step [of limit c L p]) auto
  show ?case
  proof (cases "L \<le> length (content (body (request c))) + length p")
    case True
    with step show ?thesis by simp
  next
    case False
    with step have c1: "parse_state (request c1) = PSTATE_BODY" "body_inv limit c1" "content (read_buffer c1) = []" "spooled (request c1) = 0"
      "content_length (request c1) = L" "cmbs (read_buffer c1) = cmbs (read_buffer c)" by simp_all
    have b1: "content (body (request c1)) = content (body (request c)) @ p" using step(3) False by simp
    moreover have "written (request c1) < L" using c1(2,4) b1 False by (simp add: body_inv_def spooled_def Let_def)
    ultimately show ?thesis
      using Cons.IH [of c1] c1 Cons.prems step(1,2) by (auto simp: add.assoc)
  qed
qed

section \<open>Properties\<close>

definition sample_body :: "nat \<Rightarrow> string \<Rightarrow> connection" where
  \<comment> \<open>for concrete instances: a POST whose headers announced \<open>n\<close> bytes (0: chunked), with \<open>s\<close> unread\<close>
  "sample_body n s =
     map_request (\<lambda>r. r\<lparr>parse_state := PSTATE_BODY, content_length := n, chunked := (n = 0), max_body_size := 2040109465\<rparr>)
       (sample_conn s)"

lemma sample_body_simps [simp]:
  "length s \<le> max_size \<Longrightarrow> body_inv 2040109465 (sample_body n s)"
  "content (read_buffer (sample_body n s)) = s" "parse_state (request (sample_body n s)) = PSTATE_BODY"
  "content_length (request (sample_body n s)) = n" "written (request (sample_body n s)) = 0"
  "content (body (request (sample_body n s))) = []" "cmbs (read_buffer (sample_body n s)) = 2040109465"
  "spooled (request (sample_body n s)) = 0" "idle (decoder_of (request (sample_body n s)))" "d_body (decoder_of (request (sample_body n s))) = []"
  by (simp_all add: sample_body_def sample_conn_def Connection_new_def HttpRequest_new_def body_inv_def spooled_def Let_def
      buf_ok_def Buffer_new_def initial_capacity_def content_def idle_def decoder_of_def)

text \<open>
  C12: a body of known length is received exactly, however it is cut.  After any pieces
  the body holds the first \<open>Content-Length\<close> bytes of what has arrived, the request is
  complete exactly when that many have come, and the parser neither fails nor reads on.
\<close>

theorem body_exact:
  assumes "body_inv limit c" "content (read_buffer c) = []" "parse_state (request c) = PSTATE_BODY"
    and "spooled (request c) = 0" "written (request c) < content_length (request c)" "content_length (request c) \<le> limit"
    and "\<forall>p \<in> set ps. length p \<le> cmbs (read_buffer c)" "cmbs (read_buffer c) < 2 ^ 61"
  shows "\<exists>c'. body_pieces c ps = Inr c'
    \<and> content (body (request c')) = take (content_length (request c)) (content (body (request c)) @ concat ps)
    \<and> parse_state (request c') =
        (if content_length (request c) \<le> length (content (body (request c))) + length (concat ps)
         then PSTATE_COMPLETE else PSTATE_BODY)"
  using assms by (intro body_pieces_ok) simp_all

theorem body_exact_witness:
  "\<exists>c'. body_pieces (sample_body 5 []) [''ab'', [], ''cdefg''] = Inr c' \<and> content (body (request c')) = ''abcde''
    \<and> parse_state (request c') = PSTATE_COMPLETE"
  using body_exact [of 2040109465 "sample_body 5 []" "[''ab'', [], ''cdefg'']"] by (auto simp: max_size_def)

text \<open>
  C10: the chunked decoder inverts the chunked encoding.  A sequence of chunks followed by
  the last chunk is decoded to the concatenation of their data and exactly its bytes are
  consumed, unless the total exceeds the body limit, which gives 413.
\<close>

theorem chunked_roundtrip:
  assumes "body_inv limit c" "idle (decoder_of (request c))"
    and "content (read_buffer c) = concat (map encode_chunk xs) @ last_chunk @ rest"
    and "\<forall>x \<in> set xs. x \<noteq> [] \<and> length x \<le> MAX_ALLOWED_CHUNK"
  shows "\<exists>c'. parseChunked c = Some (Inr c') \<and>
    (if length (content (body (request c))) + length (concat xs) \<le> limit
     then parse_state (request c') = PSTATE_COMPLETE \<and> content (read_buffer c') = rest
       \<and> content (body (request c')) = content (body (request c)) @ concat xs
     else parse_state (request c') = PSTATE_ERROR \<and> error_code (request c') = 413)"
proof -
  have d: "d_body (decoder_of (request c)) = content (body (request c))" by (simp add: decoder_of_def)
  obtain c' where c': "parseChunked c = Some (Inr c')"
    "final limit c (run_parser (chunk_turn limit) (decoder_of (request c)) (content (read_buffer c))) c'"
    using parseChunked_refines [OF assms(1)] by blast
  show ?thesis
  proof (cases "length (content (body (request c))) + length (concat xs) \<le> limit")
    case True
    with c'(2) run_chunks [OF assms(2,4), of limit rest] assms(3) d
    have "\<exists>c0. moved limit c c0 ((decoder_of (request c))\<lparr>d_body := content (body (request c)) @ concat xs, d_done := True\<rparr>) rest
      \<and> c' = complete c0" by (simp add: final_def)
    then show ?thesis using c'(1) True
      by (auto simp: moved_def complete_def decoder_of_def)
  next
    case False
    moreover have "length (content (body (request c))) \<le> limit" using assms(1) by (simp add: body_inv_def Let_def)
    ultimately show ?thesis
      using c' run_chunks_over [OF assms(2,4), of limit rest] assms(3) d by (auto simp: final_def)
  qed
qed

theorem chunked_roundtrip_witness:
  "\<exists>c'. parseChunked (sample_body 0 (concat (map encode_chunk [''hello '', ''world'']) @ last_chunk @ ''GET'')) = Some (Inr c')
    \<and> content (body (request c')) = ''hello world'' \<and> content (read_buffer c') = ''GET''"
proof -
  let ?s = "concat (map encode_chunk [''hello '', ''world'']) @ last_chunk @ ''GET''"
  have "length ?s \<le> max_size"
    by (simp add: encode_chunk_def last_chunk_def crlf_def hex_string.simps max_size_def)
  with chunked_roundtrip [of 2040109465 "sample_body 0 ?s" "[''hello '', ''world'']" "''GET''"] show ?thesis
    by (auto simp: MAX_ALLOWED_CHUNK_def)
qed

text \<open>
  C11: the chunked decoder may be interrupted anywhere.  Decoding what has come, waiting,
  and decoding again once \<open>ys\<close> has arrived gives the verdict, the body and the unread
  bytes that decoding everything at once gives; the decoder always returns.
\<close>

theorem chunked_any_pieces:
  assumes "body_inv limit c" "parse_state (request c) = PSTATE_BODY"
    and "parseChunked c = Some (Inr c1)" "parse_state (request c1) = PSTATE_BODY"
    and "content b2 = content (read_buffer c1) @ ys" "content bw = content (read_buffer c) @ ys" "buf_ok b2" "buf_ok bw"
  shows "\<exists>d2 dw. parseChunked (c1\<lparr>read_buffer := b2\<rparr>) = Some (Inr d2) \<and> parseChunked (c\<lparr>read_buffer := bw\<rparr>) = Some (Inr dw)
    \<and> parse_state (request d2) = parse_state (request dw)
    \<and> (if parse_state (request dw) = PSTATE_ERROR then error_code (request d2) = error_code (request dw)
       else decoder_of (request d2) = decoder_of (request dw) \<and> content (read_buffer d2) = content (read_buffer dw))"
proof -
  let ?run = "run_parser (chunk_turn limit)"
  obtain d rest where w: "?run (decoder_of (request c)) (content (read_buffer c)) = Waiting d rest" "moved limit c c1 d rest"
    using parseChunked_refines [OF assms(1)] assms(3,4)
    by (cases "?run (decoder_of (request c)) (content (read_buffer c))") (auto simp: final_def complete_def)
  have c1: "d = decoder_of (request c1)" "rest = content (read_buffer c1)" "body_inv limit c1"
    using w(2) by (simp_all add: moved_def)
  have run: "?run (decoder_of (request c)) (content bw) = ?run (decoder_of (request c1)) (content b2)"
    using chunk.run_append [of limit "decoder_of (request c)" "content (read_buffer c)" ys] w(1) c1(1,2) assms(5,6)
    by (simp add: resume_def)
  have i2: "body_inv limit (c1\<lparr>read_buffer := b2\<rparr>)" and iw: "body_inv limit (c\<lparr>read_buffer := bw\<rparr>)"
    using c1(3) assms(1,7,8) by (simp_all add: body_inv_def Let_def)
  obtain d2 where d2: "parseChunked (c1\<lparr>read_buffer := b2\<rparr>) = Some (Inr d2)"
    "final limit (c1\<lparr>read_buffer := b2\<rparr>) (?run (decoder_of (request c1)) (content b2)) d2"
    using parseChunked_refines [OF i2] by auto
  obtain dw where dw: "parseChunked (c\<lparr>read_buffer := bw\<rparr>) = Some (Inr dw)"
    "final limit (c\<lparr>read_buffer := bw\<rparr>) (?run (decoder_of (request c1)) (content b2)) dw"
    using parseChunked_refines [OF iw] run by auto
  have "same_body d2 dw"
    using final_same_body [OF d2(2) _ dw(2)] assms(2,4) by simp
  with d2(1) dw(1) show ?thesis by (auto simp: same_body_def)
qed

theorem chunked_any_pieces_witness:
  "\<exists>c1 d2 dw. parseChunked (sample_body 0 (''5'' @ crlf @ ''he'')) = Some (Inr c1)
    \<and> parseChunked (c1\<lparr>read_buffer := read_buffer (sample_conn (''llo'' @ crlf @ last_chunk))\<rparr>) = Some (Inr d2)
    \<and> parseChunked (sample_body 0 (''5'' @ crlf @ ''hello'' @ crlf @ last_chunk)) = Some (Inr dw)
    \<and> parse_state (request d2) = parse_state (request dw)"
proof -
  let ?c = "sample_body 0 (''5'' @ crlf @ ''he'')"
  let ?d = "\<lparr>d_size = 3, d_trailing = False, d_done = False, d_body = ''he''\<rparr>"
  have dec: "decoder_of (request ?c) = \<lparr>d_size = 0, d_trailing = False, d_done = False, d_body = []\<rparr>"
    by (simp add: decoder_of_def sample_body_def sample_conn_def Connection_new_def HttpRequest_new_def
        Buffer_new_def content_def)
  have line: "chunk_size_line ''5'' = Inr 5"
    by (simp add: chunk_size_line_def chunk_digit_def in_range_def MAX_ALLOWED_CHUNK_def ord_def)
  have run: "run_parser (chunk_turn 2040109465) (decoder_of (request ?c)) (content (read_buffer ?c)) = Waiting ?d []"
    unfolding dec sample_body_simps(2) by (simp add: run_parser.simps chunk_turn_def crlf_def line)
  have inv: "body_inv 2040109465 ?c" by (simp add: crlf_def max_size_def)
  obtain c1 where c1: "parseChunked ?c = Some (Inr c1)" "moved 2040109465 ?c c1 ?d []"
    using parseChunked_refines [OF inv] run by (auto simp: final_def)
  have c1': "content (read_buffer c1) = []" "parse_state (request c1) = PSTATE_BODY"
    using c1(2) by (auto simp: moved_def body_frame_def)
  let ?s2 = "''llo'' @ crlf @ last_chunk" and ?whole = "''5'' @ crlf @ ''hello'' @ crlf @ last_chunk"
  let ?bw = "read_buffer (sample_body 0 ?whole)" and ?b2 = "read_buffer (sample_conn ?s2)"
  have c: "?c\<lparr>read_buffer := ?bw\<rparr> = sample_body 0 ?whole"
    by (simp add: sample_body_def sample_conn_def Connection_new_def map_request_def)
  have len: "length ?s2 \<le> max_size" "length ?whole \<le> max_size"
    by (simp_all add: crlf_def last_chunk_def max_size_def)
  have ok: "buf_ok ?b2" "buf_ok ?bw"
    using len sample_body_simps(1) [of ?whole 0] unfolding body_inv_def Let_def by simp_all
  have same: "content ?b2 = content (read_buffer c1) @ ?s2" "content ?bw = content (read_buffer ?c) @ ?s2"
    unfolding c1' sample_body_simps(2) by simp_all
  obtain d2 dw where "parseChunked (c1\<lparr>read_buffer := ?b2\<rparr>) = Some (Inr d2)"
    "parseChunked (?c\<lparr>read_buffer := ?bw\<rparr>) = Some (Inr dw)" "parse_state (request d2) = parse_state (request dw)"
    using chunked_any_pieces [OF inv _ c1(1) c1'(2) same ok] unfolding sample_body_simps(3) by blast
  with c1(1) show ?thesis unfolding c by blast
qed

end
