(* ===== verification/Http_Parser.thy ===== *)
theory Http_Parser
  imports Request_Grammar Body_Parser
begin

text \<open>
  \<open>HttpParser::feed\<close> of \<open>src/HttpParser.cpp\<close>, which runs the three stages as far as
  the bytes at hand allow, and \<open>_applyLocationBodyLimit\<close>.  The theory shows that a
  connection in a well-formed state is always parsed without an exception and stays
  well formed, and that the parse state only moves forward.
\<close>

section \<open>The code\<close>

definition body_limit :: "connection \<Rightarrow> nat" where
  \<comment> \<open>the \<open>limit\<close> computed by \<open>_applyLocationBodyLimit\<close>\<close>
  "body_limit c =
     (let limit = getMaxBody (config c);
          loc = matchLocation (config c) (path (request c));
          limit = (case loc of
                     Some l \<Rightarrow> if getClientMaxBodySize l > 0 then getClientMaxBodySize l else limit
                   | None \<Rightarrow> limit)
      in if limit = 0 then 1048576 else limit)"

definition applyLocationBodyLimit :: "connection \<Rightarrow> connection" where
  "applyLocationBodyLimit c =
     (if path (request c) = [] then c
      else let limit = body_limit c in
        (map_request (\<lambda>r. r\<lparr>max_body_size := limit, body := Buffer_setMaxSize limit (body r)\<rparr>) c)
          \<lparr>read_buffer := Buffer_setMaxSize limit (read_buffer c)\<rparr>)"

definition feed_body :: "connection \<Rightarrow> (failure \<times> connection) + connection" where
  "feed_body c =
     (if parse_state (request c) = PSTATE_BODY then
        (if chunked (request c)
         then (case parseChunked c of Some r \<Rightarrow> r | None \<Rightarrow> Inl (Hang, c))
         else parseBody c)
      else Inr c)"

definition feed :: "os \<Rightarrow> connection \<Rightarrow> (failure \<times> connection) + connection" where
  "feed w c =
     (if parse_state (request c) = PSTATE_COMPLETE \<or> parse_state (request c) = PSTATE_ERROR then Inr c
      else
        let c = (if parse_state (request c) = PSTATE_IDLE
                 then map_request (\<lambda>r. r\<lparr>parse_state := PSTATE_REQUEST_LINE\<rparr>) c else c) in
        rbind
          (if parse_state (request c) = PSTATE_REQUEST_LINE then
             rbind (parseRequestLine w c) (\<lambda>c.
               Inr (if parse_state (request c) \<noteq> PSTATE_REQUEST_LINE then applyLocationBodyLimit c else c))
           else Inr c)
          (\<lambda>c. rbind (if parse_state (request c) = PSTATE_HEADERS then parseHeaders c else Inr c)
          (\<lambda>c. feed_body (applyLocationBodyLimit c))))"

section \<open>Well-formed connections\<close>

definition cfg_ok :: "server \<Rightarrow> bool" where
  \<comment> \<open>limits a buffer can hold\<close>
  "cfg_ok s \<longleftrightarrow> getMaxBody s < 2 ^ 60 \<and> (\<forall>l \<in> set (srv_locations s). getClientMaxBodySize l < 2 ^ 60)"

definition fresh_body :: "http_request \<Rightarrow> bool" where
  "fresh_body r \<longleftrightarrow> content (body r) = [] \<and> written r = 0 \<and> content_length r = 0 \<and> \<not> chunked r
     \<and> chunk_size r = 0 \<and> \<not> chunk_trailing r \<and> \<not> chunk_done r"

definition receiving :: "connection \<Rightarrow> bool" where
  \<comment> \<open>a body is being received and fits what was announced and the limit\<close>
  "receiving c \<longleftrightarrow>
     (let r = request c in length (content (body r)) \<le> written r \<and> written r \<le> body_limit c
      \<and> (if chunked r then content_length r = 0 else written r < content_length r))"

definition received :: "connection \<Rightarrow> bool" where
  \<comment> \<open>the whole body has been received; \<open>earase\<close> may have left the read buffer unusable\<close>
  "received c \<longleftrightarrow>
     (let r = request c in length (content (body r)) \<le> written r
      \<and> (if chunked r then content_length r = 0 \<and> buf_ok (read_buffer c)
         else if content_length r = 0 then req_method r \<noteq> ''POST'' \<and> written r = 0 \<and> buf_ok (read_buffer c)
         else written r = content_length r))"

definition conn_ok :: "connection \<Rightarrow> bool" where
  "conn_ok c \<longleftrightarrow>
     (let r = request c in
      cfg_ok (config c) \<and> (\<forall>s \<in> set (configuration c). cfg_ok s)
      \<and> (case parse_state r of
           PSTATE_COMPLETE \<Rightarrow> buf_ok (body r) \<and> received c
         | PSTATE_ERROR \<Rightarrow> True
         | PSTATE_BODY \<Rightarrow> buf_ok (read_buffer c) \<and> buf_ok (body r) \<and> path r \<noteq> [] \<and> receiving c
         | PSTATE_HEADERS \<Rightarrow> buf_ok (read_buffer c) \<and> buf_ok (body r) \<and> path r \<noteq> [] \<and> fresh_body r \<and> hdrs_ok r
         | _ \<Rightarrow> buf_ok (read_buffer c) \<and> buf_ok (body r) \<and> fresh_body r \<and> hdrs_ok r))"

lemma body_limit_bounds: "cfg_ok (config c) \<Longrightarrow> 0 < body_limit c \<and> body_limit c < 2 ^ 60"
  by (auto simp: body_limit_def Let_def cfg_ok_def dest: matchLocation_in split: option.splits)

lemma applyLocationBodyLimit_sel [simp]:
  "config (applyLocationBodyLimit c) = config c" "configuration (applyLocationBodyLimit c) = configuration c"
  "parse_state (request (applyLocationBodyLimit c)) = parse_state (request c)"
  "path (request (applyLocationBodyLimit c)) = path (request c)"
  "written (request (applyLocationBodyLimit c)) = written (request c)"
  "content (body (request (applyLocationBodyLimit c))) = content (body (request c))"
  "content_length (request (applyLocationBodyLimit c)) = content_length (request c)"
  "chunked (request (applyLocationBodyLimit c)) = chunked (request c)"
  "chunk_size (request (applyLocationBodyLimit c)) = chunk_size (request c)"
  "chunk_trailing (request (applyLocationBodyLimit c)) = chunk_trailing (request c)"
  "chunk_done (request (applyLocationBodyLimit c)) = chunk_done (request c)"
  "headers (request (applyLocationBodyLimit c)) = headers (request c)"
  "req_method (request (applyLocationBodyLimit c)) = req_method (request c)"
  "content (read_buffer (applyLocationBodyLimit c)) = content (read_buffer c)"
  "buf_ok (read_buffer (applyLocationBodyLimit c)) = buf_ok (read_buffer c)"
  "buf_ok (body (request (applyLocationBodyLimit c))) = buf_ok (body (request c))"
  by (simp_all add: applyLocationBodyLimit_def Let_def map_request_def)

lemma body_limit_cong:
  "config a = config b \<Longrightarrow> path (request a) = path (request b) \<Longrightarrow> body_limit a = body_limit b"
  by (simp add: body_limit_def)

lemma body_limit_apply [simp]: "body_limit (applyLocationBodyLimit c) = body_limit c"
  by (rule body_limit_cong) simp_all

lemma conn_ok_limit [wf_intros]: "conn_ok c \<Longrightarrow> conn_ok (applyLocationBodyLimit c)"
  by (cases "parse_state (request c)")
    (auto simp: conn_ok_def Let_def receiving_def received_def fresh_body_def hdrs_ok_def)

lemma body_inv_limit:
  assumes "conn_ok c" "parse_state (request c) = PSTATE_BODY"
  shows "body_inv (body_limit c - spooled (request c)) (applyLocationBodyLimit c)"
proof -
  have "cfg_ok (config c)" "path (request c) \<noteq> []" using assms by (simp_all add: conn_ok_def Let_def)
  with body_limit_bounds [of c] assms show ?thesis
    by (simp add: body_inv_def Let_def conn_ok_def receiving_def spooled_def)
      (auto simp: applyLocationBodyLimit_def Let_def map_request_def)
qed

section \<open>The request line\<close>

definition line_frame :: "connection \<Rightarrow> connection \<Rightarrow> bool" where
  \<comment> \<open>\<open>_parseRequestLine\<close> reached a verdict and touched only these fields\<close>
  "line_frame c c' \<longleftrightarrow>
     (\<exists>rb m p q v st e. c' = c\<lparr>read_buffer := rb, request := (request c)
        \<lparr>req_method := m, path := p, query_string := q, version := v, parse_state := st, error_code := e\<rparr>\<rparr>
      \<and> buf_ok rb \<and> (st = PSTATE_ERROR \<or> (st = PSTATE_HEADERS \<and> p \<noteq> [])))"

lemma cleanPath_Nil_iff: "cleanPath p = [] \<longleftrightarrow> p = []"
proof
  assume "cleanPath p = []"
  then have "cleanPath_loop p False = []" by (auto simp: cleanPath_def Let_def split: if_splits)
  then show "p = []" by (cases p) (auto split: if_splits)
qed (simp add: cleanPath_def)

lemma set_target_path: "path (set_target u r) \<noteq> []"
  by (auto simp: set_target_def Let_def cleanPath_Nil_iff split: option.split)

lemma set_target_frame: "\<exists>p q. p \<noteq> [] \<and> set_target u r = r\<lparr>path := p, query_string := q\<rparr>"
  using set_target_path [of u r] by (auto simp: set_target_def Let_def split: option.splits if_splits)

lemma line_frameI:
  "c' = c\<lparr>read_buffer := rb, request := (request c)
        \<lparr>req_method := m, path := p, query_string := q, version := v, parse_state := st, error_code := e\<rparr>\<rparr> \<Longrightarrow>
   buf_ok rb \<Longrightarrow> st = PSTATE_ERROR \<or> (st = PSTATE_HEADERS \<and> p \<noteq> []) \<Longrightarrow> line_frame c c'"
  unfolding line_frame_def by blast

lemma fail_frame:
  assumes "buf_ok (read_buffer c)"
  shows "line_frame c (fail_request e (map_request (\<lambda>r. r\<lparr>req_method := m\<rparr>) c))" "line_frame c (fail_request e c)"
proof -
  have "fail_request e (map_request (\<lambda>r. r\<lparr>req_method := m\<rparr>) c) = c\<lparr>read_buffer := read_buffer c, request := (request c)
     \<lparr>req_method := m, path := path (request c), query_string := query_string (request c), version := version (request c),
       parse_state := PSTATE_ERROR, error_code := e\<rparr>\<rparr>" for m
    by (simp add: fail_request_def map_request_def)
  then show 1: "line_frame c (fail_request e (map_request (\<lambda>r. r\<lparr>req_method := m\<rparr>) c))" for m
    using assms unfolding line_frame_def by blast
  have "map_request (\<lambda>r. r\<lparr>req_method := req_method (request c)\<rparr>) c = c" by (simp add: map_request_def)
  with 1 [of "req_method (request c)"] show "line_frame c (fail_request e c)" by simp
qed

lemma finish_request_line_total:
  assumes ok: "buf_ok (read_buffer c)"
  shows "\<exists>c'. finish_request_line w data s c = Inr c' \<and> line_frame c c'"
proof (cases "method_start s = None \<or> method_end s = None \<or> uri_start s = None")
  case True
  then have "finish_request_line w data s c = Inr (fail_request 400 c)"
    by (auto simp: finish_request_line_def split: option.split)
  with fail_frame(2) [OF ok] show ?thesis by blast
next
  case False
  then obtain ms me us where se: "method_start s = Some ms" "method_end s = Some me" "uri_start s = Some us" by auto
  define ue where "ue = (case uri_end s of None \<Rightarrow> pos s | Some e \<Rightarrow> e)"
  define m where "m = substr data ms (me - ms)"
  define v where "v = ''HTTP/'' @ [chr (48 + nat (http_major s))] @ ''.'' @ [chr (48 + nat (http_minor s))]"
  obtain p q where pq: "p \<noteq> []" "set_target (origin_form (substr data us (ue - us))) ((request c)\<lparr>req_method := m, version := v\<rparr>)
      = (request c)\<lparr>req_method := m, version := v, path := p, query_string := q\<rparr>"
    using set_target_frame [of "origin_form (substr data us (ue - us))" "(request c)\<lparr>req_method := m, version := v\<rparr>"] by blast
  define c1 where "c1 = map_request (set_target (origin_form (substr data us (ue - us))))
      (map_request (\<lambda>r. r\<lparr>version := v\<rparr>) (map_request (\<lambda>r. r\<lparr>req_method := m\<rparr>) c))"
  have c1: "c1 = c\<lparr>request := (request c)\<lparr>req_method := m, version := v, path := p, query_string := q\<rparr>\<rparr>"
    using pq(2) by (simp add: c1_def map_request_def)
  obtain rb where rb: "Buffer_consume (read_buffer c) (pos s) = Inr rb"
    "content rb = drop (pos s) (content (read_buffer c))" "buf_ok rb" "cmbs rb = cmbs (read_buffer c)"
    using ok by (rule consume_ok)
  have st: "read_buffer (stat_target w c1) = read_buffer c"
    by (simp add: stat_target_def c1 map_request_def fail_request_def split: sum.split errno.split)
  have fr: "line_frame c (c\<lparr>request := (request c)\<lparr>req_method := m, version := v, path := p, query_string := q,
      parse_state := st, error_code := e\<rparr>, read_buffer := rb\<rparr>)" if "st = PSTATE_ERROR \<or> st = PSTATE_HEADERS" for st e
    by (rule line_frameI [where m = m and v = v and p = p and q = q and st = st and e = e, OF _ rb(3)])
      (use that pq(1) in auto)
  have "\<exists>st e. (st = PSTATE_ERROR \<or> st = PSTATE_HEADERS)
      \<and> stat_target w c1 = c\<lparr>request := (request c)\<lparr>req_method := m, version := v, path := p, query_string := q,
          parse_state := st, error_code := e\<rparr>\<rparr>"
  proof (cases "os_stat w (c_str (validatePath c1))")
    case (Inl err)
    then show ?thesis
      by (intro exI [of _ PSTATE_ERROR] exI [of _ "if err = EACCES then 403 else 404"])
        (simp add: stat_target_def c1 map_request_def fail_request_def split: errno.split)
  next
    case (Inr st)
    then show ?thesis
      by (intro exI [of _ PSTATE_HEADERS] exI [of _ "error_code (request c)"])
        (simp add: stat_target_def c1 map_request_def)
  qed
  with fr have frame: "line_frame c ((stat_target w c1)\<lparr>read_buffer := rb\<rparr>)" by auto
  have "finish_request_line w data s c =
      (if ue < us then Inr (fail_request 400 c)
       else if http_major s < 0 \<or> http_minor s < 0 then Inr (fail_request 400 c)
       else if \<not> (http_major s = 1 \<and> (http_minor s = 0 \<or> http_minor s = 1)) then Inr (fail_request 505 c)
       else if ue - us > 8192 then Inr (fail_request 414 c)
       else if m \<notin> set allowed_request_methods then Inr (fail_request 501 (map_request (\<lambda>r. r\<lparr>req_method := m\<rparr>) c))
       else Inr ((stat_target w c1)\<lparr>read_buffer := rb\<rparr>))"
    unfolding finish_request_line_def se prod.case option.case Let_def ue_def [symmetric] m_def [symmetric]
      v_def [symmetric] c1_def [symmetric] stat_target_def [symmetric]
    using rb(1) st by simp
  with frame fail_frame [OF ok] show ?thesis by (auto split: if_splits)
qed

lemma parseRequestLine_total:
  assumes "buf_ok (read_buffer c)"
  shows "\<exists>c'. parseRequestLine w c = Inr c' \<and> (c' = c \<or> line_frame c c')"
proof (cases "Buffer_size (read_buffer c) = 0")
  case False
  show ?thesis
  proof (cases "rl_run rl_init (content (read_buffer c))")
    case (RLDone s)
    with finish_request_line_total [OF assms, of w "content (read_buffer c)" s] False assms show ?thesis
      by (auto simp: parseRequestLine_def buf_ok_data)
  next
    case (RLFail e)
    with fail_frame(2) [OF assms] False assms show ?thesis by (auto simp: parseRequestLine_def buf_ok_data)
  qed (use False assms in \<open>auto simp: parseRequestLine_def buf_ok_data\<close>)
qed (simp add: parseRequestLine_def)

lemma line_frame_ok:
  assumes "conn_ok c" "parse_state (request c) \<in> {PSTATE_IDLE, PSTATE_REQUEST_LINE}" "line_frame c c'"
  shows "conn_ok c' \<and> parse_state (request c') \<in> {PSTATE_HEADERS, PSTATE_ERROR}"
  using assms by (auto simp: line_frame_def conn_ok_def Let_def fresh_body_def hdrs_ok_def)

section \<open>The headers\<close>

definition header_frame :: "connection \<Rightarrow> connection \<Rightarrow> bool" where
  \<comment> \<open>what \<open>_parseHeaders\<close> never touches\<close>
  "header_frame c c' \<longleftrightarrow>
     (let r = request c; r' = request c' in
      configuration c' = configuration c \<and> config c' \<in> insert (config c) (set (configuration c))
      \<and> path r' = path r \<and> written r' = written r \<and> content (body r') = content (body r)
      \<and> buf_ok (body r') = buf_ok (body r) \<and> chunk_size r' = chunk_size r \<and> chunk_trailing r' = chunk_trailing r
      \<and> chunk_done r' = chunk_done r \<and> buf_ok (read_buffer c') = buf_ok (read_buffer c))"

lemma header_frame_refl [simp]: "header_frame c c"
  by (simp add: header_frame_def Let_def)

lemma header_frame_map:
  "header_frame c c' \<Longrightarrow> (\<And>r. \<exists>h st e cl ch. f r = r\<lparr>headers := h, parse_state := st, error_code := e, content_length := cl, chunked := ch\<rparr>) \<Longrightarrow>
   header_frame c (map_request f c')"
proof -
  assume *: "header_frame c c'" "\<And>r. \<exists>h st e cl ch. f r = r\<lparr>headers := h, parse_state := st, error_code := e, content_length := cl, chunked := ch\<rparr>"
  obtain h st e cl ch where "f (request c') = (request c')\<lparr>headers := h, parse_state := st, error_code := e, content_length := cl, chunked := ch\<rparr>"
    using *(2) by blast
  with *(1) show ?thesis by (simp add: header_frame_def Let_def map_request_def)
qed

lemma override_host_frame: "header_frame c (override_host c h)"
proof -
  have "header_frame c (override_host_loop ss h c)" if "set ss \<subseteq> set (configuration c)" for ss
    using that by (induction ss) (auto simp: header_frame_def Let_def resize_buffers_def overide_conf_def)
  then show ?thesis by (simp add: override_host_def)
qed

lemma headers_framing_frame: "header_frame c c' \<Longrightarrow> header_frame c (headers_framing c')"
  by (simp add: header_frame_def headers_framing_def Let_def map_request_def fail_req_def split: sum.split)

lemma finish_headers_frame: "header_frame c (finish_headers c)"
proof (cases c rule: finish_headers_cases)
  case reject
  show ?thesis unfolding reject(2) by (simp add: header_frame_def Let_def map_request_def fail_req_def)
next
  case (host h p)
  have "header_frame c (map_request (set_header ''host'' h) (override_host c h))"
    using override_host_frame [of c h] by (simp add: header_frame_def Let_def set_header_def map_request_def)
  then show ?thesis unfolding host(3) by (rule headers_framing_frame)
qed (simp add: headers_framing_frame)

lemma map_request_config [simp]:
  "config (map_request f c) = config c" "configuration (map_request f c) = configuration c"
  by (simp_all add: map_request_def)

lemma parseHeaders_ok:
  assumes "conn_ok c" "parse_state (request c) = PSTATE_HEADERS"
  shows "\<exists>c'. parseHeaders c = Inr c' \<and> conn_ok c'
    \<and> parse_state (request c') \<in> {PSTATE_HEADERS, PSTATE_BODY, PSTATE_COMPLETE, PSTATE_ERROR}
    \<and> (parse_state (request c') \<noteq> PSTATE_ERROR \<longrightarrow> written (request c') = 0)"
proof -
  let ?r = "request c" and ?xs = "content (read_buffer c)"
  have ok: "buf_ok (read_buffer c)" "buf_ok (body ?r)" "cfg_ok (config c)" "\<forall>s \<in> set (configuration c). cfg_ok s"
    "path ?r \<noteq> []" "fresh_body ?r" "hdrs_ok ?r"
    using assms by (simp_all add: conn_ok_def Let_def)
  note run = parseHeaders_refines [OF ok(1)]
  note keep = run_headers_keeps [OF ok(7), of ?xs]
  show ?thesis
  proof (cases "run_parser headers_turn ?r ?xs")
    case (Waiting r rest)
    with run keep obtain rb h where *: "parseHeaders c = Inr (with_request c r rb)" "buf_ok rb"
      "hdrs_ok r" "r = ?r\<lparr>headers := h\<rparr>" by (auto simp: same_bytes_def)
    have "conn_ok (with_request c r rb)" "parse_state r = PSTATE_HEADERS" "written r = 0"
      using * ok assms(2) by (simp_all add: conn_ok_def Let_def with_request_def fresh_body_def)
    with *(1) show ?thesis by (auto simp: with_request_def)
  next
    case (Failed e)
    with run obtain rb r where *: "parseHeaders c = Inr (with_request c r rb)" "parse_state r = PSTATE_ERROR" by auto
    then have "conn_ok (with_request c r rb)"
      using ok by (simp add: conn_ok_def Let_def with_request_def)
    with * show ?thesis by auto
  next
    case (Stopped r rest)
    with run keep obtain rb h where *: "parseHeaders c = Inr (finish_headers (with_request c r rb))" "buf_ok rb"
      "hdrs_ok r" "r = ?r\<lparr>headers := h\<rparr>" by (auto simp: same_bytes_def)
    define c1 where "c1 = with_request c r rb"
    define c2 where "c2 = finish_headers c1"
    have c1: "buf_ok (read_buffer c1)" "buf_ok (body (request c1))" "cfg_ok (config c1)"
      "\<forall>s \<in> set (configuration c1). cfg_ok s" "path (request c1) \<noteq> []" "fresh_body (request c1)" "hdrs_ok (request c1)"
      using ok * by (simp_all add: c1_def fresh_body_def)
    have f: "header_frame c1 c2" unfolding c2_def by (rule finish_headers_frame)
    then have cfg: "cfg_ok (config c2)" "\<forall>s \<in> set (configuration c2). cfg_ok s"
      using c1(3,4) by (auto simp: header_frame_def Let_def)
    have st: "parse_state (request c2) \<in> {PSTATE_ERROR, PSTATE_COMPLETE, PSTATE_BODY}"
      unfolding c2_def by (rule finish_headers_state)
    have framed: "framed c2" if "parse_state (request c2) \<noteq> PSTATE_ERROR"
      using finish_headers_safe [of c1] c1(6,7) cfg(1) that by (simp add: c2_def fresh_body_def cfg_ok_def)
    have w: "written (request c2) = 0" using f c1(6) by (simp add: header_frame_def Let_def fresh_body_def)
    have "conn_ok c2"
      using st
    proof (elim insertE emptyE)
      assume "parse_state (request c2) = PSTATE_ERROR"
      with cfg show ?thesis by (simp add: conn_ok_def Let_def)
    next
      assume s: "parse_state (request c2) = PSTATE_COMPLETE"
      with framed have "\<not> chunked (request c2)" "content_length (request c2) = 0" "req_method (request c2) \<noteq> ''POST''"
        by (simp_all add: framed_def Let_def)
      with s f cfg c1 w show ?thesis by (simp add: conn_ok_def Let_def received_def header_frame_def fresh_body_def)
    next
      assume s: "parse_state (request c2) = PSTATE_BODY"
      with framed have "if chunked (request c2) then content_length (request c2) = 0 else 0 < content_length (request c2)"
        by (auto simp: framed_def Let_def)
      with s f cfg c1 w show ?thesis by (auto simp: conn_ok_def Let_def receiving_def header_frame_def fresh_body_def)
    qed
    with *(1) st w show ?thesis by (auto simp: c1_def c2_def)
  qed
qed

lemma fail_body_ok:
  assumes "cfg_ok (config c)" "\<forall>s \<in> set (configuration c). cfg_ok s"
  shows "conn_ok (map_request (fail_req e) c)"
  using assms by (simp add: conn_ok_def Let_def map_request_def fail_req_def)

lemma feed_body_ok:
  assumes "conn_ok c"
  shows "\<exists>c'. feed_body (applyLocationBodyLimit c) = Inr c' \<and> conn_ok c' \<and>
    (parse_state (request c') = parse_state (request c)
     \<or> parse_state (request c) = PSTATE_BODY \<and> parse_state (request c') \<in> {PSTATE_COMPLETE, PSTATE_ERROR})
    \<and> (parse_state (request c') \<noteq> PSTATE_ERROR \<longrightarrow> spooled (request c') = spooled (request c)
         \<and> (written (request c) = 0 \<or> parse_state (request c) = PSTATE_BODY
              \<longrightarrow> written (request c') \<le> max_body_size (request c') \<and> written (request c') < 2 ^ 61))"
proof (cases "parse_state (request c) = PSTATE_BODY")
  case False
  with conn_ok_limit [OF assms] show ?thesis by (simp add: feed_body_def spooled_def)
next
  case body: True
  define c1 where "c1 = applyLocationBodyLimit c"
  define limit where "limit = body_limit c1 - spooled (request c)"
  have inv: "body_inv limit c1" "conn_ok c1"
    using body_inv_limit [OF assms body] conn_ok_limit [OF assms] by (simp_all add: c1_def limit_def)
  have st: "parse_state (request c1) = PSTATE_BODY" using body by (simp add: c1_def)
  have ok: "cfg_ok (config c1)" "\<forall>s \<in> set (configuration c1). cfg_ok s" "path (request c1) \<noteq> []" "receiving c1"
    using inv(2) st by (simp_all add: conn_ok_def Let_def)
  have max: "max_body_size (request c1) = body_limit c1"
    unfolding c1_def body_limit_apply
    using assms body by (simp add: applyLocationBodyLimit_def conn_ok_def map_request_def Let_def)
  have sp: "spooled (request c1) = spooled (request c)" by (simp add: c1_def spooled_def)
  have within: "spooled (request c') = spooled (request c) \<and> written (request c') \<le> max_body_size (request c')
      \<and> written (request c') < 2 ^ 61"
    if "body_inv limit c'" "max_body_size (request c') = max_body_size (request c1)" for c'
  proof -
    have "written (request c') \<le> max_body_size (request c')" "max_body_size (request c') < 2 ^ 61"
        "spooled (request c') = spooled (request c)"
      using that inv(1) sp by (auto simp: body_inv_def spooled_def Let_def)
    then show ?thesis by linarith
  qed
  have *: "conn_ok c'" if "config c' = config c1" "configuration c' = configuration c1" "path (request c') = path (request c1)"
    "content_length (request c') = content_length (request c1)" "chunked (request c') = chunked (request c1)"
    "max_body_size (request c') = max_body_size (request c1)" "body_inv limit c'" "parse_state (request c') = PSTATE_BODY" "if chunked (request c') then content_length (request c') = 0 else written (request c') < content_length (request c')" for c'
  proof -
    have "body_limit c' = body_limit c1" using that(1,3) by (rule body_limit_cong)
    moreover have "written (request c') \<le> max_body_size (request c1)"
      using that(6,7) by (auto simp: body_inv_def spooled_def Let_def)
    ultimately show ?thesis using that ok max
      by (simp add: conn_ok_def Let_def body_inv_def receiving_def)
  qed
  show ?thesis
  proof (cases "chunked (request c1)")
    case True
    obtain c' where c': "parseChunked c1 = Some (Inr c')"
      "final limit c1 (run_parser (chunk_turn limit) (decoder_of (request c1)) (content (read_buffer c1))) c'"
      using parseChunked_refines [OF inv(1)] by blast
    have run: "feed_body c1 = Inr c'" using st True c'(1) by (simp add: feed_body_def)
    have post: "conn_ok c' \<and> (parse_state (request c') = PSTATE_BODY \<or> parse_state (request c') \<in> {PSTATE_COMPLETE, PSTATE_ERROR})
        \<and> (parse_state (request c') \<noteq> PSTATE_ERROR \<longrightarrow> spooled (request c') = spooled (request c)
          \<and> written (request c') \<le> max_body_size (request c') \<and> written (request c') < 2 ^ 61)"
      using c'(2)
    proof (cases "run_parser (chunk_turn limit) (decoder_of (request c1)) (content (read_buffer c1))")
      case (Waiting d rest)
      with c'(2) have "moved limit c1 c' d rest" by (simp add: final_def)
      then have m: "body_inv limit c'" "body_frame c1 c'" by (simp_all add: moved_def)
      then have "max_body_size (request c') = max_body_size (request c1)" by (auto simp: body_frame_def)
      moreover have "content_length (request c1) = 0" using True ok(4) by (simp add: receiving_def Let_def)
      ultimately show ?thesis using within [OF m(1)] m st True by (auto simp: body_frame_def intro!: *)
    next
      case (Stopped d rest)
      with c'(2) obtain c0 where m: "body_inv limit c0" "body_frame c1 c0" "c' = complete c0"
        by (auto simp: final_def moved_def)
      then have fr: "max_body_size (request c0) = max_body_size (request c1)" "config c0 = config c1"
          "configuration c0 = configuration c1" "chunked (request c0)" "content_length (request c0) = 0"
        using True ok(4) by (auto simp: body_frame_def receiving_def Let_def)
      have "buf_ok (body (request c0))" "buf_ok (read_buffer c0)" "length (content (body (request c0))) \<le> written (request c0)"
        using m(1) by (simp_all add: body_inv_def Let_def)
      with ok fr have "conn_ok c'"
        unfolding m(3) by (simp add: complete_def conn_ok_def received_def map_request_def Let_def)
      moreover have "spooled (request c') = spooled (request c0)" "written (request c') = written (request c0)"
          "max_body_size (request c') = max_body_size (request c0)" "parse_state (request c') = PSTATE_COMPLETE"
        unfolding m(3) by (simp_all add: complete_def map_request_def spooled_def)
      ultimately show ?thesis using within [OF m(1) fr(1)] by simp
    next
      case (Failed e)
      with c'(2) obtain c0 d rest where "moved limit c1 c0 d rest" "c' = map_request (fail_req e) c0" by (auto simp: final_def)
      then show ?thesis using ok fail_body_ok [of c0 e] by (auto simp: moved_def body_frame_def)
    qed
    show ?thesis
      unfolding c1_def [symmetric] by (rule exI [of _ c']) (use run post body in \<open>simp; blast\<close>)
  next
    case False
    have less: "written (request c1) < content_length (request c1)" using ok(4) False by (simp add: receiving_def Let_def)
    have within1: "spooled (request c1) = spooled (request c) \<and> written (request c1) \<le> max_body_size (request c1)
        \<and> written (request c1) < 2 ^ 61"
      by (rule within [OF inv(1) refl])
    have run: "feed_body c1 = parseBody c1" using st False by (simp add: feed_body_def)
    define n where "n = min (content_length (request c1) - written (request c1)) (length (content (read_buffer c1)))"
    have spec: "if content (read_buffer c1) = [] then parseBody c1 = Inr c1
      else if length (content (body (request c1))) + n > limit then parseBody c1 = Inr (map_request (fail_req 413) c1)
      else \<exists>b rb. content b = content (body (request c1)) @ take n (content (read_buffer c1)) \<and> buf_ok b \<and> cmbs b = max_body_size (request c1)
        \<and> (if written (request c1) + n = content_length (request c1)
           then parseBody c1 = Inr (c1\<lparr>read_buffer := Buffer_earase rb, request :=
               (request c1)\<lparr>body := b, written := written (request c1) + n, parse_state := PSTATE_COMPLETE\<rparr>\<rparr>)
           else parseBody c1 = Inr (c1\<lparr>read_buffer := rb, request := (request c1)\<lparr>body := b, written := written (request c1) + n\<rparr>\<rparr>)
             \<and> content rb = [] \<and> buf_ok rb \<and> cmbs rb = cmbs (read_buffer c1))"
      by (rule parseBody_spec [OF inv(1) _ _ n_def]) (use less in simp_all)
    consider "parseBody c1 = Inr c1" | "parseBody c1 = Inr (map_request (fail_req 413) c1)"
      | b rb where "\<not> length (content (body (request c1))) + n > limit"
        "content b = content (body (request c1)) @ take n (content (read_buffer c1))" "buf_ok b" "cmbs b = max_body_size (request c1)"
        "if written (request c1) + n = content_length (request c1)
           then parseBody c1 = Inr (c1\<lparr>read_buffer := Buffer_earase rb, request :=
               (request c1)\<lparr>body := b, written := written (request c1) + n, parse_state := PSTATE_COMPLETE\<rparr>\<rparr>)
           else parseBody c1 = Inr (c1\<lparr>read_buffer := rb, request := (request c1)\<lparr>body := b, written := written (request c1) + n\<rparr>\<rparr>)
             \<and> content rb = [] \<and> buf_ok rb \<and> cmbs rb = cmbs (read_buffer c1)"
    proof (cases "content (read_buffer c1) = []")
      case True
      with spec have "parseBody c1 = Inr c1" by simp
      then show thesis by (rule that(1))
    next
      case ne: False
      note spec = spec [unfolded if_not_P [OF ne]]
      show thesis
      proof (cases "length (content (body (request c1))) + n > limit")
        case True
        from spec [unfolded if_P [OF True]] show thesis by (rule that(2))
      next
        case False
        from spec [unfolded if_not_P [OF False]] show thesis using that(3) [OF False] by blast
      qed
    qed
    then show ?thesis
    proof cases
      case 1
      with run inv(2) body within1 show ?thesis by (auto simp: c1_def)
    next
      case 2
      with run fail_body_ok [OF ok(1,2)] body show ?thesis by (auto simp: c1_def)
    next
      case (3 b rb)
      have w: "length (content (body (request c1))) \<le> written (request c1)" "spooled (request c1) + limit = max_body_size (request c1)"
          "max_body_size (request c1) < 2 ^ 61"
        using inv(1) by (simp_all add: body_inv_def Let_def)
      have n: "n \<le> length (content (read_buffer c1))" "written (request c1) + n \<le> content_length (request c1)"
        using less by (auto simp: n_def)
      have len: "length (content b) = length (content (body (request c1))) + n" using 3(2) n(1) by simp
      show ?thesis
      proof (cases "written (request c1) + n = content_length (request c1)")
        case True
        with 3(5) run have "feed_body c1 = Inr (c1\<lparr>read_buffer := Buffer_earase rb, request :=
               (request c1)\<lparr>body := b, written := written (request c1) + n, parse_state := PSTATE_COMPLETE\<rparr>\<rparr>)" by simp
        moreover have "conn_ok (c1\<lparr>read_buffer := Buffer_earase rb, request :=
               (request c1)\<lparr>body := b, written := written (request c1) + n, parse_state := PSTATE_COMPLETE\<rparr>\<rparr>)"
          using ok 3(3) w(1) len True less False by (simp add: conn_ok_def received_def Let_def)
        moreover have "spooled ((request c1)\<lparr>body := b, written := written (request c1) + n, parse_state := PSTATE_COMPLETE\<rparr>)
            = spooled (request c)" using len sp by (simp add: spooled_def)
        moreover have "written (request c1) + n \<le> max_body_size (request c1)"
          using 3(1) w(1,2) by (auto simp: spooled_def)
        moreover from this w(3) have "written (request c1) + n < 2 ^ 61" by linarith
        ultimately show ?thesis using body by (auto simp: c1_def)
      next
        case neq: False
        let ?c2 = "c1\<lparr>read_buffer := rb, request := (request c1)\<lparr>body := b, written := written (request c1) + n\<rparr>\<rparr>"
        have p: "feed_body c1 = Inr ?c2" "buf_ok rb" using neq 3(5) run by simp_all
        have sp: "spooled (request ?c2) = spooled (request c1)" using len by (simp add: spooled_def)
        have i: "body_inv limit ?c2"
          unfolding body_inv_def Let_def sp using p(2) 3(1,3,4) w len by simp
        have "conn_ok ?c2"
          by (rule *) (use st i n(2) neq False in simp_all)
        with p(1) st body within [OF i] show ?thesis by (auto simp: c1_def)
      qed
    qed
  qed
qed

section \<open>Feeding\<close>

lemma early_fresh:
  assumes "conn_ok c" "parse_state (request c) \<in> {PSTATE_IDLE, PSTATE_REQUEST_LINE, PSTATE_HEADERS}"
  shows "written (request c) = 0 \<and> spooled (request c) = 0"
  using assms by (auto simp: conn_ok_def Let_def fresh_body_def spooled_def)

lemma feed_ok:
  assumes "conn_ok c"
  shows "\<exists>c'. feed w c = Inr c' \<and> conn_ok c' \<and> parse_state (request c) \<le> parse_state (request c')
    \<and> (parse_state (request c') \<noteq> PSTATE_ERROR \<longrightarrow> spooled (request c') = spooled (request c)
         \<and> (parse_state (request c) \<noteq> PSTATE_COMPLETE \<longrightarrow> written (request c') \<le> max_body_size (request c') \<and> written (request c') < 2 ^ 61))"
proof (cases "parse_state (request c) = PSTATE_COMPLETE \<or> parse_state (request c) = PSTATE_ERROR")
  case False
  define c1 where "c1 = (if parse_state (request c) = PSTATE_IDLE
      then map_request (\<lambda>r. r\<lparr>parse_state := PSTATE_REQUEST_LINE\<rparr>) c else c)"
  have c1: "conn_ok c1" "parse_state (request c1) \<in> {PSTATE_REQUEST_LINE, PSTATE_HEADERS, PSTATE_BODY}"
    "parse_state (request c) \<le> parse_state (request c1)"
    using assms False unfolding c1_def
    by (cases "parse_state (request c)";
        auto simp: conn_ok_def Let_def map_request_def fresh_body_def hdrs_ok_def less_eq_ParseState_def)+
  define line where "line = (if parse_state (request c1) = PSTATE_REQUEST_LINE then
             rbind (parseRequestLine w c1) (\<lambda>c. Inr (if parse_state (request c) \<noteq> PSTATE_REQUEST_LINE then applyLocationBodyLimit c else c))
           else Inr c1)"
  have sp1: "spooled (request c1) = spooled (request c)" by (simp add: c1_def map_request_def spooled_def)
  obtain c2 where c2: "line = Inr c2" "conn_ok c2" "parse_state (request c1) \<le> parse_state (request c2)"
    "parse_state (request c2) \<in> {PSTATE_REQUEST_LINE, PSTATE_HEADERS, PSTATE_ERROR}
     \<or> (parse_state (request c2) = PSTATE_BODY \<and> c2 = c1)"
  proof (cases "parse_state (request c1) = PSTATE_REQUEST_LINE")
    case True
    then have "buf_ok (read_buffer c1)" using c1(1) by (simp add: conn_ok_def Let_def)
    then obtain d where d: "parseRequestLine w c1 = Inr d" "d = c1 \<or> line_frame c1 d"
      using parseRequestLine_total by blast
    show thesis
    proof (cases "parse_state (request d) = PSTATE_REQUEST_LINE")
      case rl: True
      with d True line_frame_ok [OF c1(1), of d] have "d = c1" by auto
      with d(1) True that [of c1] c1(1) show thesis by (simp add: line_def)
    next
      case rl: False
      with d(2) True have "line_frame c1 d" by auto
      with line_frame_ok [OF c1(1), of d] True have
        "conn_ok d" "parse_state (request d) = PSTATE_HEADERS \<or> parse_state (request d) = PSTATE_ERROR" by auto
      with d(1) rl True that [of "applyLocationBodyLimit d"] conn_ok_limit [of d] show thesis
        by (auto simp: line_def less_eq_ParseState_def)
    qed
  next
    case False
    with that [of c1] c1(1,2) show thesis by (auto simp: line_def)
  qed
  have sp2: "spooled (request c2) = spooled (request c1)" if "parse_state (request c2) \<noteq> PSTATE_ERROR"
  proof (cases "parse_state (request c2) = PSTATE_BODY")
    case True
    with c2(4) show ?thesis by auto
  next
    case False
    with that c2(4) have "parse_state (request c2) \<in> {PSTATE_IDLE, PSTATE_REQUEST_LINE, PSTATE_HEADERS}" by auto
    moreover from this c1(2) c2(3) have "parse_state (request c1) \<in> {PSTATE_IDLE, PSTATE_REQUEST_LINE, PSTATE_HEADERS}"
      by (auto simp: less_eq_ParseState_def)
    ultimately show ?thesis using early_fresh [OF c1(1)] early_fresh [OF c2(2)] by simp
  qed
  define hd where "hd = (if parse_state (request c2) = PSTATE_HEADERS then parseHeaders c2 else Inr c2)"
  obtain c3 where c3: "hd = Inr c3" "conn_ok c3" "parse_state (request c2) \<le> parse_state (request c3)"
    "parse_state (request c3) \<noteq> PSTATE_ERROR \<longrightarrow> spooled (request c3) = spooled (request c2)
      \<and> (written (request c3) = 0 \<or> parse_state (request c3) = PSTATE_BODY)"
  proof (cases "parse_state (request c2) = PSTATE_HEADERS")
    case True
    obtain c3 where "parseHeaders c2 = Inr c3" "conn_ok c3"
      "parse_state (request c3) \<in> {PSTATE_HEADERS, PSTATE_BODY, PSTATE_COMPLETE, PSTATE_ERROR}"
      "parse_state (request c3) \<noteq> PSTATE_ERROR \<longrightarrow> written (request c3) = 0"
      using parseHeaders_ok [OF c2(2) True] by blast
    moreover have "spooled (request c2) = 0" using early_fresh [OF c2(2)] True by simp
    ultimately show thesis using that [of c3] True by (auto simp: hd_def less_eq_ParseState_def spooled_def)
  next
    case False
    with that [of c2] c2(2,4) early_fresh [OF c2(2)] show thesis by (auto simp: hd_def)
  qed
  obtain c4 where c4: "feed_body (applyLocationBodyLimit c3) = Inr c4" "conn_ok c4"
    "parse_state (request c4) = parse_state (request c3)
     \<or> parse_state (request c3) = PSTATE_BODY \<and> parse_state (request c4) \<in> {PSTATE_COMPLETE, PSTATE_ERROR}"
    "parse_state (request c4) \<noteq> PSTATE_ERROR \<longrightarrow> spooled (request c4) = spooled (request c3)
         \<and> (written (request c3) = 0 \<or> parse_state (request c3) = PSTATE_BODY
              \<longrightarrow> written (request c4) \<le> max_body_size (request c4) \<and> written (request c4) < 2 ^ 61)"
    using feed_body_ok [OF c3(2)] by blast
  have le4: "parse_state (request c3) \<le> parse_state (request c4)" using c4(3) by (auto simp: less_eq_ParseState_def)
  have "spooled (request c4) = spooled (request c) \<and> written (request c4) \<le> max_body_size (request c4)
      \<and> written (request c4) < 2 ^ 61"
    if "parse_state (request c4) \<noteq> PSTATE_ERROR"
  proof -
    have n3: "parse_state (request c3) \<noteq> PSTATE_ERROR" using that c4(3) by auto
    then have "parse_state (request c2) \<noteq> PSTATE_ERROR" using c3(3) by (cases "parse_state (request c3)") (auto simp: less_eq_ParseState_def)
    with sp1 sp2 n3 c3(4) c4(4) that show ?thesis by simp
  qed
  note post = this
  have "feed w c = rbind line (\<lambda>c. rbind (if parse_state (request c) = PSTATE_HEADERS then parseHeaders c else Inr c)
          (\<lambda>c. feed_body (applyLocationBodyLimit c)))"
    unfolding feed_def if_not_P [OF False] Let_def line_def c1_def ..
  then have "feed w c = Inr c4" using c2(1) c3(1) c4(1) by (simp add: hd_def)
  moreover have "parse_state (request c) \<le> parse_state (request c4)"
    using c1(3) c2(3) c3(3) le4 by (meson order_trans)
  ultimately show ?thesis using c4(2) post by blast
qed (use assms in \<open>auto simp: feed_def\<close>)

section \<open>What the parser leaves alone\<close>

definition outer_same :: "connection \<Rightarrow> connection \<Rightarrow> bool" where
  \<comment> \<open>the part of a connection that belongs to the event loop\<close>
  "outer_same c c' \<longleftrightarrow>
     (let r = request c; r' = request c' in
      state c' = state c \<and> fd c' = fd c \<and> conn_num c' = conn_num c \<and> last_active c' = last_active c
      \<and> peer_half_closed c' = peer_half_closed c \<and> client_ip c' = client_ip c \<and> configuration c' = configuration c
      \<and> content (write_buffer c') = content (write_buffer c) \<and> buf_ok (write_buffer c') = buf_ok (write_buffer c)
      \<and> opened r' = opened r \<and> opened_file r' = opened_file r \<and> tmp_body_path r' = tmp_body_path r
      \<and> body_file_written r' = body_file_written r)"

lemma outer_refl [simp]: "outer_same c c"
  by (simp add: outer_same_def Let_def)

lemma outer_trans: "outer_same a b \<Longrightarrow> outer_same b c \<Longrightarrow> outer_same a c"
  by (simp add: outer_same_def Let_def)

lemma outer_line: "line_frame c c' \<Longrightarrow> outer_same c c'"
  by (auto simp: line_frame_def outer_same_def Let_def)

lemma outer_body: "body_frame c c' \<Longrightarrow> outer_same c c'"
  by (auto simp: body_frame_def outer_same_def Let_def)

lemma outer_limit: "outer_same c (applyLocationBodyLimit c)"
  by (simp add: outer_same_def applyLocationBodyLimit_def map_request_def Let_def)

lemma outer_map:
  assumes "\<And>r. opened (f r) = opened r \<and> opened_file (f r) = opened_file r \<and> tmp_body_path (f r) = tmp_body_path r
    \<and> body_file_written (f r) = body_file_written r"
  shows "outer_same c (map_request f c)"
  using assms [of "request c"] by (simp add: outer_same_def map_request_def Let_def)

lemma outer_fail: "outer_same c (map_request (fail_req e) c)"
  by (rule outer_map) (simp add: fail_req_def)

lemma outer_framing: "outer_same c (headers_framing c)"
  by (simp add: outer_same_def headers_framing_def Let_def map_request_def fail_req_def split: sum.split)

lemma outer_host: "outer_same c (override_host c h)"
proof -
  have "outer_same c (override_host_loop ss h c)" for ss
    by (induction ss) (auto simp: outer_same_def Let_def resize_buffers_def overide_conf_def)
  then show ?thesis by (simp add: override_host_def)
qed

lemma outer_finish: "outer_same c (finish_headers c)"
proof (cases c rule: finish_headers_cases)
  case reject
  then show ?thesis by (simp add: outer_fail)
next
  case (host h p)
  have "outer_same (override_host c h) (map_request (set_header ''host'' h) (override_host c h))"
    by (rule outer_map) (simp add: set_header_def)
  with outer_host outer_framing show ?thesis unfolding host(3) by (blast intro: outer_trans)
qed (simp add: outer_framing)

definition spool_fields :: "http_request \<Rightarrow> bool \<times> int \<times> string \<times> nat" where
  "spool_fields r = (opened r, opened_file r, tmp_body_path r, body_file_written r)"

lemma header_line_spool:
  "case header_line l r of Inl r' \<Rightarrow> spool_fields r' = spool_fields r | Inr r' \<Rightarrow> spool_fields r' = spool_fields r"
  by (simp add: header_line_def rbind_def fail_req_def set_header_def spool_fields_def Let_def split: option.split sum.split)

lemma outer_with_request:
  "spool_fields r = spool_fields (request c) \<Longrightarrow> outer_same c (c\<lparr>read_buffer := rb, request := r\<rparr>)"
  by (simp add: outer_same_def spool_fields_def Let_def)

lemma outer_header_turn:
  assumes "parse_header_line c = Inr out"
  shows "case out of LineWait \<Rightarrow> True | LineEnd c' \<Rightarrow> outer_same c c' | LineReturn c' \<Rightarrow> outer_same c c' | LineNext c' \<Rightarrow> outer_same c c'"
proof -
  have rb: "outer_same c (c\<lparr>read_buffer := b\<rparr>)" for b
    by (simp add: outer_same_def Let_def)
  have rq: "header_line l (request c) = Inl r \<Longrightarrow> outer_same c (c\<lparr>read_buffer := b, request := r\<rparr>)"
    "header_line l (request c) = Inr r \<Longrightarrow> outer_same c (c\<lparr>read_buffer := b, request := r\<rparr>)" for l r b
    using header_line_spool [where l = l and r = "request c"] by (simp_all add: outer_with_request)
  show ?thesis
  proof (cases "Buffer_size (read_buffer c) = 0")
    case False
    then obtain data where data: "Buffer_data (read_buffer c) = Inr data"
      using assms by (cases "Buffer_data (read_buffer c)") (auto simp: parse_header_line_def Let_def)
    show ?thesis
    proof (cases "find_crlf data")
      case (Some p)
      note eval = assms [unfolded parse_header_line_def Let_def if_not_P [OF False] data with_state_simps rbind_simps Some option.case]
      consider "p > 8192" | "\<not> p > 8192" "p = 0" | "\<not> p > 8192" "p \<noteq> 0" by blast
      then show ?thesis
      proof cases
        case 1
        with eval have "out = LineReturn (map_request (fail_req 431) c)" by simp
        then show ?thesis by (simp add: outer_fail)
      next
        case 2
        with eval obtain b where "out = LineEnd (c\<lparr>read_buffer := b\<rparr>)" by (auto elim: rbind_InrE)
        then show ?thesis by (simp add: rb)
      next
        case 3
        with eval obtain b where "(case header_line (take p data) (request c) of
            Inl r \<Rightarrow> Inr (LineReturn (c\<lparr>read_buffer := b, request := r\<rparr>))
          | Inr r \<Rightarrow> Inr (LineNext (c\<lparr>read_buffer := b, request := r\<rparr>))) = (Inr out :: (failure \<times> connection) + line_outcome)"
          by (auto elim: rbind_InrE)
        then show ?thesis
          using rq [of "take p data"] by (cases "header_line (take p data) (request c)") auto
      qed
    qed (use assms False data in \<open>simp add: parse_header_line_def Let_def\<close>)
  qed (use assms in \<open>simp add: parse_header_line_def Let_def\<close>)
qed

lemma outer_headers: "parseHeaders c = Inr c' \<Longrightarrow> outer_same c c'"
proof (induction c rule: parseHeaders.induct)
  case (1 c)
  from "1.prems" obtain out where out: "parse_header_line c = Inr out"
    by (subst (asm) parseHeaders.simps) (auto simp: rbind_Inr_iff)
  note turn = outer_header_turn [OF out]
  have eq: "(case out of LineWait \<Rightarrow> Inr c | LineEnd c' \<Rightarrow> Inr (finish_headers c') | LineReturn c' \<Rightarrow> Inr c'
         | LineNext c' \<Rightarrow> parseHeaders c') = Inr c'"
    using "1.prems" out by (simp add: parseHeaders.simps [of c])
  show ?case
  proof (cases out)
    case (LineNext d)
    with eq have "parseHeaders d = Inr c'" by simp
    from "1.IH" [OF out LineNext this] LineNext turn show ?thesis by (simp add: outer_trans [of c d])
  next
    case (LineEnd d)
    with eq have "c' = finish_headers d" by simp
    with LineEnd turn outer_finish [of d] show ?thesis by (simp add: outer_trans [of c d])
  qed (use eq turn in simp_all)
qed

lemma outer_parseBody:
  assumes "parseBody c = Inr c'"
  shows "outer_same c c'"
proof -
  have move: "outer_same c d" if "move_to_body n c = Inr d" for n d
    using that by (auto simp: move_to_body_def rbind_Inr_iff map_request_def outer_same_def Let_def)
  have fin: "outer_same c (map_request (\<lambda>r. r\<lparr>parse_state := PSTATE_COMPLETE\<rparr>) (d\<lparr>read_buffer := b\<rparr>))" if "outer_same c d" for d b
    using that by (simp add: outer_same_def map_request_def Let_def)
  show ?thesis
    using assms move fin outer_fail [of c]
    by (auto simp: parseBody_def Let_def rbind_Inr_iff split: if_splits)
qed

lemma outer_chunked:
  assumes "body_inv limit c" "parseChunked c = Some (Inr c')"
  shows "outer_same c c'"
proof -
  obtain d where "parseChunked c = Some (Inr d)"
    "final limit c (run_parser (chunk_turn limit) (decoder_of (request c)) (content (read_buffer c))) d"
    using parseChunked_refines [OF assms(1)] by blast
  then have "final limit c (run_parser (chunk_turn limit) (decoder_of (request c)) (content (read_buffer c))) c'"
    using assms(2) by simp
  moreover have "outer_same d (complete d)" for d
    unfolding complete_def by (rule outer_map) simp
  ultimately show ?thesis
    by (cases "run_parser (chunk_turn limit) (decoder_of (request c)) (content (read_buffer c))")
      (auto simp: final_def moved_def intro: outer_body outer_trans outer_fail)
qed

lemma line_stage:
  assumes "conn_ok c" "parse_state (request c) = PSTATE_REQUEST_LINE" "parseRequestLine w c = Inr c'"
  shows "conn_ok c' \<and> outer_same c c'"
proof -
  have "buf_ok (read_buffer c)" using assms(1,2) by (simp add: conn_ok_def Let_def)
  from parseRequestLine_total [OF this, of w] assms(3) have "c' = c \<or> line_frame c c'" by auto
  with line_frame_ok [OF assms(1), of c'] assms(1,2) outer_line [of c c'] show ?thesis by auto
qed

lemma body_stage:
  assumes "conn_ok c" "feed_body (applyLocationBodyLimit c) = Inr c'"
  shows "outer_same c c'"
proof -
  let ?c = "applyLocationBodyLimit c"
  have "outer_same ?c c'"
  proof (cases "parse_state (request ?c) = PSTATE_BODY")
    case True
    show ?thesis
    proof (cases "chunked (request ?c)")
      case chunked: True
      have "body_inv (body_limit c - spooled (request c)) ?c"
        using body_inv_limit [OF assms(1)] True by simp
      moreover have "parseChunked ?c = Some (Inr c')"
        using assms(2) True chunked by (simp add: feed_body_def split: option.splits)
      ultimately show ?thesis by (rule outer_chunked)
    next
      case False
      with assms(2) True show ?thesis by (simp add: feed_body_def outer_parseBody)
    qed
  qed (use assms(2) in \<open>simp add: feed_body_def\<close>)
  with outer_limit show ?thesis by (rule outer_trans)
qed

lemma outer_feed:
  assumes "conn_ok c" "feed w c = Inr c'"
  shows "outer_same c c'"
proof (cases "parse_state (request c) = PSTATE_COMPLETE \<or> parse_state (request c) = PSTATE_ERROR")
  case True
  then show ?thesis using assms(2) unfolding feed_def if_P [OF True] by simp
next
  case False
  define c1 where "c1 = (if parse_state (request c) = PSTATE_IDLE
      then map_request (\<lambda>r. r\<lparr>parse_state := PSTATE_REQUEST_LINE\<rparr>) c else c)"
  have o1: "outer_same c c1"
    unfolding c1_def by (cases "parse_state (request c) = PSTATE_IDLE") (simp_all add: outer_map)
  have k1: "conn_ok c1"
    using assms(1) False unfolding c1_def
    by (cases "parse_state (request c)"; auto simp: conn_ok_def Let_def map_request_def fresh_body_def hdrs_ok_def)
  obtain c2 where c2: "(if parse_state (request c1) = PSTATE_REQUEST_LINE then
             rbind (parseRequestLine w c1) (\<lambda>c. Inr (if parse_state (request c) \<noteq> PSTATE_REQUEST_LINE then applyLocationBodyLimit c else c))
           else Inr c1) = Inr c2"
      "rbind (if parse_state (request c2) = PSTATE_HEADERS then parseHeaders c2 else Inr c2)
          (\<lambda>c. feed_body (applyLocationBodyLimit c)) = Inr c'"
    using assms(2) unfolding feed_def if_not_P [OF False] Let_def c1_def [symmetric] by (rule rbind_InrE)
  have k2: "conn_ok c2 \<and> outer_same c1 c2"
  proof (cases "parse_state (request c1) = PSTATE_REQUEST_LINE")
    case True
    with c2(1) obtain d where d: "parseRequestLine w c1 = Inr d"
      "c2 = (if parse_state (request d) \<noteq> PSTATE_REQUEST_LINE then applyLocationBodyLimit d else d)"
      by (auto elim: rbind_InrE)
    with line_stage [OF k1 True d(1)] conn_ok_limit [of d] outer_limit [of d] show ?thesis by (auto intro: outer_trans)
  next
    case False
    with c2(1) k1 show ?thesis by simp
  qed
  obtain c3 where c3: "(if parse_state (request c2) = PSTATE_HEADERS then parseHeaders c2 else Inr c2) = Inr c3"
      "feed_body (applyLocationBodyLimit c3) = Inr c'"
    using c2(2) by (rule rbind_InrE)
  have k3: "conn_ok c3 \<and> outer_same c2 c3"
  proof (cases "parse_state (request c2) = PSTATE_HEADERS")
    case True
    with c3(1) k2 parseHeaders_ok [of c2] outer_headers [of c2 c3] show ?thesis by auto
  qed (use c3(1) k2 in auto)
  have "outer_same c3 c'" using k3 c3(2) body_stage by blast
  with o1 k2 k3 show ?thesis by (blast intro: outer_trans)
qed

section \<open>Connections start and restart well formed\<close>

lemma Connection_new_ok: "cfg_ok s \<Longrightarrow> conn_ok (Connection_new now f s)"
  by (simp add: conn_ok_def Let_def Connection_new_def HttpRequest_new_def fresh_body_def hdrs_ok_def)

lemma setReading_ok:
  assumes "cfg_ok (config c)" "\<forall>s \<in> set (configuration c). cfg_ok s"
  shows "conn_ok (snd (setReading now c))"
  using assms by (simp add: setReading_def Connection_reset_def HttpRequest_reset_def Let_def conn_ok_def
      fresh_body_def hdrs_ok_def touchActive_def)

lemma default_cfg_ok: "cfg_ok (Server_set_default_conf Server_new)"
proof -
  have "srv_locations (Server_set_default_conf Server_new) =
      (let l0 = Location_set_default_conf 0 Location_new; l1 = Location_set_default_conf 1 l0;
           l2 = Location_set_default_conf 2 l1; l3 = Location_set_default_conf 3 l2;
           l4 = Location_set_default_conf 4 l3 in [l0, l1, l2, l3, l4, Location_set_default_conf 5 l4])"
    by (simp add: Server_set_default_conf_def Server_new_def Let_def)
  moreover have "getClientMaxBodySize (Location_set_default_conf n l) < 2 ^ 60" for n l
    by (simp add: Location_set_default_conf_def Let_def getClientMaxBodySize_def)
  ultimately show ?thesis by (simp add: cfg_ok_def Let_def)
qed

section \<open>Properties\<close>

text \<open>
  C4: feeding never fails.  From every well-formed connection, whatever bytes have
  arrived, \<open>feed\<close> returns (no exception, no endless loop), the connection stays well
  formed, and the parse state does not go backwards in the order of \<open>ParseState\<close>.
\<close>

theorem feed_total:
  assumes "conn_ok c"
  shows "\<exists>c'. feed w c = Inr c' \<and> conn_ok c' \<and> parse_state (request c) \<le> parse_state (request c')"
  using feed_ok [OF assms] by blast

lemma sample_conn_ok:
  assumes "length s \<le> max_size"
  shows "conn_ok (sample_conn s)"
proof -
  have "buf_ok (read_buffer (sample_conn s))" using assms by simp
  then show ?thesis using default_cfg_ok
    by (simp add: conn_ok_def Let_def fresh_body_def hdrs_ok_def)
      (simp add: sample_conn_def Connection_new_def HttpRequest_new_def)
qed

theorem feed_total_witness:
  "\<exists>c'. feed sample_os (sample_conn ''GET / HTTP/1.1'') = Inr c' \<and> conn_ok c'
    \<and> PSTATE_IDLE \<le> parse_state (request c')"
  using feed_total [OF sample_conn_ok, of "''GET / HTTP/1.1''" sample_os] by (simp add: max_size_def)



end
