(* ===== verification/Multipart.thy ===== *)
theory Multipart
  imports Connections
begin

text \<open>
  The multipart reader of \<open>src/ResponseHandler.cpp\<close>: \<open>findSubstr\<close>, \<open>trimToken\<close>,
  \<open>extractBoundary\<close>, \<open>parseMultipartFirstFile\<close> and \<open>sanitizeFilename\<close>.  A pointer pair
  \<open>[begin, end)\<close> into the body is the string of its bytes and a pointer into it an
  offset.  The properties: a form with one file is read back exactly, and the file name
  that is used never contains a path separator.
\<close>

section \<open>The code\<close>

record multipart_file =
  mf_filename :: string
  mf_content_type :: string
  mf_data :: string

definition findSubstr :: "string \<Rightarrow> string \<Rightarrow> nat" where
  \<comment> \<open>the offset of the first occurrence, the length of the range when there is none\<close>
  "findSubstr s needle =
     (if needle = [] then 0
      else if length s < length needle then length s
      else case find_sub needle s of Some i \<Rightarrow> i | None \<Rightarrow> length s)"

definition npos :: nat where "npos = 2 ^ 64 - 1"

definition trimToken :: "string \<Rightarrow> string" where
  "trimToken s =
     (case find_idx (\<lambda>c. c \<noteq> CHR '' '' \<and> c \<noteq> TAB) s of
        None \<Rightarrow> []
      | Some a \<Rightarrow>
          let b = (case str_rfind (\<lambda>c. c \<noteq> CHR '' '' \<and> c \<noteq> TAB \<and> c \<noteq> CR) s of
                     Some b \<Rightarrow> b | None \<Rightarrow> npos)
          in substr s a (sz_add (sz_sub b a) 1))"

definition extractBoundary :: "http_request \<Rightarrow> string option" where
  "extractBoundary req =
     (let ct = header req ''content-type'' in
      if str_find ''multipart/form-data'' 0 ct = None then None
      else case str_find ''boundary='' 0 ct of
        None \<Rightarrow> None
      | Some pos \<Rightarrow>
          let boundary = drop (pos + 9) ct;
              boundary = (case str_find_char (CHR '';'') 0 boundary of
                            Some semi \<Rightarrow> take semi boundary | None \<Rightarrow> boundary);
              boundary = trimToken boundary;
              boundary = (if length boundary \<ge> 2 \<and> boundary ! 0 = DQUOTE
                             \<and> boundary ! (length boundary - 1) = DQUOTE
                          then substr boundary 1 (length boundary - 2) else boundary)
          in if boundary = [] then None else Some boundary)"

definition filename_param :: string where
  \<comment> \<open>\<open>filename="\<close>\<close>
  "filename_param = ''filename='' @ [DQUOTE]"

definition part_filename :: "string \<Rightarrow> string" where
  "part_filename hdrs =
     (case str_find filename_param 0 hdrs of
        None \<Rightarrow> []
      | Some fn_pos \<Rightarrow>
          (let fn_pos = fn_pos + 10 in
           case str_find_char DQUOTE fn_pos hdrs of
             None \<Rightarrow> []
           | Some fn_end \<Rightarrow> substr hdrs fn_pos (fn_end - fn_pos)))"

definition part_content_type :: "string \<Rightarrow> string" where
  "part_content_type hdrs =
     (let ct_pos = (case str_find ''Content-Type:'' 0 hdrs of
                      Some p \<Rightarrow> Some p | None \<Rightarrow> str_find ''content-type:'' 0 hdrs)
      in case ct_pos of
           None \<Rightarrow> []
         | Some ct_pos \<Rightarrow>
             let v_start = (case str_find_char (CHR '':'') ct_pos hdrs of Some i \<Rightarrow> i | None \<Rightarrow> npos) + 1;
                 v_end = (case str_find crlf v_start hdrs of Some e \<Rightarrow> e | None \<Rightarrow> length hdrs)
             in trimToken (substr hdrs v_start (v_end - v_start)))"

definition parseMultipartFirstFile :: "string \<Rightarrow> string \<Rightarrow> multipart_file option" where
  "parseMultipartFirstFile bytes boundary =
     (if bytes = [] then None
      else
        let delim = ''--'' @ boundary; part = findSubstr bytes delim in
        if part = length bytes then None
        else
          let rest = drop (part + length delim) bytes in
          if starts_with rest ''--'' then None
          else
            let rest = (if starts_with rest crlf then drop 2 rest else rest);
                hdr_end = findSubstr rest (crlf @ crlf) in
            if hdr_end = length rest then None
            else
              let hdrs = take hdr_end rest;
                  data = drop (hdr_end + 4) rest;
                  data_end = findSubstr data delim in
              if data_end = length data then None
              else
                let data_end = (if data_end \<ge> 2 \<and> substr data (data_end - 2) 2 = crlf
                                then data_end - 2 else data_end)
                in Some \<lparr>mf_filename = part_filename hdrs,
                         mf_content_type = part_content_type hdrs,
                         mf_data = take data_end data\<rparr>)"

definition sanitizeFilename :: "string \<Rightarrow> string" where
  "sanitizeFilename raw =
     (let name = (case str_rfind (\<lambda>c. c = SLASH \<or> c = BACKSLASH) raw of
                    Some slash \<Rightarrow> drop (slash + 1) raw | None \<Rightarrow> raw)
      in if name = [] \<or> name = ''.'' \<or> name = ''..'' then [] else name)"

section \<open>First occurrences\<close>

lemma str_rfind_SomeD:
  assumes "str_rfind P s = Some i"
  shows "i < length s \<and> P (s ! i) \<and> (\<forall>x \<in> set (drop (Suc i) s). \<not> P x)"
proof -
  from assms obtain j where j: "find_idx P (rev s) = Some j" "i = length s - Suc j"
    by (auto simp: str_rfind_def)
  have *: "j < length s" "P (rev s ! j)" "\<forall>x \<in> set (take j (rev s)). \<not> P x"
    using find_idx_SomeD [OF j(1)] by auto
  have "drop (Suc i) s = rev (take j (rev s))"
    using *(1) j(2) by (simp add: take_rev Suc_diff_Suc)
  then show ?thesis using * j(2) by (simp add: rev_nth)
qed

lemma str_rfind_None_iff: "str_rfind P s = None \<longleftrightarrow> (\<forall>x \<in> set s. \<not> P x)"
  by (simp add: str_rfind_def find_idx_None_iff)

lemma find_sub_here: "find_sub pat (pat @ r) = Some 0"
  by (subst find_sub.simps) simp

lemma find_sub_Cons:
  "find_sub pat (c # s) = (if take (length pat) (c # s) = pat then Some 0 else map_option Suc (find_sub pat s))"
  by (subst find_sub.simps) simp

lemma find_sub_skip:
  assumes "pat = p # ps" "p \<notin> set xs"
  shows "find_sub pat (xs @ s) = map_option ((+) (length xs)) (find_sub pat s)"
  using assms(2)
proof (induction xs)
  case Nil
  show ?case by (cases "find_sub pat s") simp_all
next
  case (Cons x xs)
  then show ?case by (cases "find_sub pat s") (auto simp: find_sub_Cons assms(1))
qed

lemma find_sub_append: "find_sub pat s = Some i \<Longrightarrow> find_sub pat (s @ t) = Some i"
proof (induction pat s arbitrary: i rule: find_sub.induct)
  case (1 pat s)
  show ?case
  proof (cases "take (length pat) s = pat")
    case True
    then have "length pat \<le> length s" by (metis length_take min.cobounded1)
    then have "take (length pat) (s @ t) = pat" using True by simp
    then show ?thesis using "1.prems" True by (subst find_sub.simps) (subst (asm) find_sub.simps, simp)
  next
    case False
    with "1.prems" obtain a r j where s: "s = a # r" "find_sub pat r = Some j" "i = Suc j"
      by (subst (asm) find_sub.simps) (auto split: list.splits)
    have "length pat \<le> length r" using find_sub_Some_take [OF s(2)] by simp
    then have "length pat \<le> length s" using s(1) by simp
    then have "take (length pat) (s @ t) \<noteq> pat" using False by simp
    with "1.IH" [OF False s(1) s(2)] s show ?thesis by (simp add: find_sub_Cons)
  qed
qed

lemma findSubstr_eq: "needle \<noteq> [] \<Longrightarrow> find_sub needle s = Some i \<Longrightarrow> findSubstr s needle = i"
  using find_sub_Some_take [of needle s i] by (simp add: findSubstr_def)

section \<open>Forms with one file\<close>

definition form_disposition :: "string \<Rightarrow> string" where
  "form_disposition fname =
     ''Content-Disposition: form-data; name='' @ [DQUOTE] @ ''file'' @ [DQUOTE] @ ''; '' @ filename_param @ fname @ [DQUOTE]"

definition multipart_form :: "string \<Rightarrow> string \<Rightarrow> string \<Rightarrow> string \<Rightarrow> string" where
  \<comment> \<open>specification: what a browser sends for a form with one file\<close>
  "multipart_form boundary fname ctype data =
     ''--'' @ boundary @ crlf @ form_disposition fname @ crlf @ ''Content-Type: '' @ ctype
       @ crlf @ crlf @ data @ crlf @ ''--'' @ boundary"

lemma part_filename_form:
  assumes "DQUOTE \<notin> set fname"
  shows "part_filename (form_disposition fname @ rest) = fname"
proof -
  let ?t = "filename_param @ fname @ DQUOTE # rest"
  have p: "filename_param = CHR ''f'' # ''ilename='' @ [DQUOTE]" by (simp add: filename_param_def)
  have skip: "find_sub filename_param (CHR ''f'' # CHR ''o'' # t) = map_option Suc (find_sub filename_param (CHR ''o'' # t))"
    "find_sub filename_param (''file'' @ t) = map_option Suc (find_sub filename_param (''ile'' @ DQUOTE # t'))"
    if "t = DQUOTE # t'" for t t'
    using that by (simp_all add: find_sub_Cons [of _ "CHR ''f''"] p)
  have "find_sub filename_param (''ile'' @ DQUOTE # ''; '' @ ?t) = Some 6"
    using find_sub_skip [OF p, of "''ile'' @ DQUOTE # ''; ''" ?t] find_sub_here [of filename_param] by simp
  then have "find_sub filename_param (''orm-data; name='' @ [DQUOTE] @ ''file'' @ [DQUOTE] @ ''; '' @ ?t) = Some 23"
    using find_sub_skip [OF p, of "''orm-data; name='' @ [DQUOTE]" "''file'' @ [DQUOTE] @ ''; '' @ ?t"] skip(2) by simp
  moreover have "find_sub filename_param (CHR ''f'' # ''orm-data; name='' @ u)
    = map_option Suc (find_sub filename_param (''orm-data; name='' @ u))" for u
    by (simp add: find_sub_Cons [of _ "CHR ''f''"] p)
  ultimately have "find_sub filename_param (''Content-Disposition: '' @ CHR ''f'' # ''orm-data; name='' @ [DQUOTE] @ ''file'' @ [DQUOTE] @ ''; '' @ ?t) = Some 45"
    using find_sub_skip [OF p, of "''Content-Disposition: ''"] by simp
  then have "find_sub filename_param (form_disposition fname @ rest) = Some 45"
    by (simp add: form_disposition_def)
  moreover have "drop 55 (form_disposition fname @ rest) = fname @ DQUOTE # rest"
    by (simp add: form_disposition_def filename_param_def)
  moreover have "find_idx ((=) DQUOTE) fname = None" unfolding find_idx_None_iff using assms by blast
  then have "find_idx ((=) DQUOTE) (fname @ DQUOTE # rest) = Some (length fname)"
    by (simp add: find_idx_append)
  ultimately show ?thesis
    by (simp add: part_filename_def str_find_def str_find_char_def substr_def)
qed

lemma part_headers_end:
  assumes "CR \<notin> set fname" "CR \<notin> set ctype"
  shows "find_sub (crlf @ crlf) (form_disposition fname @ crlf @ ''Content-Type: '' @ ctype @ crlf @ crlf @ rest)
    = Some (length (form_disposition fname @ crlf @ ''Content-Type: '' @ ctype))"
proof -
  let ?p = "crlf @ crlf" and ?h = "''Content-Type: '' @ ctype"
  have p: "?p = CR # LF # CR # LF # []" by (simp add: crlf_def)
  have d: "CR \<notin> set (form_disposition fname)" using assms by (simp add: form_disposition_def filename_param_def)
  have h: "CR \<notin> set ?h" using assms by simp
  have "find_sub ?p (?h @ ?p @ rest) = Some (length ?h)"
    using find_sub_skip [OF p h, of "?p @ rest"] find_sub_here [of ?p rest] by simp
  moreover have "find_sub ?p (crlf @ ?h @ ?p @ rest) = map_option (\<lambda>n. Suc (Suc n)) (find_sub ?p (?h @ ?p @ rest))"
    by (simp add: find_sub_Cons crlf_def option.map_comp comp_def)
  ultimately show ?thesis
    using find_sub_skip [OF p d, of "crlf @ ?h @ ?p @ rest"] by (simp add: crlf_def)
qed

lemma sanitizeFilename_ok:
  "SLASH \<notin> set (sanitizeFilename raw) \<and> BACKSLASH \<notin> set (sanitizeFilename raw)
    \<and> sanitizeFilename raw \<noteq> ''.'' \<and> sanitizeFilename raw \<noteq> ''..''
    \<and> (\<exists>dir. raw = dir @ sanitizeFilename raw)"
proof -
  let ?sep = "\<lambda>c. c = SLASH \<or> c = BACKSLASH"
  define name where "name = (case str_rfind ?sep raw of Some slash \<Rightarrow> drop (slash + 1) raw | None \<Rightarrow> raw)"
  have "(\<forall>c \<in> set name. \<not> ?sep c) \<and> (\<exists>dir. raw = dir @ name)"
  proof (cases "str_rfind ?sep raw")
    case None
    then show ?thesis using str_rfind_None_iff [of ?sep raw] by (simp add: name_def)
  next
    case (Some i)
    have "raw = take (Suc i) raw @ drop (Suc i) raw" by simp
    then show ?thesis using str_rfind_SomeD [OF Some] Some unfolding name_def by (simp, blast)
  qed
  moreover have "sanitizeFilename raw = (if name = [] \<or> name = ''.'' \<or> name = ''..'' then [] else name)"
    by (simp add: sanitizeFilename_def name_def Let_def)
  ultimately show ?thesis by (cases "name = [] \<or> name = ''.'' \<or> name = ''..''") auto
qed

lemma sanitizeFilename_slashless [simp]: "SLASH \<notin> set (sanitizeFilename raw)"
  using sanitizeFilename_ok by blast

lemma multipart_read:
  assumes "boundary \<noteq> []" "DQUOTE \<notin> set fname" "CR \<notin> set fname" "CR \<notin> set ctype"
    and "find_sub (''--'' @ boundary) (data @ crlf @ ''--'' @ boundary) = Some (length data + 2)"
  shows "\<exists>mf. parseMultipartFirstFile (multipart_form boundary fname ctype data @ rest) boundary = Some mf
    \<and> mf_filename mf = fname \<and> mf_data mf = data"
proof -
  let ?delim = "''--'' @ boundary" and ?h = "form_disposition fname @ crlf @ ''Content-Type: '' @ ctype"
  let ?body = "multipart_form boundary fname ctype data @ rest"
  let ?tail = "data @ crlf @ ?delim @ rest"
  have form: "?body = ?delim @ crlf @ ?h @ crlf @ crlf @ ?tail" by (simp add: multipart_form_def)
  have start: "findSubstr ?body ?delim = 0"
    unfolding form by (intro findSubstr_eq find_sub_here) simp
  have hdr: "findSubstr (?h @ crlf @ crlf @ ?tail) (crlf @ crlf) = length ?h"
    using part_headers_end [OF assms(3,4), of ?tail] by (intro findSubstr_eq) (simp_all add: crlf_def)
  have "find_sub ?delim ?tail = Some (length data + 2)"
    using find_sub_append [OF assms(5), of rest] by simp
  then have fin: "findSubstr ?tail ?delim = length data + 2" by (intro findSubstr_eq) simp_all
  have first: "drop (0 + length ?delim) ?body = crlf @ ?h @ crlf @ crlf @ ?tail" unfolding form by simp
  have end2: "substr ?tail (length data + 2 - 2) 2 = crlf" by (simp add: substr_def crlf_def)
  have "\<And>h t. drop (length h + 4) (h @ crlf @ crlf @ t) = t" by (simp add: crlf_def)
  note rest = this [of ?h ?tail]
  have "\<And>h t. take (length h) (h @ t) = h" by simp
  note hs = this [of ?h "crlf @ crlf @ ?tail"]
  have ne: "?body \<noteq> []" "0 \<noteq> length ?body" "length ?h \<noteq> length (?h @ crlf @ crlf @ ?tail)" "length data + 2 \<noteq> length ?tail"
    unfolding form by (simp_all add: crlf_def)
  have c: "\<not> starts_with (crlf @ ?h @ crlf @ crlf @ ?tail) ''--''" "starts_with (crlf @ ?h @ crlf @ crlf @ ?tail) crlf"
    "drop 2 (crlf @ ?h @ crlf @ crlf @ ?tail) = ?h @ crlf @ crlf @ ?tail"
    by (simp_all add: crlf_def starts_with_def)
  have "parseMultipartFirstFile ?body boundary = Some \<lparr>mf_filename = part_filename ?h,
      mf_content_type = part_content_type ?h, mf_data = data\<rparr>"
    unfolding parseMultipartFirstFile_def Let_def start first if_not_P [OF ne(1)] if_not_P [OF ne(2)]
      if_not_P [OF c(1)] if_P [OF c(2)] c(3) hdr rest fin if_not_P [OF ne(3)] if_not_P [OF ne(4)] end2 hs
    by simp
  then show ?thesis using part_filename_form [OF assms(2)] by simp
qed

section \<open>Properties\<close>

text \<open>
  C31: an uploaded file is read back exactly.  For every boundary, every file name
  without a quote or CR and every data in which the delimiter line does not occur,
  the reader returns that name and exactly those bytes.
\<close>

theorem multipart_roundtrip:
  assumes "boundary \<noteq> []" "DQUOTE \<notin> set fname" "CR \<notin> set fname" "CR \<notin> set ctype"
    and "find_sub (''--'' @ boundary) (data @ crlf @ ''--'' @ boundary) = Some (length data + 2)"
  shows "\<exists>mf. parseMultipartFirstFile (multipart_form boundary fname ctype data @ rest) boundary = Some mf
    \<and> mf_filename mf = fname \<and> mf_data mf = data"
  using assms by (rule multipart_read)

theorem multipart_roundtrip_witness:
  "\<exists>mf. parseMultipartFirstFile (multipart_form ''XyZ'' ''a/b.txt'' ''text/plain'' ''--X-data'' @ ''--'') ''XyZ'' = Some mf
    \<and> mf_filename mf = ''a/b.txt'' \<and> mf_data mf = ''--X-data''"
  by (rule multipart_roundtrip) (simp_all add: find_sub_Cons crlf_def)

text \<open>
  The name an upload is stored under stays inside the upload directory.  It is a
  suffix of the name that was sent, contains neither slash nor backslash, and is not
  \<open>.\<close> or \<open>..\<close>.
\<close>

theorem sanitizeFilename_safe:
  "SLASH \<notin> set (sanitizeFilename raw) \<and> BACKSLASH \<notin> set (sanitizeFilename raw)
    \<and> sanitizeFilename raw \<noteq> ''.'' \<and> sanitizeFilename raw \<noteq> ''..''
    \<and> (\<exists>dir. raw = dir @ sanitizeFilename raw)"
  by (rule sanitizeFilename_ok)

end
