(* ===== verification/Paths.thy ===== *)
theory Paths
  imports Request_Line
begin

text \<open>
  Request paths as \<open>src/ResponseHandler.cpp\<close> treats them: \<open>normalizePath\<close> removes the dot
  segments of a path and refuses one that climbs above its start, \<open>_resolveFsPath\<close> maps a
  path and its location to a file name.  \<open>walk\<close> is the reference definition of dot-segment
  removal over a list of segments.  The properties: exactly the climbing paths are refused,
  a normalised path has only proper segments and is a fixed point, and the file that is
  served lies below the configured root and is the one the parser looked up.
\<close>

section \<open>The code\<close>

definition end_segment :: "string \<Rightarrow> string list \<Rightarrow> string list option" where
  \<comment> \<open>what happens to a complete segment; \<open>None\<close> is \<open>return ""\<close>\<close>
  "end_segment seg segments =
     (if seg = [] then Some segments
      else if seg = ''..'' then (if segments = [] then None else Some (butlast segments))
      else if seg \<noteq> ''.'' then Some (segments @ [seg])
      else Some segments)"

fun normalize_loop :: "string \<Rightarrow> string \<Rightarrow> string list \<Rightarrow> string list option" where
  "normalize_loop [] seg segments = end_segment seg segments"
| "normalize_loop (c # cs) seg segments =
     (if c = SLASH
      then case end_segment seg segments of None \<Rightarrow> None | Some segments \<Rightarrow> normalize_loop cs [] segments
      else normalize_loop cs (seg @ [c]) segments)"

fun join_segments :: "string list \<Rightarrow> string" where
  "join_segments [] = []"
| "join_segments [s] = s"
| "join_segments (s # ss) = s @ ''/'' @ join_segments ss"

definition normalizePath :: "string \<Rightarrow> string" where
  "normalizePath p =
     (case normalize_loop p [] [] of
        None \<Rightarrow> []
      | Some segments \<Rightarrow>
          let result = ''/'' @ join_segments segments in
          if length p > 1 \<and> p ! (length p - 1) = SLASH \<and> result ! (length result - 1) \<noteq> SLASH
          then result @ ''/'' else result)"

definition resolveFsPath :: "http_request \<Rightarrow> location option \<Rightarrow> server \<Rightarrow> string" where
  "resolveFsPath req loc cfg =
     (let uri = path req;
          (root, uri) =
            (case loc of
               Some l \<Rightarrow>
                 if loc_root l \<noteq> [] then
                   (loc_root l,
                    if starts_with uri (loc_path l) then
                      (let stripped = drop (length (loc_path l)) uri in
                       if stripped \<noteq> [] then
                         (if hd stripped \<noteq> SLASH then loc_path l @ stripped else stripped)
                       else uri)
                    else uri)
                 else (srv_root cfg, uri)
             | None \<Rightarrow> (srv_root cfg, uri));
          root = rstrip_slashes root;
          uri =
            (case loc of
               Some l \<Rightarrow>
                 if loc_root l \<noteq> [] \<and> uri = loc_path l then
                   (case str_rfind (\<lambda>c. c = SLASH) uri of Some i \<Rightarrow> drop i uri | None \<Rightarrow> uri)
                 else uri
             | None \<Rightarrow> uri)
      in root @ uri)"

section \<open>Segments\<close>

fun segments_from :: "string \<Rightarrow> string \<Rightarrow> string list" where
  \<comment> \<open>the non-empty segments of a path that continues the segment read so far\<close>
  "segments_from [] cur = (if cur = [] then [] else [cur])"
| "segments_from (c # cs) cur =
     (if c = SLASH then (if cur = [] then segments_from cs [] else cur # segments_from cs [])
      else segments_from cs (cur @ [c]))"

definition segments_of :: "string \<Rightarrow> string list" where
  "segments_of p = segments_from p []"

definition ordinary :: "string \<Rightarrow> bool" where
  "ordinary s \<longleftrightarrow> s \<noteq> [] \<and> s \<noteq> ''.'' \<and> s \<noteq> ''..'' \<and> SLASH \<notin> set s"

fun walk :: "string list \<Rightarrow> string list \<Rightarrow> string list option" where
  \<comment> \<open>specification: walk down and up from a directory, never above it\<close>
  "walk [] dir = Some dir"
| "walk (s # ss) dir =
     (if s = ''..'' then (if dir = [] then None else walk ss (butlast dir))
      else if s = ''.'' then walk ss dir
      else walk ss (dir @ [s]))"

lemma end_segment_walk:
  "(case end_segment seg segs of None \<Rightarrow> None | Some segs \<Rightarrow> walk ss segs)
    = walk ((if seg = [] then [] else [seg]) @ ss) segs"
  by (simp add: end_segment_def)

lemma normalize_loop_walk: "normalize_loop p seg segs = walk (segments_from p seg) segs"
proof (induction p seg segs rule: normalize_loop.induct)
  case (1 seg segs)
  show ?case using end_segment_walk [where seg = seg and segs = segs and ss = "[]"] by (cases "end_segment seg segs") auto
next
  case (2 c cs seg segs)
  show ?case
  proof (cases "c = SLASH")
    case True
    then have "normalize_loop (c # cs) seg segs
      = (case end_segment seg segs of None \<Rightarrow> None | Some segs \<Rightarrow> walk (segments_from cs []) segs)"
      using "2.IH"(1) [OF True] by (auto split: option.splits)
    then show ?thesis using True by (simp add: end_segment_walk)
  qed (simp add: "2.IH"(2))
qed

lemma normalize_loop_segments: "normalize_loop p [] [] = walk (segments_of p) []"
  by (simp add: normalize_loop_walk segments_of_def)

lemma segments_from_slashless:
  "SLASH \<notin> set cur \<Longrightarrow> s \<in> set (segments_from p cur) \<Longrightarrow> s \<noteq> [] \<and> SLASH \<notin> set s"
  by (induction p cur rule: segments_from.induct) (auto split: if_splits)

lemma segments_of_slashless: "s \<in> set (segments_of p) \<Longrightarrow> s \<noteq> [] \<and> SLASH \<notin> set s"
  unfolding segments_of_def by (rule segments_from_slashless) auto

lemma walk_ordinary:
  assumes "walk ss dir = Some segs" "\<forall>s \<in> set ss. s \<noteq> [] \<and> SLASH \<notin> set s" "\<forall>s \<in> set dir. ordinary s"
  shows "\<forall>s \<in> set segs. ordinary s"
  using assms
proof (induction ss dir rule: walk.induct)
  case (2 s ss dir)
  have names: "\<forall>s \<in> set ss. s \<noteq> [] \<and> SLASH \<notin> set s" using "2.prems"(2) by simp
  consider "s = ''..''" "dir \<noteq> []" "walk ss (butlast dir) = Some segs" | "s = ''.''" "walk ss dir = Some segs"
    | "s \<noteq> ''..''" "s \<noteq> ''.''" "walk ss (dir @ [s]) = Some segs"
    using "2.prems"(1) by (cases "s = ''..''"; cases "s = ''.''"; cases "dir = []") simp_all
  then show ?case
  proof cases
    case 1
    have "\<forall>s \<in> set (butlast dir). ordinary s" using "2.prems"(3) by (blast dest: in_set_butlastD)
    with 1 "2.IH"(1) names show ?thesis by blast
  next
    case 2
    then show ?thesis using "2.IH"(2) "2.prems"(3) names by simp
  next
    case 3
    have "\<forall>s \<in> set (dir @ [s]). ordinary s" using 3 "2.prems"(2,3) by (simp add: ordinary_def)
    with 3 "2.IH"(3) names show ?thesis by blast
  qed
qed simp

lemma ex_le_Suc: "(\<exists>k \<le> Suc n. P k) \<longleftrightarrow> P 0 \<or> (\<exists>k \<le> n. P (Suc k))"
proof
  assume "\<exists>k \<le> Suc n. P k"
  then obtain k where "k \<le> Suc n" "P k" by blast
  then show "P 0 \<or> (\<exists>k \<le> n. P (Suc k))" by (cases k) auto
next
  assume "P 0 \<or> (\<exists>k \<le> n. P (Suc k))"
  then show "\<exists>k \<le> Suc n. P k" by (metis Suc_le_mono le0)
qed

definition names_in :: "string list \<Rightarrow> nat" where
  "names_in ss = length (filter (\<lambda>s. s \<noteq> ''..'' \<and> s \<noteq> ''.'') ss)"

definition ups_in :: "string list \<Rightarrow> nat" where
  "ups_in ss = length (filter (\<lambda>s. s = ''..'') ss)"

lemma names_ups_simps [simp]:
  "names_in [] = 0" "ups_in [] = 0"
  "names_in (s # ss) = (if s \<noteq> ''..'' \<and> s \<noteq> ''.'' then Suc (names_in ss) else names_in ss)"
  "ups_in (s # ss) = (if s = ''..'' then Suc (ups_in ss) else ups_in ss)"
  by (simp_all add: names_in_def ups_in_def)

lemma walk_None_iff:
  "walk ss dir = None \<longleftrightarrow> (\<exists>k \<le> length ss. length dir + names_in (take k ss) < ups_in (take k ss))"
proof (induction ss dir rule: walk.induct)
  case (2 s ss dir)
  have split: "(\<exists>k \<le> length (s # ss). length dir + names_in (take k (s # ss)) < ups_in (take k (s # ss)))
    \<longleftrightarrow> (\<exists>k \<le> length ss. length dir + names_in (s # take k ss) < ups_in (s # take k ss))"
    unfolding list.size(4) add_Suc_right add_0_right ex_le_Suc take_Suc_Cons by simp
  consider "s = ''..''" "dir = []" | "s = ''..''" "dir \<noteq> []" | "s = ''.''" | "s \<noteq> ''..''" "s \<noteq> ''.''" by blast
  then show ?case
  proof cases
    case 1
    then show ?thesis unfolding split by (auto intro!: exI [of _ 0])
  next
    case 2
    then obtain d x where "dir = d @ [x]" by (cases dir rule: rev_cases) simp_all
    with 2 "2.IH"(1) show ?thesis unfolding split by simp
  next
    case 3
    then show ?thesis using "2.IH"(2) unfolding split by simp
  next
    case 4
    then show ?thesis using "2.IH"(3) unfolding split by simp
  qed
qed simp

lemma segments_from_join:
  assumes "\<forall>s \<in> set segs. ordinary s" "t = [] \<or> t = ''/''"
  shows "segments_from (join_segments segs @ t) [] = segs"
proof -
  have one: "segments_from (s @ u) cur = segments_from u (cur @ s)" if "SLASH \<notin> set s" for s u cur
    using that by (induction s arbitrary: cur) auto
  show ?thesis using assms
  proof (induction segs rule: join_segments.induct)
    case (2 s)
    then show ?case using one [of s t "[]"] by (auto simp: ordinary_def)
  next
    case (3 s s' ss)
    have "SLASH \<notin> set s" "s \<noteq> []" using "3.prems" by (simp_all add: ordinary_def)
    with "3" one [of s "SLASH # join_segments (s' # ss) @ t" "[]"] show ?case by simp
  qed auto
qed

lemma segments_of_join:
  assumes "\<forall>s \<in> set segs. ordinary s" "t = [] \<or> t = ''/''"
  shows "segments_of (SLASH # join_segments segs @ t) = segs"
  using segments_from_join [OF assms] by (simp add: segments_of_def)

lemma walk_names: "\<forall>s \<in> set segs. ordinary s \<Longrightarrow> walk segs dir = Some (dir @ segs)"
  by (induction segs arbitrary: dir) (auto simp: ordinary_def)

lemma last_join_segments: "segs \<noteq> [] \<Longrightarrow> \<forall>s \<in> set segs. ordinary s \<Longrightarrow> join_segments segs \<noteq> [] \<and> last (join_segments segs) \<noteq> SLASH"
proof (induction segs rule: join_segments.induct)
  case (2 s)
  then have "last s \<in> set s" "SLASH \<notin> set s" "s \<noteq> []" by (simp_all add: ordinary_def)
  then show ?case by (simp, metis)
qed (auto simp: ordinary_def)

lemma normalizePath_cases:
  assumes "normalizePath p \<noteq> []"
  obtains segs t where "walk (segments_of p) [] = Some segs" "\<forall>s \<in> set segs. ordinary s"
    "normalizePath p = SLASH # join_segments segs @ t"
    "t = (if segs \<noteq> [] \<and> length p > 1 \<and> last p = SLASH then ''/'' else [])"
proof -
  obtain segs where segs: "walk (segments_of p) [] = Some segs"
    using assms by (cases "walk (segments_of p) []") (auto simp: normalizePath_def normalize_loop_segments)
  have ord: "\<forall>s \<in> set segs. ordinary s"
    using segs segments_of_slashless by (intro walk_ordinary [OF segs]) auto
  have "normalizePath p = SLASH # join_segments segs @ (if segs \<noteq> [] \<and> length p > 1 \<and> last p = SLASH then ''/'' else [])"
  proof (cases "segs = []")
    case True
    then show ?thesis using segs by (simp add: normalizePath_def normalize_loop_segments)
  next
    case False
    let ?r = "SLASH # join_segments segs"
    have "?r ! (length ?r - 1) \<noteq> SLASH" using last_join_segments [OF False ord] by (simp add: last_conv_nth [symmetric])
    with segs False show ?thesis
      by (simp add: normalizePath_def normalize_loop_segments Let_def)
  qed
  then show thesis using that segs ord by blast
qed

section \<open>Confinement\<close>

definition proper_path :: "string \<Rightarrow> bool" where
  "proper_path p \<longleftrightarrow> p \<noteq> [] \<and> hd p = SLASH \<and> (\<forall>s \<in> set (segments_of p). ordinary s)"

definition below :: "string \<Rightarrow> string \<Rightarrow> bool" where
  \<comment> \<open>a file name under a directory\<close>
  "below root f \<longleftrightarrow> (\<exists>rest. f = rstrip_slashes root @ rest \<and> proper_path rest)"

definition serving_root :: "location option \<Rightarrow> server \<Rightarrow> string" where
  "serving_root loc cfg =
     (case loc of Some l \<Rightarrow> if loc_root l \<noteq> [] then loc_root l else srv_root cfg | None \<Rightarrow> srv_root cfg)"

lemma normalizePath_proper:
  assumes "normalizePath p \<noteq> []"
  shows "proper_path (normalizePath p)" "walk (segments_of p) [] = Some (segments_of (normalizePath p))"
    "normalizePath (normalizePath p) = normalizePath p"
proof -
  obtain segs t where n: "walk (segments_of p) [] = Some segs" "\<forall>s \<in> set segs. ordinary s"
    "normalizePath p = SLASH # join_segments segs @ t"
    "t = (if segs \<noteq> [] \<and> length p > 1 \<and> last p = SLASH then ''/'' else [])"
    using assms by (rule normalizePath_cases)
  have segs: "segments_of (normalizePath p) = segs"
    unfolding n(3) using n(2,4) by (intro segments_of_join) simp_all
  with n(1-3) show "proper_path (normalizePath p)" "walk (segments_of p) [] = Some (segments_of (normalizePath p))"
    by (simp_all add: proper_path_def)
  have w: "normalize_loop (normalizePath p) [] [] = Some segs"
    unfolding normalize_loop_segments segs using walk_names [OF n(2), of "[]"] by simp
  show "normalizePath (normalizePath p) = normalizePath p"
  proof (cases "segs = []")
    case True
    then show ?thesis using w n(3,4) by (simp add: normalizePath_def)
  next
    case False
    note last = last_join_segments [OF False n(2)]
    show ?thesis
    proof (cases "t = []")
      case True
      with last w n(3) show ?thesis
        by (subst normalizePath_def) (simp add: Let_def last_conv_nth [symmetric])
    next
      case t: False
      then have "t = ''/''" using n(4) by (simp split: if_splits)
      with last w n(3) show ?thesis
        by (subst normalizePath_def) (simp add: Let_def last_conv_nth [symmetric] nth_append)
    qed
  qed
qed

lemma segments_from_append: "segments_from (xs @ SLASH # ys) cur = segments_from xs cur @ segments_from ys []"
  by (induction xs arbitrary: cur) simp_all

lemma proper_path_drop:
  assumes "proper_path p" "i < length p" "p ! i = SLASH"
  shows "proper_path (drop i p)"
proof -
  have "p = take i p @ SLASH # drop (Suc i) p" using assms(2,3) id_take_nth_drop [OF assms(2)] by simp
  then have "segments_of p = segments_of (take i p) @ segments_of (drop (Suc i) p)"
    unfolding segments_of_def by (metis segments_from_append)
  moreover have "drop i p = SLASH # drop (Suc i) p" using assms(2,3) by (metis Cons_nth_drop_Suc)
  moreover have "segments_of (SLASH # q) = segments_of q" for q by (simp add: segments_of_def)
  ultimately show ?thesis using assms(1) by (simp add: proper_path_def)
qed

lemma proper_path_rfind:
  assumes "proper_path p" "str_rfind (\<lambda>c. c = SLASH) p = Some i"
  shows "proper_path (drop i p)"
proof -
  obtain j where j: "find_idx (\<lambda>c. c = SLASH) (rev p) = Some j" "i = length p - Suc j"
    using assms(2) by (auto simp: str_rfind_def)
  have "j < length p" "rev p ! j = SLASH" using find_idx_SomeD [OF j(1)] by simp_all
  with j(2) assms(1) show ?thesis by (intro proper_path_drop) (simp_all add: rev_nth)
qed

lemma resolveFsPath_below:
  assumes "proper_path (path req)"
  shows "below (serving_root loc cfg) (resolveFsPath req loc cfg)"
proof -
  have plain: "below root (rstrip_slashes root @ u)" if "proper_path u" for root u
    using that by (auto simp: below_def)
  show ?thesis
  proof (cases "\<exists>l. loc = Some l \<and> loc_root l \<noteq> []")
    case False
    then show ?thesis using plain [OF assms]
      by (auto simp: resolveFsPath_def serving_root_def Let_def split: option.splits)
  next
    case True
    then obtain l where l: "loc = Some l" "loc_root l \<noteq> []" by blast
    define uri where "uri = (if starts_with (path req) (loc_path l)
      then (let stripped = drop (length (loc_path l)) (path req) in
            if stripped \<noteq> [] then (if hd stripped \<noteq> SLASH then loc_path l @ stripped else stripped) else path req)
      else path req)"
    have u: "proper_path uri"
    proof -
      let ?st = "drop (length (loc_path l)) (path req)"
      consider "uri = path req" | "uri = ?st" "?st \<noteq> []" "hd ?st = SLASH"
      proof -
        have "loc_path l @ ?st = path req" if "starts_with (path req) (loc_path l)"
          using that append_take_drop_id [of "length (loc_path l)" "path req"] by (simp add: starts_with_def)
        then have "uri = path req \<or> (uri = ?st \<and> ?st \<noteq> [] \<and> hd ?st = SLASH)"
          unfolding uri_def Let_def by presburger
        then show thesis using that by blast
      qed
      then show ?thesis
      proof cases
        case 2
        then have "length (loc_path l) < length (path req)" "path req ! length (loc_path l) = SLASH"
          by (simp_all add: hd_drop_conv_nth)
        then show ?thesis using 2(1) proper_path_drop [OF assms] by simp
      qed (use assms in simp)
    qed
    have "resolveFsPath req loc cfg = rstrip_slashes (loc_root l) @
      (if uri = loc_path l then (case str_rfind (\<lambda>c. c = SLASH) uri of Some i \<Rightarrow> drop i uri | None \<Rightarrow> uri) else uri)"
      using l unfolding resolveFsPath_def uri_def Let_def by simp
    moreover have "proper_path (if uri = loc_path l then (case str_rfind (\<lambda>c. c = SLASH) uri of Some i \<Rightarrow> drop i uri | None \<Rightarrow> uri) else uri)"
      using u proper_path_rfind [OF u] by (cases "uri = loc_path l") (auto split: option.splits)
    ultimately show ?thesis using plain l by (simp add: serving_root_def)
  qed
qed

lemma validatePath_resolve:
  "validatePath c = resolveFsPath (request c) (matchLocation (config c) (path (request c))) (config c)"
  unfolding validatePath_def resolveFsPath_def Let_def ..

section \<open>Properties\<close>

text \<open>
  C33: exactly the climbing paths are refused.  \<open>normalizePath\<close> answers the empty string
  (and the request gets 400) when some prefix of the path holds more \<open>..\<close> segments than
  names, and for no other path.
\<close>

theorem normalizePath_rejects_climbing:
  "normalizePath p = [] \<longleftrightarrow>
     (\<exists>k \<le> length (segments_of p). names_in (take k (segments_of p)) < ups_in (take k (segments_of p)))"
proof -
  have "normalizePath p = [] \<longleftrightarrow> walk (segments_of p) [] = None"
    by (auto simp: normalizePath_def normalize_loop_segments Let_def split: option.splits)
  then show ?thesis by (simp add: walk_None_iff)
qed

text \<open>
  C32: a path that is not refused is normalised.  The result starts with a slash, all its
  segments are proper names (no \<open>.\<close>, no \<open>..\<close>, none empty), they are those the reference
  walk reaches, and normalising again changes nothing.
\<close>

theorem normalizePath_canonical:
  assumes "normalizePath p \<noteq> []"
  shows "proper_path (normalizePath p)
    \<and> walk (segments_of p) [] = Some (segments_of (normalizePath p))
    \<and> normalizePath (normalizePath p) = normalizePath p"
  using normalizePath_proper [OF assms] by blast

theorem normalizePath_canonical_witness:
  "normalizePath (normalizePath ''/a/./b/../c/'') = ''/a/c/''"
proof -
  have e: "normalizePath ''/a/./b/../c/'' = ''/a/c/''"
    by (simp add: normalizePath_def end_segment_def)
  then show ?thesis using normalizePath_canonical [of "''/a/./b/../c/''"] by simp
qed

text \<open>
  C34: a file that is served lies below the configured root.  For a normalised path the
  file name is the root of the location (or of the server) followed by a path of proper
  names, whatever the location strips; and it is the file the request-line parser looked
  up for the same path.
\<close>

theorem resolveFsPath_confined:
  assumes "path (request c) = normalizePath p" "normalizePath p \<noteq> []"
  shows "let loc = matchLocation (config c) (path (request c)); f = resolveFsPath (request c) loc (config c)
    in below (serving_root loc (config c)) f \<and> validatePath c = f"
  using resolveFsPath_below [of "request c"] normalizePath_proper(1) [OF assms(2)] assms(1)
  by (simp add: Let_def validatePath_resolve)

theorem resolveFsPath_confined_witness:
  "\<exists>c loc. path (request c) = ''/uploads/x.txt'' \<and> below (serving_root loc (config c)) (validatePath c)"
proof -
  let ?c = "map_request (\<lambda>r. r\<lparr>path := ''/uploads/x.txt''\<rparr>) (sample_conn [])"
  have n: "normalizePath ''/uploads/x.txt'' = ''/uploads/x.txt''"
    by (simp add: normalizePath_def end_segment_def)
  have p: "path (request ?c) = ''/uploads/x.txt''" by (simp add: map_request_def)
  show ?thesis
    using resolveFsPath_confined [of ?c "''/uploads/x.txt''"] unfolding n p Let_def
    by (intro exI [of _ ?c]) (auto simp: p)
qed

end
