(* ===== verification/Response_Text.thy ===== *)
theory Response_Text
  imports Connections Os_Interface
begin

text \<open>
  The text of responses: \<open>src/ResponseHandler_helper.cpp\<close> (escaping, MIME types, reason
  phrases, the \<open>Connection\<close> header) and the error bodies of \<open>src/ResponseLoader.cpp\<close>.
  \<open>head_text\<close> is the header block that \<open>_writeHeaders\<close>, \<open>_sendErrorInternal\<close> and
  \<open>sendError\<close> stream into their \<open>ostringstream\<close>; the three differ in the server version.
  The property: escaped text holds no character that HTML interprets, and can be read back.
\<close>

section \<open>The code\<close>

definition html_escape_char :: "char \<Rightarrow> string" where
  "html_escape_char c =
     (if c = CHR ''&'' then ''&amp;''
      else if c = CHR ''<'' then ''&lt;''
      else if c = CHR ''>'' then ''&gt;''
      else if c = DQUOTE then ''&quot;''
      else if c = SQUOTE then ''&#39;''
      else [c])"

fun htmlEscape :: "string \<Rightarrow> string" where
  "htmlEscape [] = []"
| "htmlEscape (c # s) = html_escape_char c @ htmlEscape s"

definition mime_table :: "(string \<times> string) list" where
  "mime_table =
    [(''.html'', ''text/html''), (''.htm'', ''text/html''), (''.css'', ''text/css''),
     (''.js'', ''application/javascript''), (''.json'', ''application/json''),
     (''.xml'', ''application/xml''), (''.txt'', ''text/plain''), (''.pdf'', ''application/pdf''),
     (''.zip'', ''application/zip''), (''.tar'', ''application/x-tar''), (''.png'', ''image/png''),
     (''.jpg'', ''image/jpeg''), (''.jpeg'', ''image/jpeg''), (''.gif'', ''image/gif''),
     (''.ico'', ''image/x-icon''), (''.svg'', ''image/svg+xml''), (''.webp'', ''image/webp''),
     (''.mp4'', ''video/mp4''), (''.webm'', ''video/webm''), (''.mp3'', ''audio/mpeg''),
     (''.wav'', ''audio/wav''), (''.ogg'', ''audio/ogg''), (''.woff'', ''font/woff''),
     (''.woff2'', ''font/woff2''), (''.ttf'', ''font/ttf'')]"

fun methodAllowed :: "string \<Rightarrow> string list \<Rightarrow> bool" where
  "methodAllowed m [] = False"
| "methodAllowed m (a # as) = (if a = m then True else methodAllowed m as)"

definition getMimeType :: "string \<Rightarrow> string" where
  "getMimeType p =
     (case str_rfind (\<lambda>c. c = CHR ''.'') p of
        None \<Rightarrow> ''application/octet-stream''
      | Some dot \<Rightarrow>
          (case map_of mime_table (map to_lower (drop dot p)) of
             Some t \<Rightarrow> t | None \<Rightarrow> ''application/octet-stream''))"

definition reason_table :: "(int \<times> string) list" where
  "reason_table =
    [(200, ''OK''), (201, ''Created''), (204, ''No Content''), (301, ''Moved Permanently''),
     (302, ''Found''), (303, ''See Other''), (304, ''Not Modified''), (307, ''Temporary Redirect''),
     (308, ''Permanent Redirect''), (400, ''Bad Request''), (401, ''Unauthorized''),
     (403, ''Forbidden''), (404, ''Not Found''), (405, ''Method Not Allowed''),
     (408, ''Request Timeout''), (409, ''Conflict''), (410, ''Gone''), (413, ''Payload Too Large''),
     (414, ''URI Too Long''), (411, ''Length Required''), (431, ''Request Header Fields Too Large''),
     (500, ''Internal Server Error''), (501, ''Not Implemented''), (502, ''Bad Gateway''),
     (503, ''Service Unavailable''), (504, ''Gateway Timeout''), (505, ''HTTP Version Not Supported'')]"

definition reasonPhrase :: "int \<Rightarrow> string" where
  "reasonPhrase code = (case map_of reason_table code of Some s \<Rightarrow> s | None \<Rightarrow> ''Unknown'')"

definition connectionHeader :: "http_request \<Rightarrow> string" where
  "connectionHeader req = (if keepAlive req then ''keep-alive'' else ''close'')"

definition head_text :: "string \<Rightarrow> os \<Rightarrow> int \<Rightarrow> string \<Rightarrow> nat \<Rightarrow> string \<Rightarrow> string \<Rightarrow> string" where
  "head_text ver w code ct cl extra conn =
     ''HTTP/1.1 '' @ int_string code @ '' '' @ reasonPhrase code @ crlf
     @ ''Server: webserv/'' @ ver @ crlf
     @ ''Date: '' @ os_date w @ crlf
     @ ''Content-Type: '' @ ct @ crlf
     @ ''Content-Length: '' @ dec_string cl @ crlf
     @ extra
     @ ''Connection: '' @ conn @ crlf
     @ crlf"

definition no_content_text :: "os \<Rightarrow> string \<Rightarrow> string" where
  \<comment> \<open>the answer of \<open>_handleDelete\<close>\<close>
  "no_content_text w conn =
     ''HTTP/1.1 204 No Content'' @ crlf @ ''Server: webserv/1.1'' @ crlf
     @ ''Date: '' @ os_date w @ crlf @ ''Connection: '' @ conn @ crlf @ crlf"

definition builtinErrorBody :: "int \<Rightarrow> string" where
  "builtinErrorBody code =
     (let title = int_string code @ '' '' @ reasonPhrase code in
      ''<!DOCTYPE html>'' @ nl @ ''<html>'' @ nl
      @ ''<head><title>'' @ title @ ''</title></head>'' @ nl
      @ ''<body>'' @ nl
      @ ''<h1>'' @ title @ ''</h1>'' @ nl
      @ ''<hr><p>webserv/1.0</p>'' @ nl
      @ ''</body>'' @ nl @ ''</html>'' @ nl)"

definition loadErrorPage :: "os \<Rightarrow> int \<Rightarrow> server \<Rightarrow> string" where
  "loadErrorPage w code cfg =
     (case omap_get (srv_error_page cfg) code of
        Some p \<Rightarrow>
          if p \<noteq> [] then
            (case os_read w (c_str p) of
               Inr blocks \<Rightarrow> (let t = concat blocks in if t \<noteq> [] then t else builtinErrorBody code)
             | Inl _ \<Rightarrow> builtinErrorBody code)
          else builtinErrorBody code
      | None \<Rightarrow> builtinErrorBody code)"

definition redirect_body :: "int \<Rightarrow> string \<Rightarrow> string" where
  "redirect_body code url =
     ''<!DOCTYPE html><html><head><title>'' @ int_string code @ '' '' @ reasonPhrase code
     @ ''</title></head><body><p>Redirecting to ''
     @ ''<a href='' @ [DQUOTE] @ htmlEscape url @ [DQUOTE] @ ''>'' @ htmlEscape url @ ''</a>''
     @ ''</p></body></html>''"

definition upload_body :: string where
  "upload_body = ''<!DOCTYPE html><html><body><p>File uploaded successfully.</p></body></html>''"

definition listing_head :: "string \<Rightarrow> string" where
  "listing_head p =
     ''<!DOCTYPE html>'' @ nl @ ''<html>'' @ nl
     @ ''<head><meta charset='' @ [DQUOTE] @ ''UTF-8'' @ [DQUOTE] @ ''>''
     @ ''<title>Index of '' @ htmlEscape p @ ''</title>'' @ nl
     @ ''<style>body{font-family:monospace;padding:1em}''
     @ ''table{border-collapse:collapse;width:100%}''
     @ ''th,td{text-align:left;padding:4px 12px}''
     @ ''tr:nth-child(even){background:#f2f2f2}''
     @ ''a{text-decoration:none}a:hover{text-decoration:underline}''
     @ ''</style></head>'' @ nl
     @ ''<body>'' @ nl
     @ ''<h1>Index of '' @ htmlEscape p @ ''</h1>'' @ nl
     @ ''<hr>'' @ nl
     @ ''<table>'' @ nl
     @ ''<tr><th>Name</th><th>Size</th></tr>'' @ nl
     @ (if p \<noteq> ''/'' then ''<tr><td><a href='' @ [DQUOTE] @ ''../'' @ [DQUOTE] @ ''>../</a></td><td>-</td></tr>'' @ nl
        else [])"

definition listing_row :: "os \<Rightarrow> string \<Rightarrow> string \<Rightarrow> string \<Rightarrow> string" where
  "listing_row w fs_path p name =
     (let (dir, fsize) =
        (case os_stat w (c_str (fs_path @ name)) of
           Inr st \<Rightarrow> (st_kind st = DIR, if st_kind st \<noteq> DIR then st_size st else 0)
         | Inl _ \<Rightarrow> (False, 0));
          href = p @ name @ (if dir then ''/'' else []);
          display = name @ (if dir then ''/'' else [])
      in ''<tr>'' @ ''<td><a href='' @ [DQUOTE] @ htmlEscape href @ [DQUOTE] @ ''>'' @ htmlEscape display @ ''</a></td>''
         @ ''<td>'' @ (if dir then ''-'' else dec_string fsize) @ ''</td></tr>'' @ nl)"

fun listing_rows :: "os \<Rightarrow> string \<Rightarrow> string \<Rightarrow> string list \<Rightarrow> string" where
  \<comment> \<open>the loop over \<open>readdir\<close>\<close>
  "listing_rows w fs_path p [] = []"
| "listing_rows w fs_path p (name # names) =
     (if name = ''.'' \<or> name = ''..'' then listing_rows w fs_path p names
      else listing_row w fs_path p name @ listing_rows w fs_path p names)"

definition listing_body :: "os \<Rightarrow> string \<Rightarrow> string \<Rightarrow> string list \<Rightarrow> string" where
  "listing_body w fs_path p names =
     listing_head p @ listing_rows w fs_path p names
     @ ''</table>'' @ nl @ ''<hr>'' @ nl @ ''</body>'' @ nl @ ''</html>'' @ nl"

section \<open>Lemmas\<close>

lemma methodAllowed_iff: "methodAllowed m as \<longleftrightarrow> m \<in> set as"
  by (induction as) auto

lemma html_escape_char_prefix:
  "html_escape_char c @ xs = html_escape_char d @ ys \<longleftrightarrow> c = d \<and> xs = ys"
  by (auto simp: html_escape_char_def)

lemma html_escape_char_nonempty [simp]: "html_escape_char c \<noteq> []"
  by (simp add: html_escape_char_def)

lemma htmlEscape_inj: "htmlEscape s = htmlEscape t \<longleftrightarrow> s = t"
proof (induction s arbitrary: t)
  case Nil
  show ?case by (cases t) auto
next
  case (Cons c s)
  show ?case by (cases t) (simp_all add: html_escape_char_prefix Cons.IH)
qed

lemma htmlEscape_chars:
  "set (htmlEscape s) \<inter> {CHR ''<'', CHR ''>'', DQUOTE, SQUOTE} = {}"
  by (induction s) (auto simp: html_escape_char_def split: if_splits)

section \<open>Properties\<close>

text \<open>
  Escaped text is inert and faithful.  No character of \<open>htmlEscape s\<close> opens a tag or
  ends a quoted attribute, and different texts stay different, so names of files and
  redirect targets cannot inject markup and can be read back.
\<close>

theorem htmlEscape_safe:
  "set (htmlEscape s) \<inter> {CHR ''<'', CHR ''>'', DQUOTE, SQUOTE} = {} \<and> (htmlEscape s = htmlEscape t \<longleftrightarrow> s = t)"
  by (simp only: htmlEscape_chars htmlEscape_inj simp_thms)

end
