(* ===== verification/Responses.thy ===== *)
theory Responses
  imports Multipart Paths Response_Text
begin

text \<open>
  The response handler: \<open>ResponseHandler::handle\<close> and the operations it calls
  (\<open>src/ResponseHandler.cpp\<close>, \<open>src/ResponseLoader.cpp\<close>).  The state is the request (whose
  path \<open>handle\<close> rewrites through a \<open>const_cast\<close>), the write buffer, the static upload
  counter and the trace of calls that open, list, write or remove files.  \<open>_appendStr\<close> may
  throw \<open>BodyLimitException\<close>; the failure then carries the state reached.
\<close>

section \<open>State and file-system calls\<close>

datatype fs_call =
    FsRead string             \<comment> \<open>\<open>open(path, O_RDONLY)\<close> of a file to serve\<close>
  | FsList string             \<comment> \<open>\<open>opendir(path)\<close>\<close>
  | FsWrite string string     \<comment> \<open>\<open>open(path, O_CREAT | O_TRUNC)\<close> and the bytes written\<close>
  | FsRemove string           \<comment> \<open>\<open>remove(path)\<close>\<close>

record hstate =
  h_req :: http_request
  h_wb :: buffer
  h_counter :: int
  h_calls :: "fs_call list"

type_synonym handled = "(failure \<times> hstate) + hstate"

definition fs_trace :: "fs_call \<Rightarrow> hstate \<Rightarrow> hstate" where
  "fs_trace call h = h\<lparr>h_calls := h_calls h @ [call]\<rparr>"

section \<open>Writing a response\<close>

definition appendStr :: "string \<Rightarrow> hstate \<Rightarrow> handled" where
  "appendStr s h = rbind (with_state h (Buffer_append (h_wb h) s)) (\<lambda>wb. Inr (h\<lparr>h_wb := wb\<rparr>))"

fun appendBlocks :: "string list \<Rightarrow> hstate \<Rightarrow> handled" where
  \<comment> \<open>\<open>while ((n = ::read(fd, buf, sizeof(buf))) > 0) _appendStr(wb, buf, n)\<close>\<close>
  "appendBlocks [] h = Inr h"
| "appendBlocks (b # bs) h = rbind (appendStr b h) (appendBlocks bs)"

definition writeHeaders :: "os \<Rightarrow> int \<Rightarrow> string \<Rightarrow> nat \<Rightarrow> string \<Rightarrow> hstate \<Rightarrow> handled" where
  "writeHeaders w code ct cl extra h =
     appendStr (head_text ''1.1'' w code ct cl extra (connectionHeader (h_req h))) h"

definition sendErrorInternal :: "os \<Rightarrow> int \<Rightarrow> server \<Rightarrow> hstate \<Rightarrow> handled" where
  "sendErrorInternal w code cfg h =
     (let page = loadErrorPage w code cfg in
      appendStr (head_text ''1.0'' w code ''text/html'' (length page) [] (connectionHeader (h_req h))
        @ (if req_method (h_req h) \<noteq> ''HEAD'' then page else [])) h)"

definition sendError :: "os \<Rightarrow> int \<Rightarrow> server \<Rightarrow> buffer \<Rightarrow> failure + buffer" where
  "sendError w code cfg wb =
     (let page = loadErrorPage w code cfg in
      Buffer_append wb (head_text ''1.0'' w code ''text/html'' (length page) [] ''close'' @ page))"

section \<open>Operations\<close>

definition errno_status :: "errno \<Rightarrow> int" where
  "errno_status e =
     (if e = ENOENT then 404 else if e = EACCES \<or> e = EPERM then 403 else 500)"

definition ALLOWEDSIZE :: nat where "ALLOWEDSIZE = 524288000"

definition serveStaticFile :: "os \<Rightarrow> string \<Rightarrow> server \<Rightarrow> hstate \<Rightarrow> handled" where
  "serveStaticFile w fs_path cfg h =
     (let h = fs_trace (FsRead (c_str fs_path)) h in
      case os_read w (c_str fs_path) of
        Inl e \<Rightarrow> sendErrorInternal w (errno_status e) cfg h
      | Inr blocks \<Rightarrow>
          case os_stat w (c_str fs_path) of
            Inl _ \<Rightarrow> sendErrorInternal w 500 cfg h
          | Inr st \<Rightarrow>
              if st_size st > ALLOWEDSIZE then sendErrorInternal w 400 cfg h
              else rbind (writeHeaders w 200 (getMimeType fs_path) (st_size st) [] h) (\<lambda>h.
                if req_method (h_req h) = ''HEAD'' then Inr h else appendBlocks blocks h))"

definition sendDirectoryListing :: "os \<Rightarrow> string \<Rightarrow> server \<Rightarrow> hstate \<Rightarrow> handled" where
  "sendDirectoryListing w fs_path cfg h =
     (let h = fs_trace (FsList (c_str fs_path)) h in
      case os_readdir w (c_str fs_path) of
        Inl e \<Rightarrow> sendErrorInternal w (errno_status e) cfg h
      | Inr names \<Rightarrow>
          let page = listing_body w fs_path (path (h_req h)) names in
          rbind (writeHeaders w 200 ''text/html'' (length page) [] h) (\<lambda>h.
            if req_method (h_req h) \<noteq> ''HEAD'' then appendStr page h else Inr h))"

definition sendRedirect :: "os \<Rightarrow> int \<Rightarrow> string \<Rightarrow> hstate \<Rightarrow> handled" where
  "sendRedirect w code url h =
     (let page = redirect_body code url in
      rbind (writeHeaders w code ''text/html'' (length page) (''Location: '' @ url @ crlf) h) (\<lambda>h.
        if req_method (h_req h) \<noteq> ''HEAD'' then appendStr page h else Inr h))"

function write_loop :: "os \<Rightarrow> string \<Rightarrow> nat \<Rightarrow> nat \<Rightarrow> bool \<times> nat" where
  \<comment> \<open>whether everything was written, and how many bytes were\<close>
  "write_loop w f done_n write_len =
     (if done_n < write_len then
        let n = os_write w f done_n (write_len - done_n) in
        if n \<le> 0 then (False, done_n)
        else write_loop w f (done_n + nat n) write_len
      else (True, done_n))"
  by pat_completeness auto
termination by (relation "measure (\<lambda>(w, f, done_n, write_len). write_len - done_n)") auto

declare write_loop.simps [simp del]

definition with_trailing_slash :: "string \<Rightarrow> string" where
  "with_trailing_slash s = (if s = [] \<or> s ! (length s - 1) \<noteq> SLASH then s @ ''/'' else s)"

definition upload_name :: "os \<Rightarrow> int \<Rightarrow> string" where
  "upload_name w counter = ''upload_'' @ int_string (os_time w) @ ''_'' @ int_string counter"

definition upload_content :: "http_request \<Rightarrow> string \<Rightarrow> string \<times> string" where
  \<comment> \<open>file name (empty: to be generated) and bytes of an upload, given the bytes of the body\<close>
  "upload_content req bytes =
     (case extractBoundary req of
        Some boundary \<Rightarrow>
          (case parseMultipartFirstFile bytes boundary of
             Some mf \<Rightarrow> (sanitizeFilename (mf_filename mf), mf_data mf)
           | None \<Rightarrow> ([], bytes))
      | None \<Rightarrow> ([], bytes))"

definition handlePost :: "os \<Rightarrow> location \<Rightarrow> server \<Rightarrow> hstate \<Rightarrow> handled" where
  "handlePost w loc cfg h =
     (if loc_upload loc = [] then sendErrorInternal w 405 cfg h
      else
        let upload_dir = with_trailing_slash (loc_upload loc);
            h = h\<lparr>h_counter := h_counter h + 1\<rparr>
        in rbind (with_state h (Buffer_data (body (h_req h)))) (\<lambda>bytes.
          let (filename, write_data) = upload_content (h_req h) bytes;
              filename = (if filename = [] then upload_name w (h_counter h) else filename);
              filepath = upload_dir @ filename
          in if os_create w (c_str filepath) \<noteq> None then sendErrorInternal w 500 cfg h
             else
               let (ok, done_n) = write_loop w (c_str filepath) 0 (length write_data);
                   h = fs_trace (FsWrite (c_str filepath) (take done_n write_data)) h
               in if \<not> ok then sendErrorInternal w 500 cfg h
                  else
                    let location_url = with_trailing_slash (path (h_req h)) @ filename in
                    rbind (writeHeaders w 201 ''text/html'' (length upload_body)
                             (''Location: '' @ location_url @ crlf) h) (\<lambda>h.
                      if req_method (h_req h) \<noteq> ''HEAD'' then appendStr upload_body h else Inr h)))"

definition handleDelete :: "os \<Rightarrow> string \<Rightarrow> server \<Rightarrow> hstate \<Rightarrow> handled" where
  "handleDelete w fs_path cfg h =
     (let h = fs_trace (FsRemove (c_str fs_path)) h in
      case os_remove w (c_str fs_path) of
        Some e \<Rightarrow> sendErrorInternal w (errno_status e) cfg h
      | None \<Rightarrow> appendStr (no_content_text w (connectionHeader (h_req h))) h)"

section \<open>\<open>handle\<close>\<close>

definition index_file :: "location option \<Rightarrow> server \<Rightarrow> string" where
  "index_file loc cfg =
     (let idx_vec = (case loc of
                       Some l \<Rightarrow> if loc_index_Files l \<noteq> [] then loc_index_Files l else srv_index_Files cfg
                     | None \<Rightarrow> srv_index_Files cfg)
      in case idx_vec of [] \<Rightarrow> ''index.html'' | idx # _ \<Rightarrow> idx)"

definition has_autoindex :: "location option \<Rightarrow> bool" where
  "has_autoindex loc = (case loc of Some l \<Rightarrow> loc_autoindex l | None \<Rightarrow> False)"

definition post_to :: "os \<Rightarrow> location option \<Rightarrow> server \<Rightarrow> hstate \<Rightarrow> handled" where
  \<comment> \<open>\<open>if (loc && !loc->getUploadStore().empty()) _handlePost(..) else 405\<close>\<close>
  "post_to w loc cfg h =
     (case loc of
        Some l \<Rightarrow> if loc_upload l \<noteq> [] then handlePost w l cfg h else sendErrorInternal w 405 cfg h
      | None \<Rightarrow> sendErrorInternal w 405 cfg h)"

definition handle_slash :: "os \<Rightarrow> server \<Rightarrow> location option \<Rightarrow> string \<Rightarrow> hstate \<Rightarrow> handled" where
  \<comment> \<open>the request path ends with a slash\<close>
  "handle_slash w cfg loc fs_path h =
     (if \<not> is_dir w fs_path then sendErrorInternal w 404 cfg h
      else if req_method (h_req h) = ''POST'' then post_to w loc cfg h
      else if req_method (h_req h) \<noteq> ''GET'' then sendErrorInternal w 405 cfg h
      else
        let idx_path = fs_path @ index_file loc cfg in
        if is_reg w idx_path then serveStaticFile w idx_path cfg h
        else if has_autoindex loc then
          (if is_dir w fs_path then sendDirectoryListing w fs_path cfg h
           else sendErrorInternal w 404 cfg h)
        else sendErrorInternal w 403 cfg h)"

definition handle_directory :: "os \<Rightarrow> server \<Rightarrow> string \<Rightarrow> hstate \<Rightarrow> handled" where
  \<comment> \<open>the path names a directory without a final slash\<close>
  "handle_directory w cfg fs_path h =
     (let p = path (h_req h);
          h = (if p \<noteq> [] \<and> p ! (length p - 1) \<noteq> SLASH
               then h\<lparr>h_req := (h_req h)\<lparr>path := p @ ''/''\<rparr>\<rparr> else h);
          dir_loc = matchLocation cfg (path (h_req h))
      in if req_method (h_req h) = ''POST'' then post_to w dir_loc cfg h
         else if req_method (h_req h) \<noteq> ''GET'' then sendErrorInternal w 405 cfg h
         else
           let idx_path = fs_path @ ''/'' @ index_file dir_loc cfg in
           if is_reg w idx_path then serveStaticFile w idx_path cfg h
           else if has_autoindex dir_loc then
             sendDirectoryListing w
               (if fs_path \<noteq> [] \<and> fs_path ! (length fs_path - 1) \<noteq> SLASH then fs_path @ ''/'' else fs_path) cfg h
           else sendErrorInternal w 404 cfg h)"

definition handle_file :: "os \<Rightarrow> server \<Rightarrow> location option \<Rightarrow> string \<Rightarrow> hstate \<Rightarrow> handled" where
  "handle_file w cfg loc fs_path h =
     (let m = req_method (h_req h) in
      if m = ''GET'' then serveStaticFile w fs_path cfg h
      else if m = ''POST'' then post_to w loc cfg h
      else if m = ''DELETE'' then handleDelete w fs_path cfg h
      else sendErrorInternal w 405 cfg h)"

definition method_refused :: "string \<Rightarrow> location option \<Rightarrow> bool" where
  "method_refused m loc =
     (m = ''HEAD''
      \<or> (case loc of
           Some l \<Rightarrow> loc_allowed_methods l \<noteq> [] \<and> \<not> methodAllowed m (loc_allowed_methods l)
         | None \<Rightarrow> m \<noteq> ''GET''))"

definition handle_target :: "os \<Rightarrow> server \<Rightarrow> location option \<Rightarrow> hstate \<Rightarrow> handled" where
  \<comment> \<open>\<open>handle\<close> once the method is allowed and the location does not redirect\<close>
  "handle_target w cfg loc h =
     (let req = h_req h; fs_path = resolveFsPath req loc cfg in
      if path req \<noteq> [] \<and> path req ! (length (path req) - 1) = SLASH then handle_slash w cfg loc fs_path h
      else if stat_fails w fs_path then sendErrorInternal w 404 cfg h
      else if is_dir w fs_path then handle_directory w cfg fs_path h
      else handle_file w cfg loc fs_path h)"

definition handle :: "os \<Rightarrow> server \<Rightarrow> hstate \<Rightarrow> handled" where
  "handle w cfg h =
     (let safe_path = normalizePath (path (h_req h)) in
      if safe_path = [] then sendErrorInternal w 400 cfg h
      else
        let h = h\<lparr>h_req := (h_req h)\<lparr>path := safe_path\<rparr>\<rparr>;
            loc = matchLocation cfg (path (h_req h))
        in if method_refused (req_method (h_req h)) loc then sendErrorInternal w 405 cfg h
           else case loc of
             Some l \<Rightarrow>
               if loc_redirect_enabled l
               then sendRedirect w (loc_return_code l) (loc_return_value l) h
               else handle_target w cfg loc h
           | None \<Rightarrow> handle_target w cfg loc h)"

section \<open>What an operation emits\<close>

text \<open>
  \<open>emits h r M C\<close>: the operation with result \<open>r\<close> started in \<open>h\<close> appends to the write
  buffer a text that satisfies \<open>M\<close>, makes only file-system calls that satisfy \<open>C\<close>, and
  fails only because the buffer is full.  It keeps everything of the request but the path.
\<close>

definition hstate_ok :: "hstate \<Rightarrow> bool" where
  "hstate_ok h \<longleftrightarrow> buf_ok (h_wb h) \<and> buf_ok (body (h_req h))"

definition same_request :: "hstate \<Rightarrow> hstate \<Rightarrow> bool" where
  "same_request h h' \<longleftrightarrow> (\<exists>p. h_req h' = (h_req h)\<lparr>path := p\<rparr>)"

definition step_to :: "hstate \<Rightarrow> hstate \<Rightarrow> (fs_call \<Rightarrow> bool) \<Rightarrow> string \<Rightarrow> bool" where
  "step_to h h' C m \<longleftrightarrow>
     content (h_wb h') = content (h_wb h) @ m \<and> cmbs (h_wb h') = cmbs (h_wb h)
     \<and> same_request h h' \<and> hstate_ok h' \<and> (\<exists>cs. h_calls h' = h_calls h @ cs \<and> (\<forall>c \<in> set cs. C c))"

definition emits :: "hstate \<Rightarrow> handled \<Rightarrow> (string \<Rightarrow> bool) \<Rightarrow> (fs_call \<Rightarrow> bool) \<Rightarrow> bool" where
  "emits h r M C \<longleftrightarrow>
     (case r of
        Inr h' \<Rightarrow> \<exists>m. M m \<and> step_to h h' C m
      | Inl (e, h') \<Rightarrow> (e = BodyLimitException \<or> e = LengthError) \<and> (\<exists>m. step_to h h' C m))"

lemma same_request_path [simp]: "same_request h (h\<lparr>h_req := (h_req h)\<lparr>path := p\<rparr>\<rparr>)"
  by (auto simp: same_request_def)

lemma same_request_refl [simp]: "same_request h h"
  by (auto simp: same_request_def intro: exI [of _ "path (h_req h)"])

lemma same_request_sel:
  assumes "same_request h h'"
  shows "req_method (h_req h') = req_method (h_req h)" "connectionHeader (h_req h') = connectionHeader (h_req h)"
    "header (h_req h') = header (h_req h)" "body (h_req h') = body (h_req h)"
  using assms by (auto simp: same_request_def header_def fun_eq_iff connectionHeader_def keepAlive_def)

lemma same_request_trans: "same_request h h1 \<Longrightarrow> same_request h1 h2 \<Longrightarrow> same_request h h2"
  by (auto simp: same_request_def)

lemma step_to_refl: "hstate_ok h \<Longrightarrow> step_to h h C []"
  by (simp add: step_to_def)

lemma step_to_trans: "step_to h h1 C m1 \<Longrightarrow> step_to h1 h2 C m2 \<Longrightarrow> step_to h h2 C (m1 @ m2)"
  by (auto simp: step_to_def intro: same_request_trans)

lemma emits_from: "step_to h h1 C [] \<Longrightarrow> emits h1 r M C \<Longrightarrow> emits h r M C"
proof (cases r)
  case (Inl x)
  moreover assume "step_to h h1 C []" "emits h1 r M C"
  ultimately show ?thesis by (cases x) (auto simp: emits_def dest: step_to_trans)
next
  case (Inr h2)
  moreover assume "step_to h h1 C []" "emits h1 r M C"
  ultimately show ?thesis using step_to_trans [of h h1 C "[]"] by (auto simp: emits_def)
qed

lemma emits_nothing: "hstate_ok h \<Longrightarrow> M [] \<Longrightarrow> emits h (Inr h) M C"
  using step_to_refl [of h C] by (auto simp: emits_def)

lemma emits_weaken: "emits h r M C \<Longrightarrow> (\<And>m. M m \<Longrightarrow> M' m) \<Longrightarrow> emits h r M' C"
  unfolding emits_def by (cases r) auto

lemma emits_bind:
  assumes "emits h r M1 C" "\<And>h1 m. r = Inr h1 \<Longrightarrow> M1 m \<Longrightarrow> step_to h h1 C m \<Longrightarrow> emits h1 (f h1) (\<lambda>m2. M (m @ m2)) C"
  shows "emits h (rbind r f) M C"
proof (cases r)
  case (Inl x)
  then show ?thesis using assms(1) by (cases x) (simp add: emits_def)
next
  case (Inr h1)
  with assms(1) obtain m where m: "M1 m" "step_to h h1 C m" by (auto simp: emits_def)
  have "emits h1 (f h1) (\<lambda>m2. M (m @ m2)) C" using assms(2) [OF Inr m] .
  with m(2) Inr show ?thesis
    by (cases "f h1") (auto simp: emits_def dest: step_to_trans)
qed

lemma appendStr_emits:
  assumes "hstate_ok h"
  shows "emits h (appendStr s h) (\<lambda>m. m = s) C"
proof -
  have ok: "buf_ok (h_wb h)" using assms by (simp add: hstate_ok_def)
  show ?thesis
  proof (cases "Buffer_append (h_wb h) s")
    case (Inl e)
    then show ?thesis
      using append_InlD [OF ok Inl] step_to_refl [OF assms] by (auto simp: appendStr_def emits_def)
  next
    case (Inr b)
    then show ?thesis
      using append_InrD [OF ok Inr] assms by (auto simp: appendStr_def emits_def step_to_def hstate_ok_def same_request_def
        intro: exI [of _ "path (h_req h)"])
  qed
qed

lemma appendBlocks_emits:
  "hstate_ok h \<Longrightarrow> emits h (appendBlocks bs h) (\<lambda>m. m = concat bs) C"
proof (induction bs arbitrary: h)
  case Nil
  then show ?case using step_to_refl by (simp add: emits_def)
next
  case (Cons b bs)
  show ?case unfolding appendBlocks.simps
  proof (rule emits_bind [OF appendStr_emits [OF Cons.prems]])
    fix h1 m assume "m = b" "step_to h h1 C m"
    then show "emits h1 (appendBlocks bs h1) (\<lambda>m2. m @ m2 = concat (b # bs)) C"
      using Cons.IH [of h1] by (auto simp: step_to_def elim: emits_weaken)
  qed
qed

section \<open>Responses are framed\<close>

definition response :: "os \<Rightarrow> http_request \<Rightarrow> int \<Rightarrow> string \<Rightarrow> bool" where
  \<comment> \<open>a complete response: \<open>Content-Length\<close> counts the bytes that follow the header block\<close>
  "response w req code m \<longleftrightarrow>
     (\<exists>ver ct extra page. m = head_text ver w code ct (length page) extra (connectionHeader req)
        @ (if req_method req \<noteq> ''HEAD'' then page else []))
     \<or> (code = 204 \<and> m = no_content_text w (connectionHeader req))"

lemma response_same [simp]: "same_request h h' \<Longrightarrow> response w (h_req h') = response w (h_req h)"
  by (simp add: response_def same_request_sel fun_eq_iff)

lemma responseI:
  "m = head_text ver w code ct (length page) extra (connectionHeader req) @ (if req_method req \<noteq> ''HEAD'' then page else [])
    \<Longrightarrow> response w req code m"
  unfolding response_def by blast

definition sizes_true :: "os \<Rightarrow> bool" where
  \<comment> \<open>\<open>stat\<close> reports as size the number of bytes \<open>read\<close> returns\<close>
  "sizes_true w \<longleftrightarrow> (\<forall>f blocks st. os_read w f = Inr blocks \<longrightarrow> os_stat w f = Inr st
     \<longrightarrow> st_size st = length (concat blocks))"

definition answers :: "os \<Rightarrow> hstate \<Rightarrow> handled \<Rightarrow> (int \<Rightarrow> bool) \<Rightarrow> (fs_call \<Rightarrow> bool) \<Rightarrow> bool" where
  \<comment> \<open>emits one complete response with a status in \<open>S\<close>, if file sizes are reported truly\<close>
  "answers w h r S C \<longleftrightarrow>
     emits h r (\<lambda>m. sizes_true w \<longrightarrow> (\<exists>code. S code \<and> response w (h_req h) code m)) C"

lemma answers_from:
  assumes "step_to h h1 C []" "answers w h1 r S C"
  shows "answers w h r S C"
proof -
  have "same_request h h1" using assms(1) by (simp add: step_to_def)
  with assms(2) have "emits h1 r (\<lambda>m. sizes_true w \<longrightarrow> (\<exists>code. S code \<and> response w (h_req h) code m)) C"
    by (simp add: answers_def)
  with assms(1) show ?thesis unfolding answers_def by (rule emits_from)
qed

lemma sendErrorInternal_emits:
  assumes "hstate_ok h"
  shows "emits h (sendErrorInternal w code cfg h) (response w (h_req h) code) C"
  unfolding sendErrorInternal_def Let_def
  by (rule emits_weaken [OF appendStr_emits [OF assms]]) (rule responseI)

lemma sendErrorInternal_answers:
  assumes "hstate_ok h" "S code"
  shows "answers w h (sendErrorInternal w code cfg h) S C"
  unfolding answers_def
  by (rule emits_weaken [OF sendErrorInternal_emits [OF assms(1)]]) (use assms(2) in blast)

lemma head_then_page_answers:
  assumes "hstate_ok h" "S code"
  shows "answers w h (rbind (writeHeaders w code ct (length page) extra h) (\<lambda>h.
    if req_method (h_req h) \<noteq> ''HEAD'' then appendStr page h else Inr h)) S C"
  unfolding answers_def writeHeaders_def
proof (rule emits_bind [OF appendStr_emits [OF assms(1)]])
  fix h1 m
  assume m: "m = head_text ''1.1'' w code ct (length page) extra (connectionHeader (h_req h))" and s: "step_to h h1 C m"
  have h1: "hstate_ok h1" "req_method (h_req h1) = req_method (h_req h)"
    using s same_request_sel [of h h1] by (simp_all add: step_to_def)
  let ?M = "\<lambda>m2. sizes_true w \<longrightarrow> (\<exists>code. S code \<and> response w (h_req h) code (m @ m2))"
  show "emits h1 (if req_method (h_req h1) \<noteq> ''HEAD'' then appendStr page h1 else Inr h1) ?M C"
  proof (cases "req_method (h_req h) = ''HEAD''")
    case True
    have "response w (h_req h) code (m @ [])" using True m by (intro responseI [where page = page]) simp
    then have "?M []" using assms(2) by blast
    then show ?thesis using True h1 emits_nothing [OF h1(1)] by simp
  next
    case False
    have "response w (h_req h) code (m @ page)" using False m by (intro responseI [where page = page]) simp
    then have "?M page" using assms(2) by blast
    then have "emits h1 (appendStr page h1) ?M C"
      by (intro emits_weaken [OF appendStr_emits [OF h1(1)]]) simp
    then show ?thesis using False h1(2) by simp
  qed
qed

lemma trace_step:
  assumes "hstate_ok h" "C call"
  shows "step_to h (fs_trace call h) C []"
  using assms by (auto simp: step_to_def fs_trace_def hstate_ok_def same_request_def intro: exI [of _ "path (h_req h)"])

lemma hstate_ok_trace [simp]: "hstate_ok (fs_trace call h) = hstate_ok h"
  by (simp add: hstate_ok_def fs_trace_def)

lemma fs_trace_sel [simp]: "h_req (fs_trace call h) = h_req h" "h_counter (fs_trace call h) = h_counter h"
  by (simp_all add: fs_trace_def)

definition file_statuses :: "int list" where
  "file_statuses = [200, 400, 403, 404, 500]"

lemma file_statusesD:
  assumes "\<forall>c \<in> set file_statuses. S c"
  shows "S 200" "S 400" "S 403" "S 404" "S 500" "S (errno_status e)"
  using assms by (auto simp: errno_status_def file_statuses_def)

lemma serveStaticFile_answers:
  assumes "hstate_ok h" "C (FsRead (c_str f))" "\<forall>c \<in> set file_statuses. S c"
  shows "answers w h (serveStaticFile w f cfg h) S C"
proof (rule answers_from [OF trace_step [where C = C, OF assms(1,2)]])
  let ?h = "fs_trace (FsRead (c_str f)) h"
  have h: "hstate_ok ?h" using assms(1) by simp
  have S: "S 200" "S 400" "S 500" "\<And>e. S (errno_status e)"
    using file_statusesD [OF assms(3)] by blast+
  show "answers w ?h (serveStaticFile w f cfg h) S C"
  proof (cases "os_read w (c_str f)")
    case (Inl e)
    then show ?thesis using sendErrorInternal_answers [where S = S, OF h S(4)] by (simp add: serveStaticFile_def Let_def)
  next
    case (Inr blocks)
    show ?thesis
    proof (cases "os_stat w (c_str f)")
      case (Inl e)
      then show ?thesis using Inr sendErrorInternal_answers [where S = S, OF h S(3)] by (simp add: serveStaticFile_def Let_def)
    next
      case st: (Inr st)
      have size: "sizes_true w \<Longrightarrow> st_size st = length (concat blocks)" using Inr st unfolding sizes_true_def by blast
      show ?thesis
      proof (cases "st_size st > ALLOWEDSIZE")
        case True
        then show ?thesis using Inr st sendErrorInternal_answers [where S = S, OF h S(2)] by (simp add: serveStaticFile_def Let_def)
      next
        case False
        have "answers w ?h (rbind (writeHeaders w 200 (getMimeType f) (st_size st) [] ?h) (\<lambda>h.
            if req_method (h_req h) = ''HEAD'' then Inr h else appendBlocks blocks h)) S C"
          unfolding answers_def writeHeaders_def
        proof (rule emits_bind [OF appendStr_emits [OF h]])
          fix h1 m
          let ?M = "\<lambda>m2. sizes_true w \<longrightarrow> (\<exists>code. S code \<and> response w (h_req ?h) code (m @ m2))"
          assume m: "m = head_text ''1.1'' w 200 (getMimeType f) (st_size st) [] (connectionHeader (h_req ?h))"
            and s: "step_to ?h h1 C m"
          have h1: "hstate_ok h1" "req_method (h_req h1) = req_method (h_req h)"
            using s same_request_sel [of ?h h1] by (simp_all add: step_to_def)
          have M: "?M (if req_method (h_req h) \<noteq> ''HEAD'' then concat blocks else [])"
            using S(1) m size by (intro impI exI [of _ 200] conjI responseI [where page = "concat blocks"]) simp_all
          show "emits h1 (if req_method (h_req h1) = ''HEAD'' then Inr h1 else appendBlocks blocks h1) ?M C"
          proof (cases "req_method (h_req h) = ''HEAD''")
            case True
            then show ?thesis using M h1 emits_nothing [OF h1(1)] by simp
          next
            case False
            then have "emits h1 (appendBlocks blocks h1) ?M C"
              using M by (intro emits_weaken [OF appendBlocks_emits [OF h1(1)]]) simp_all
            then show ?thesis using False h1(2) by simp
          qed
        qed
        then show ?thesis using Inr st False by (simp add: serveStaticFile_def Let_def)
      qed
    qed
  qed
qed

lemma sendDirectoryListing_traced:
  assumes "hstate_ok h" "\<forall>c \<in> set file_statuses. S c"
  shows "answers w (fs_trace (FsList (c_str f)) h) (sendDirectoryListing w f cfg h) S C"
proof -
  let ?h = "fs_trace (FsList (c_str f)) h"
  have h: "hstate_ok ?h" using assms(1) by simp
  have S: "S 200" "\<And>e. S (errno_status e)"
    using file_statusesD [OF assms(2)] by blast+
  show ?thesis
  proof (cases "os_readdir w (c_str f)")
    case (Inl e)
    then show ?thesis
      using sendErrorInternal_answers [where S = S, OF h S(2)] by (simp add: sendDirectoryListing_def Let_def)
  next
    case (Inr names)
    show ?thesis
      unfolding sendDirectoryListing_def Let_def Inr sum.case by (rule head_then_page_answers [where S = S, OF h S(1)])
  qed
qed

lemma sendDirectoryListing_answers:
  assumes "hstate_ok h" "C (FsList (c_str f))" "\<forall>c \<in> set file_statuses. S c"
  shows "answers w h (sendDirectoryListing w f cfg h) S C"
  by (rule answers_from [OF trace_step [where C = C, OF assms(1,2)]
        sendDirectoryListing_traced [where S = S, OF assms(1,3)]])

lemma sendRedirect_answers:
  "hstate_ok h \<Longrightarrow> S code \<Longrightarrow> answers w h (sendRedirect w code url h) S C"
  unfolding sendRedirect_def Let_def by (rule head_then_page_answers)

lemma handleDelete_answers:
  assumes "hstate_ok h" "C (FsRemove (c_str f))" "S 204" "\<forall>c \<in> set file_statuses. S c"
  shows "answers w h (handleDelete w f cfg h) S C"
proof (rule answers_from [OF trace_step [where C = C, OF assms(1,2)]])
  let ?h = "fs_trace (FsRemove (c_str f)) h"
  have h: "hstate_ok ?h" using assms(1) by simp
  have S: "\<And>e. S (errno_status e)" using file_statusesD [OF assms(4)] by blast
  have "answers w ?h (appendStr (no_content_text w (connectionHeader (h_req ?h))) ?h) S C"
    unfolding answers_def
    by (rule emits_weaken [OF appendStr_emits [OF h]]) (use assms(3) in \<open>auto simp: response_def\<close>)
  then show "answers w ?h (handleDelete w f cfg h) S C"
    using sendErrorInternal_answers [where S = S, OF h S]
    by (cases "os_remove w (c_str f)") (simp_all add: handleDelete_def Let_def)
qed

definition upload_call :: "http_request \<Rightarrow> location \<Rightarrow> fs_call \<Rightarrow> bool" where
  \<comment> \<open>a call that stores (a prefix of) the upload directly in the upload directory of the location\<close>
  "upload_call req loc call \<longleftrightarrow>
     (\<exists>name data. call = FsWrite (c_str (with_trailing_slash (loc_upload loc) @ name)) data
        \<and> SLASH \<notin> set name \<and> name \<noteq> [] \<and> (\<exists>rest. snd (upload_content req (content (body req))) = data @ rest))"

lemma upload_name_slashless: "SLASH \<notin> set (upload_name w n)"
proof -
  have "SLASH \<notin> set (dec_string k)" for k
    using dec_string_digits [of SLASH k] by (auto simp: in_range_def ord_def)
  then show ?thesis by (auto simp: upload_name_def int_string_def)
qed

lemma upload_content_name:
  "SLASH \<notin> set (fst (upload_content req bytes))"
  using sanitizeFilename_slashless by (auto simp: upload_content_def split: option.splits)

lemma handlePost_answers:
  assumes "hstate_ok h" "\<And>c. upload_call (h_req h) loc c \<Longrightarrow> C c" "\<forall>c \<in> {201, 405, 500}. S c"
  shows "answers w h (handlePost w loc cfg h) S C"
proof (cases "loc_upload loc = []")
  case True
  then show ?thesis using sendErrorInternal_answers [of h S 405] assms by (simp add: handlePost_def)
next
  case False
  let ?h = "h\<lparr>h_counter := h_counter h + 1\<rparr>"
  let ?req = "h_req h"
  define name where "name = (let f = fst (upload_content ?req (content (body ?req)))
    in if f = [] then upload_name w (h_counter h + 1) else f)"
  define data where "data = snd (upload_content ?req (content (body ?req)))"
  let ?f = "with_trailing_slash (loc_upload loc) @ name"
  obtain ok n where loop: "write_loop w (c_str ?f) 0 (length data) = (ok, n)" by fastforce
  let ?h2 = "fs_trace (FsWrite (c_str ?f) (take n data)) ?h"
  have h: "hstate_ok ?h" "hstate_ok ?h2" using assms(1) by (simp_all add: hstate_ok_def fs_trace_def)
  have req: "h_req ?h = ?req" "h_req ?h2 = ?req" by simp_all
  have bytes: "Buffer_data (body ?req) = Inr (content (body ?req))"
    using assms(1) by (simp add: hstate_ok_def buf_ok_data)
  have eq: "handlePost w loc cfg h =
    (if os_create w (c_str ?f) \<noteq> None then sendErrorInternal w 500 cfg ?h
     else if \<not> ok then sendErrorInternal w 500 cfg ?h2
     else rbind (writeHeaders w 201 ''text/html'' (length upload_body)
            (''Location: '' @ (with_trailing_slash (path (h_req ?h2)) @ name) @ crlf) ?h2) (\<lambda>h.
          if req_method (h_req h) \<noteq> ''HEAD'' then appendStr upload_body h else Inr h))"
  proof -
    obtain nm dt where u: "upload_content ?req (content (body ?req)) = (nm, dt)" by fastforce
    then have nd: "name = (if nm = [] then upload_name w (h_counter h + 1) else nm)" "data = dt"
      by (simp_all add: name_def data_def Let_def)
    have c: "h_counter ?h = h_counter h + 1" by simp
    show ?thesis
      unfolding handlePost_def if_not_P [OF False] Let_def req c bytes with_state_simps rbind_simps u prod.case
        nd [symmetric] loop ..
  qed
  have call: "C (FsWrite (c_str ?f) (take n data))"
  proof (rule assms(2))
    have "SLASH \<notin> set name" "name \<noteq> []"
      using upload_name_slashless [of w] upload_content_name [of ?req] by (auto simp: name_def Let_def upload_name_def)
    moreover have "data = take n data @ drop n data" by simp
    ultimately show "upload_call ?req loc (FsWrite (c_str ?f) (take n data))"
      unfolding upload_call_def data_def by blast
  qed
  have s1: "step_to h ?h C []" using assms(1)
    by (auto simp: step_to_def hstate_ok_def same_request_def intro: exI [of _ "path (h_req h)"])
  have s2: "step_to h ?h2 C []" using step_to_trans [OF s1 trace_step [where C = C, OF h(1) call]] by simp
  have "answers w ?h2 (rbind (writeHeaders w 201 ''text/html'' (length upload_body)
            (''Location: '' @ (with_trailing_slash (path (h_req ?h2)) @ name) @ crlf) ?h2) (\<lambda>h.
          if req_method (h_req h) \<noteq> ''HEAD'' then appendStr upload_body h else Inr h)) S C"
    using assms(3) by (intro head_then_page_answers h) simp
  moreover have "answers w ?h (sendErrorInternal w 500 cfg ?h) S C" "answers w ?h2 (sendErrorInternal w 500 cfg ?h2) S C"
    using assms(3) h by (simp_all add: sendErrorInternal_answers)
  ultimately show ?thesis unfolding eq using answers_from [OF s1] answers_from [OF s2] by presburger
qed

lemma post_to_answers:
  assumes "hstate_ok h" "\<And>l c. loc = Some l \<Longrightarrow> upload_call (h_req h) l c \<Longrightarrow> C c" "\<forall>c \<in> {201, 405, 500}. S c"
  shows "answers w h (post_to w loc cfg h) S C"
proof (cases "\<exists>l. loc = Some l \<and> loc_upload l \<noteq> []")
  case True
  then obtain l where "loc = Some l" "loc_upload l \<noteq> []" by blast
  moreover have "answers w h (handlePost w l cfg h) S C"
    using assms \<open>loc = Some l\<close> by (intro handlePost_answers) auto
  ultimately show ?thesis by (simp add: post_to_def)
next
  case False
  moreover have "answers w h (sendErrorInternal w 405 cfg h) S C"
    using assms by (intro sendErrorInternal_answers) simp_all
  ultimately show ?thesis by (auto simp: post_to_def split: option.splits)
qed

section \<open>The whole handler\<close>

definition index_names :: "server \<Rightarrow> string set" where
  "index_names cfg = {''index.html''} \<union> set (srv_index_Files cfg)
     \<union> (\<Union>l \<in> set (srv_locations cfg). set (loc_index_Files l))"

definition target_call :: "server \<Rightarrow> string \<Rightarrow> http_request \<Rightarrow> fs_call \<Rightarrow> bool" where
  \<comment> \<open>what \<open>handle\<close> may do to the file system when the request resolves to the file \<open>g\<close>\<close>
  "target_call cfg g req call \<longleftrightarrow>
     (case call of
        FsRead f \<Rightarrow> req_method req = ''GET''
          \<and> (f = c_str g \<or> (\<exists>idx \<in> index_names cfg. f = c_str (g @ idx) \<or> f = c_str (g @ ''/'' @ idx)))
      | FsList f \<Rightarrow> req_method req = ''GET'' \<and> (f = c_str g \<or> f = c_str (g @ ''/''))
      | FsWrite f data \<Rightarrow> req_method req = ''POST''
          \<and> (\<exists>l \<in> set (srv_locations cfg). loc_upload l \<noteq> [] \<and> upload_call req l call)
      | FsRemove f \<Rightarrow> req_method req = ''DELETE'' \<and> f = c_str g)"

lemma index_file_names: "loc = None \<or> (\<exists>l \<in> set (srv_locations cfg). loc = Some l) \<Longrightarrow> index_file loc cfg \<in> index_names cfg"
proof (cases loc)
  case None
  then show ?thesis by (auto simp: index_file_def index_names_def split: list.splits)
next
  case (Some l)
  moreover assume "loc = None \<or> (\<exists>l \<in> set (srv_locations cfg). loc = Some l)"
  ultimately have "set (loc_index_Files l) \<subseteq> index_names cfg" by (auto simp: index_names_def)
  then show ?thesis using Some
    by (cases "loc_index_Files l"; cases "srv_index_Files cfg") (auto simp: index_file_def index_names_def)
qed

lemma post_to_target:
  assumes "hstate_ok h" "req_method (h_req h) = ''POST''" "loc = None \<or> (\<exists>l \<in> set (srv_locations cfg). loc = Some l)"
  shows "answers w h (post_to w loc cfg h) (\<lambda>_. True) (target_call cfg g (h_req h))"
proof (cases "\<exists>l. loc = Some l \<and> loc_upload l \<noteq> []")
  case True
  then obtain l where l: "loc = Some l" "loc_upload l \<noteq> []" "l \<in> set (srv_locations cfg)" using assms(3) by auto
  show ?thesis
  proof (rule post_to_answers [OF assms(1)])
    fix l' c
    assume "loc = Some l'" "upload_call (h_req h) l' c"
    moreover from this obtain f data where "c = FsWrite f data" unfolding upload_call_def by blast
    ultimately show "target_call cfg g (h_req h) c"
      using l assms(2) unfolding target_call_def by (auto intro: bexI [of _ l])
  qed simp
next
  case False
  moreover have "answers w h (sendErrorInternal w 405 cfg h) (\<lambda>_. True) (target_call cfg g (h_req h))"
    using assms(1) by (intro sendErrorInternal_answers) simp_all
  ultimately show ?thesis by (auto simp: post_to_def split: option.splits)
qed

lemma target_call_same: "same_request h h' \<Longrightarrow> target_call cfg g (h_req h') = target_call cfg g (h_req h)"
  by (simp add: target_call_def upload_call_def upload_content_def extractBoundary_def same_request_sel fun_eq_iff
      split: fs_call.splits)

lemma matchLocation_known:
  "matchLocation cfg p = None \<or> (\<exists>l \<in> set (srv_locations cfg). matchLocation cfg p = Some l)"
  using matchLocation_in [of cfg p] by (cases "matchLocation cfg p") auto

lemma handle_slash_answers:
  assumes "hstate_ok h" "loc = None \<or> (\<exists>l \<in> set (srv_locations cfg). loc = Some l)"
  shows "answers w h (handle_slash w cfg loc g h) (\<lambda>_. True) (target_call cfg g (h_req h))"
proof -
  let ?C = "target_call cfg g (h_req h)" and ?A = "\<lambda>r. answers w h r (\<lambda>_. True) (target_call cfg g (h_req h))"
  have err: "?A (sendErrorInternal w code cfg h)" for code
    using assms(1) by (intro sendErrorInternal_answers) simp_all
  have post: "req_method (h_req h) = ''POST'' \<Longrightarrow> ?A (post_to w loc cfg h)"
    using assms by (intro post_to_target)
  have serve: "req_method (h_req h) = ''GET'' \<Longrightarrow> ?A (serveStaticFile w (g @ index_file loc cfg) cfg h)"
    using assms index_file_names [OF assms(2)] by (intro serveStaticFile_answers) (auto simp: target_call_def)
  have dir: "req_method (h_req h) = ''GET'' \<Longrightarrow> ?A (sendDirectoryListing w g cfg h)"
    using assms by (intro sendDirectoryListing_answers) (auto simp: target_call_def)
  show ?thesis
    unfolding handle_slash_def Let_def using err post serve dir by (auto split: if_split)
qed

lemma handle_file_answers:
  assumes "hstate_ok h" "loc = None \<or> (\<exists>l \<in> set (srv_locations cfg). loc = Some l)"
  shows "answers w h (handle_file w cfg loc g h) (\<lambda>_. True) (target_call cfg g (h_req h))"
proof -
  let ?A = "\<lambda>r. answers w h r (\<lambda>_. True) (target_call cfg g (h_req h))"
  have err: "?A (sendErrorInternal w code cfg h)" for code
    using assms(1) by (intro sendErrorInternal_answers) simp_all
  have post: "req_method (h_req h) = ''POST'' \<Longrightarrow> ?A (post_to w loc cfg h)"
    using assms by (intro post_to_target)
  have serve: "req_method (h_req h) = ''GET'' \<Longrightarrow> ?A (serveStaticFile w g cfg h)"
    using assms by (intro serveStaticFile_answers) (auto simp: target_call_def)
  have del: "req_method (h_req h) = ''DELETE'' \<Longrightarrow> ?A (handleDelete w g cfg h)"
    using assms by (intro handleDelete_answers) (auto simp: target_call_def)
  show ?thesis
    unfolding handle_file_def Let_def using err post serve del by (auto split: if_split)
qed

lemma handle_directory_answers:
  assumes "hstate_ok h"
  shows "answers w h (handle_directory w cfg g h) (\<lambda>_. True) (target_call cfg g (h_req h))"
proof -
  define p where "p = (if path (h_req h) \<noteq> [] \<and> path (h_req h) ! (length (path (h_req h)) - 1) \<noteq> SLASH
    then path (h_req h) @ ''/'' else path (h_req h))"
  define h1 where "h1 = h\<lparr>h_req := (h_req h)\<lparr>path := p\<rparr>\<rparr>"
  define loc where "loc = matchLocation cfg (path (h_req h1))"
  have loc: "loc = None \<or> (\<exists>l \<in> set (srv_locations cfg). loc = Some l)"
    unfolding loc_def by (rule matchLocation_known)
  have h1: "hstate_ok h1" "req_method (h_req h1) = req_method (h_req h)" using assms by (simp_all add: h1_def hstate_ok_def)
  have s: "step_to h h1 C []" for C using assms by (simp add: h1_def step_to_def hstate_ok_def)
  have same: "target_call cfg g (h_req h1) = target_call cfg g (h_req h)"
    unfolding h1_def by (rule target_call_same) simp
  let ?A = "\<lambda>r. answers w h1 r (\<lambda>_. True) (target_call cfg g (h_req h1))"
  have err: "?A (sendErrorInternal w code cfg h1)" for code
    using h1(1) by (intro sendErrorInternal_answers) simp_all
  have post: "req_method (h_req h1) = ''POST'' \<Longrightarrow> ?A (post_to w loc cfg h1)"
    using h1(1) loc by (intro post_to_target)
  have serve: "req_method (h_req h1) = ''GET'' \<Longrightarrow> ?A (serveStaticFile w (g @ ''/'' @ index_file loc cfg) cfg h1)"
    using h1(1) index_file_names [OF loc] by (intro serveStaticFile_answers) (auto simp: target_call_def)
  have dir: "req_method (h_req h1) = ''GET'' \<Longrightarrow> d = g \<or> d = g @ ''/'' \<Longrightarrow> ?A (sendDirectoryListing w d cfg h1)" for d
    using h1(1) by (intro sendDirectoryListing_answers) (auto simp: target_call_def)
  have eq: "handle_directory w cfg g h =
    (if req_method (h_req h1) = ''POST'' then post_to w loc cfg h1
     else if req_method (h_req h1) \<noteq> ''GET'' then sendErrorInternal w 405 cfg h1
     else if is_reg w (g @ ''/'' @ index_file loc cfg) then serveStaticFile w (g @ ''/'' @ index_file loc cfg) cfg h1
     else if has_autoindex loc then
       sendDirectoryListing w (if g \<noteq> [] \<and> g ! (length g - 1) \<noteq> SLASH then g @ ''/'' else g) cfg h1
     else sendErrorInternal w 404 cfg h1)"
    unfolding handle_directory_def Let_def loc_def h1_def p_def by (simp del: last_index)
  have "?A (handle_directory w cfg g h)"
    unfolding eq using err post serve dir by (auto split: if_split)
  then show ?thesis using answers_from [OF s] unfolding same by blast
qed

definition served_file :: "server \<Rightarrow> http_request \<Rightarrow> string" where
  \<comment> \<open>the file the normalised path of a request resolves to\<close>
  "served_file cfg req =
     (let p = normalizePath (path req) in resolveFsPath (req\<lparr>path := p\<rparr>) (matchLocation cfg p) cfg)"

lemma handle_answers:
  assumes "hstate_ok h"
  shows "answers w h (handle w cfg h) (\<lambda>_. True) (target_call cfg (served_file cfg (h_req h)) (h_req h))"
proof (cases "normalizePath (path (h_req h)) = []")
  case True
  have "answers w h (sendErrorInternal w 400 cfg h) (\<lambda>_. True) (target_call cfg (served_file cfg (h_req h)) (h_req h))"
    using assms by (intro sendErrorInternal_answers) simp_all
  with True show ?thesis by (simp add: handle_def)
next
  case False
  let ?p = "normalizePath (path (h_req h))"
  let ?h = "h\<lparr>h_req := (h_req h)\<lparr>path := ?p\<rparr>\<rparr>"
  define g where "g = resolveFsPath (h_req ?h) (matchLocation cfg ?p) cfg"
  define loc where "loc = matchLocation cfg ?p"
  have loc: "loc = None \<or> (\<exists>l \<in> set (srv_locations cfg). loc = Some l)"
    unfolding loc_def by (rule matchLocation_known)
  have g: "served_file cfg (h_req h) = g" by (simp add: served_file_def g_def Let_def)
  have h: "hstate_ok ?h" using assms by (simp add: hstate_ok_def)
  let ?A = "\<lambda>r. answers w ?h r (\<lambda>_. True) (target_call cfg g (h_req ?h))"
  have err: "?A (sendErrorInternal w code cfg ?h)" for code using h by (intro sendErrorInternal_answers) simp_all
  have redirect: "?A (sendRedirect w code url ?h)" for code url using h by (intro sendRedirect_answers) simp_all
  have "?A (handle_target w cfg loc ?h)"
  proof -
    have eq: "handle_target w cfg loc ?h =
      (if ?p \<noteq> [] \<and> ?p ! (length ?p - 1) = SLASH then handle_slash w cfg loc g ?h
       else if stat_fails w g then sendErrorInternal w 404 cfg ?h
       else if is_dir w g then handle_directory w cfg g ?h
       else handle_file w cfg loc g ?h)"
      by (simp add: handle_target_def g_def loc_def Let_def del: last_index)
    show ?thesis unfolding eq
      using err handle_slash_answers [OF h loc] handle_directory_answers [OF h] handle_file_answers [OF h loc] by presburger
  qed
  moreover have "handle w cfg h = (if method_refused (req_method (h_req ?h)) loc then sendErrorInternal w 405 cfg ?h
     else case loc of
       Some l \<Rightarrow> if loc_redirect_enabled l then sendRedirect w (loc_return_code l) (loc_return_value l) ?h
                  else handle_target w cfg loc ?h
     | None \<Rightarrow> handle_target w cfg loc ?h)"
  proof -
    have p: "path (h_req ?h) = ?p" by simp
    show ?thesis unfolding handle_def Let_def if_not_P [OF False] p loc_def ..
  qed
  ultimately have "?A (handle w cfg h)"
    using err redirect by (auto split: option.split if_split)
  moreover have "step_to h ?h C []" for C using assms by (simp add: step_to_def hstate_ok_def)
  moreover have "target_call cfg g (h_req ?h) = target_call cfg g (h_req h)" by (rule target_call_same) simp
  ultimately show ?thesis using answers_from unfolding g by metis
qed

definition confined_call :: "server \<Rightarrow> string \<Rightarrow> http_request \<Rightarrow> fs_call \<Rightarrow> bool" where
  \<comment> \<open>specification: the calls a request that resolves to \<open>g\<close> may make\<close>
  "confined_call cfg g req call \<longleftrightarrow>
     (case call of
        FsRead f \<Rightarrow> req_method req = ''GET''
          \<and> (f = g \<or> (\<exists>idx \<in> index_names cfg. f = g @ c_str idx \<or> f = g @ ''/'' @ c_str idx))
      | FsList f \<Rightarrow> req_method req = ''GET'' \<and> (f = g \<or> f = g @ ''/'')
      | FsWrite f data \<Rightarrow> req_method req = ''POST''
          \<and> (\<exists>l \<in> set (srv_locations cfg). loc_upload l \<noteq> [] \<and> upload_call req l call)
      | FsRemove f \<Rightarrow> req_method req = ''DELETE'' \<and> f = g)"

lemma c_str_append: "NUL \<notin> set a \<Longrightarrow> c_str (a @ b) = a @ c_str b"
  by (induction a) (auto simp: c_str_def)

lemma target_confined:
  assumes "NUL \<notin> set g" "target_call cfg g req call"
  shows "confined_call cfg g req call"
proof -
  have "c_str g = g" "c_str (g @ ''/'' @ x) = g @ ''/'' @ c_str x" "c_str (g @ x) = g @ c_str x" for x
    using c_str_append [OF assms(1)] c_str_id [OF assms(1)] c_str_append [of "''/''" x] by simp_all
  moreover have "c_str (g @ ''/'') = g @ ''/''" using c_str_append [OF assms(1), of "''/''"] by (simp add: c_str_def)
  ultimately show ?thesis using assms(2) by (cases call) (simp_all add: target_call_def confined_call_def)
qed

definition final_state :: "handled \<Rightarrow> hstate" where
  "final_state r = (case r of Inr h \<Rightarrow> h | Inl (_, h) \<Rightarrow> h)"

lemma answers_calls:
  assumes "answers w h r S C" "h_calls h = []"
  shows "\<forall>c \<in> set (h_calls (final_state r)). C c"
  using assms by (cases r) (auto simp: answers_def emits_def step_to_def final_state_def)

lemma answers_keep_calls:
  "answers w h r S C \<Longrightarrow> set (h_calls h) \<subseteq> set (h_calls (final_state r))"
  by (cases r) (auto simp: answers_def emits_def step_to_def final_state_def)

definition sample_hstate :: "string \<Rightarrow> string \<Rightarrow> hstate" where
  \<comment> \<open>for concrete instances: a request with a method and a path, an empty write buffer\<close>
  "sample_hstate m p =
     \<lparr>h_req = (HttpRequest_new 1000)\<lparr>req_method := m, path := p, version := ''HTTP/1.1''\<rparr>,
      h_wb = Buffer_new 100000, h_counter = 0, h_calls = []\<rparr>"

lemma sample_hstate_simps [simp]:
  "hstate_ok (sample_hstate m p)" "h_req (sample_hstate m p) =
     (HttpRequest_new 1000)\<lparr>req_method := m, path := p, version := ''HTTP/1.1''\<rparr>"
  "content (h_wb (sample_hstate m p)) = []" "h_calls (sample_hstate m p) = []"
  by (simp_all add: sample_hstate_def hstate_ok_def HttpRequest_new_def)

definition listing_server :: server where
  \<comment> \<open>for a concrete instance: \<open>location /up { root /data/up; autoindex on; }\<close>\<close>
  "listing_server = Server_new\<lparr>srv_root := ''/srv'',
     srv_locations := [Location_new\<lparr>loc_path := ''/up'', loc_root := ''/data/up'', loc_autoindex := True\<rparr>]\<rparr>"

section \<open>Properties\<close>





text \<open>
  C17: a NUL byte breaks the confinement.  \<open>normalizePath\<close> keeps a segment \<open>..\<close> that is
  followed by an encoded NUL, and the system calls read the file name up to the NUL, so a
  request for \<open>/up/..%00\<close> lists the parent of the directory the location serves.
\<close>

theorem nul_byte_escapes_root:
  assumes "os_stat w ''/data/up/..'' = Inr st" "st_kind st = DIR"
  shows "FsList ''/data/up/..'' \<in> set (h_calls (final_state
    (handle w listing_server (sample_hstate ''GET'' (pctDecode ''/up/..%00'')))))"
proof -
  let ?l = "Location_new\<lparr>loc_path := ''/up'', loc_root := ''/data/up'', loc_autoindex := True\<rparr>"
  let ?p = "''/up/..'' @ [NUL]" and ?g = "''/data/up/..'' @ [NUL]"
  let ?h = "sample_hstate ''GET'' ?p" and ?h1 = "(sample_hstate ''GET'' (?p @ ''/''))"
  have "chr 48 = CHR ''0''" "ord NUL = 0" using chr_ord [of "CHR ''0''"] by (simp_all add: ord_def)
  then have "pct_encode NUL = ''%00''" by (simp add: pct_encode_def hex_digit_def)
  then have "pctDecode ''%00'' = [NUL]" using pctDecode_encode_Cons [of NUL "[]"] by simp
  then have dec: "pctDecode ''/up/..%00'' = ?p"
    by (simp add: pctDecode_simps is_xdigit_def in_range_def ord_def)
  have n: "normalizePath ?p = ?p" by (simp add: normalizePath_def end_segment_def)
  have m: "matchLocation listing_server ?p = Some ?l" "matchLocation listing_server (?p @ ''/'') = Some ?l"
    by (simp_all add: matchLocation_def listing_server_def loc_matches_def strip_slash_def starts_with_def)
  have c: "c_str ?g = ''/data/up/..''" "c_str (?g @ u) = ''/data/up/..''" for u by (simp_all add: c_str_def)
  have g: "resolveFsPath (h_req ?h) (Some ?l) listing_server = ?g"
    by (simp add: resolveFsPath_def rstrip_slashes_def starts_with_def Let_def)
  have dir: "is_dir w ?g" "\<not> stat_fails w ?g" "\<not> is_reg w (?g @ u)" for u
    using assms unfolding is_dir_def stat_fails_def is_reg_def c by simp_all
  have "method_refused ''GET'' (Some ?l) = False" by (simp add: method_refused_def Location_new_def)
  then have "handle w listing_server ?h = handle_target w listing_server (Some ?l) ?h"
    unfolding handle_def Let_def using n m by (simp add: sample_hstate_def Location_new_def HttpRequest_new_def)
  also have "\<dots> = handle_directory w listing_server ?g ?h"
    unfolding handle_target_def Let_def g using dir by (simp add: sample_hstate_def)
  finally have "handle w listing_server ?h = handle_directory w listing_server ?g ?h" .
  moreover have "handle_directory w listing_server ?g ?h = sendDirectoryListing w (?g @ ''/'') listing_server ?h1"
  proof -
    have h: "?h\<lparr>h_req := (h_req ?h)\<lparr>path := ?p @ ''/''\<rparr>\<rparr> = ?h1" "path (h_req ?h) = ?p" "req_method (h_req ?h1) = ''GET''"
      "path (h_req ?h1) = ?p @ ''/''"
      by (simp_all add: sample_hstate_def HttpRequest_new_def)
    have "\<not> is_reg w (?g @ ''/'' @ index_file (Some ?l) listing_server)" by (rule dir(3))
    then show ?thesis
      unfolding handle_directory_def Let_def h(2) using h m by (simp add: has_autoindex_def)
  qed
  moreover have "FsList ''/data/up/..'' \<in> set (h_calls (final_state (sendDirectoryListing w (?g @ ''/'') listing_server ?h1)))"
    using answers_keep_calls [OF sendDirectoryListing_traced [of ?h1 "\<lambda>_. True" w "?g @ ''/''" listing_server "\<lambda>_. True"]]
    unfolding c by (auto simp: fs_trace_def)
  ultimately show ?thesis unfolding dec by simp
qed

theorem nul_byte_escapes_root_witness:
  "FsList ''/data/up/..'' \<in> set (h_calls (final_state
    (handle (sample_os\<lparr>os_stat := (\<lambda>_. Inr \<lparr>st_kind = DIR, st_size = 4096, st_ino = 0, st_dev = 0\<rparr>)\<rparr>) listing_server
      (sample_hstate ''GET'' (pctDecode ''/up/..%00'')))))"
  by (rule nul_byte_escapes_root [of _ "\<lparr>st_kind = DIR, st_size = 4096, st_ino = 0, st_dev = 0\<rparr>"]) simp_all

end
