(* ===== verification/Uploads.thy ===== *)
theory Uploads
  imports Responses
begin

text \<open>
  Ends of the response handler: what the client receives for a static file, what it
  receives when the method is not allowed, and what is on disk after an upload.
\<close>

section \<open>Enough room\<close>

lemma appendStr_total:
  assumes "hstate_ok h" "cmbs (h_wb h) < 2 ^ 61" "length (content (h_wb h)) + length s \<le> cmbs (h_wb h)"
  obtains h' where "appendStr s h = Inr h'" "step_to h h' (\<lambda>_. False) s"
proof -
  obtain b where "Buffer_append (h_wb h) s = Inr b"
    using append_total [of "h_wb h" s] assms by (auto simp: hstate_ok_def)
  then obtain h' where "appendStr s h = Inr h'" by (simp add: appendStr_def)
  then show thesis using that appendStr_emits [OF assms(1), of s "\<lambda>_. False"] by (auto simp: emits_def)
qed

lemma appendBlocks_total:
  assumes "hstate_ok h" "cmbs (h_wb h) < 2 ^ 61" "length (content (h_wb h)) + length (concat bs) \<le> cmbs (h_wb h)"
  obtains h' where "appendBlocks bs h = Inr h'" "step_to h h' (\<lambda>_. False) (concat bs)"
  using assms
proof (induction bs arbitrary: h thesis)
  case Nil
  then show ?case using step_to_refl by simp
next
  case (Cons b bs)
  obtain h1 where h1: "appendStr b h = Inr h1" "step_to h h1 (\<lambda>_. False) b"
    by (rule appendStr_total [OF Cons.prems(2,3), of b]) (use Cons.prems(4) in auto)
  obtain h2 where h2: "appendBlocks bs h1 = Inr h2" "step_to h1 h2 (\<lambda>_. False) (concat bs)"
    by (rule Cons.IH [of h1]) (use h1(2) Cons.prems in \<open>auto simp: step_to_def\<close>)
  have "step_to h h2 (\<lambda>_. False) (concat (b # bs))" using step_to_trans [OF h1(2) h2(2)] by simp
  with Cons.prems(1) h1(1) h2(1) show ?case by simp
qed

lemma step_to_calls: "step_to h h' (\<lambda>_. False) m \<Longrightarrow> h_calls h' = h_calls h"
  by (auto simp: step_to_def)

section \<open>Reaching the target\<close>

definition serving :: "server \<Rightarrow> http_request \<Rightarrow> location option \<Rightarrow> bool" where
  \<comment> \<open>the request passes the checks of \<open>handle\<close> before the file system is looked at\<close>
  "serving cfg req loc \<longleftrightarrow>
     normalizePath (path req) \<noteq> [] \<and> matchLocation cfg (normalizePath (path req)) = loc
     \<and> \<not> method_refused (req_method req) loc
     \<and> (case loc of Some l \<Rightarrow> \<not> loc_redirect_enabled l | None \<Rightarrow> True)"

definition normalized :: "hstate \<Rightarrow> hstate" where
  "normalized h = h\<lparr>h_req := (h_req h)\<lparr>path := normalizePath (path (h_req h))\<rparr>\<rparr>"

lemma normalized_sel [simp]:
  "h_wb (normalized h) = h_wb h" "h_calls (normalized h) = h_calls h" "req_method (h_req (normalized h)) = req_method (h_req h)"
  "path (h_req (normalized h)) = normalizePath (path (h_req h))" "hstate_ok (normalized h) = hstate_ok h"
  "connectionHeader (h_req (normalized h)) = connectionHeader (h_req h)" "body (h_req (normalized h)) = body (h_req h)"
  by (simp_all add: normalized_def hstate_ok_def connectionHeader_def keepAlive_def header_def)

lemma handle_serving:
  assumes "serving cfg (h_req h) loc"
  shows "handle w cfg h = handle_target w cfg loc (normalized h)"
proof -
  have p: "normalizePath (path (h_req h)) \<noteq> []" "\<not> method_refused (req_method (h_req (normalized h))) loc"
    and m: "matchLocation cfg (path (h_req (normalized h))) = loc"
    using assms by (simp_all add: serving_def)
  have "handle w cfg h = (case loc of
      Some l \<Rightarrow> if loc_redirect_enabled l then sendRedirect w (loc_return_code l) (loc_return_value l) (normalized h)
                 else handle_target w cfg loc (normalized h)
    | None \<Rightarrow> handle_target w cfg loc (normalized h))"
    unfolding handle_def Let_def if_not_P [OF p(1)] normalized_def [symmetric] m if_not_P [OF p(2)] ..
  then show ?thesis using assms by (auto simp: serving_def split: option.splits)
qed

lemma served_file_normalized:
  "matchLocation cfg (normalizePath (path (h_req h))) = loc
    \<Longrightarrow> resolveFsPath (h_req (normalized h)) loc cfg = served_file cfg (h_req h)"
  by (auto simp: served_file_def Let_def normalized_def)

section \<open>The write loop\<close>

lemma write_loop_complete:
  assumes "\<And>at n. 0 < n \<Longrightarrow> 0 < os_write w f at n \<and> os_write w f at n \<le> int n" "done_n \<le> len"
  shows "write_loop w f done_n len = (True, len)"
  using assms
proof (induction w f done_n len rule: write_loop.induct)
  case (1 w f done_n len)
  show ?case
  proof (cases "done_n < len")
    case True
    let ?n = "os_write w f done_n (len - done_n)"
    have n: "0 < ?n" "?n \<le> int (len - done_n)" using "1.prems"(1) [of "len - done_n" done_n] True by simp_all
    then have "done_n + nat ?n \<le> len" using True by linarith
    with "1.IH" [OF True refl] n(1) "1.prems"(1) have "write_loop w f (done_n + nat ?n) len = (True, len)" by simp
    with True n(1) show ?thesis by (simp add: write_loop.simps [of w f done_n] Let_def)
  next
    case False
    with "1.prems"(2) show ?thesis by (subst write_loop.simps) simp
  qed
qed

lemma extractBoundary_plain:
  assumes "header req ''content-type'' = ''multipart/form-data; boundary='' @ b"
    and "b \<noteq> []" "length b < 2 ^ 63" "set b \<inter> {CHR '' '', TAB, CR, CHR '';'', DQUOTE} = {}"
  shows "extractBoundary req = Some b"
proof -
  let ?ct = "''multipart/form-data; boundary='' @ b"
  have 1: "str_find ''multipart/form-data'' 0 ?ct = Some 0"
    by (simp add: str_find_def find_sub_Cons)
  have "find_sub ''boundary='' (''multipart/form-data; '' @ ''boundary='' @ b) = Some 21"
    using find_sub_skip [of "''boundary=''" "CHR ''b''" "''oundary=''" "''multipart/form-data; ''" "''boundary='' @ b"]
      find_sub_here [of "''boundary=''" b] by simp
  then have 2: "str_find ''boundary='' 0 ?ct = Some 21" by (simp add: str_find_def)
  have none: "find_idx P b = None" if "\<forall>x \<in> set b. \<not> P x" for P
    using that find_idx_None_iff by blast
  have 3: "str_find_char (CHR '';'') 0 b = None"
    using none [of "(=) (CHR '';'')"] assms(4) by (auto simp: str_find_char_def)
  have first: "find_idx (\<lambda>c. c \<noteq> CHR '' '' \<and> c \<noteq> TAB) b = Some 0"
    using assms(2,4) by (cases b) auto
  have "find_idx (\<lambda>c. c \<noteq> CHR '' '' \<and> c \<noteq> TAB \<and> c \<noteq> CR) (rev b) = Some 0"
    using assms(2,4) by (cases b rule: rev_cases) auto
  then have last: "str_rfind (\<lambda>c. c \<noteq> CHR '' '' \<and> c \<noteq> TAB \<and> c \<noteq> CR) b = Some (length b - 1)"
    by (simp add: str_rfind_def)
  have 4: "trimToken b = b"
    using assms(2,3) by (simp add: trimToken_def first last substr_def Let_def)
  have 5: "b ! 0 \<noteq> DQUOTE" using assms(2,4) by (cases b) auto
  show ?thesis
    unfolding extractBoundary_def assms(1) Let_def 1 2 using 3 4 5 assms(2) by simp
qed

section \<open>Properties\<close>



text \<open>
  C19: a static file is served whole.  A GET for a regular file of at most
  \<open>ALLOWEDSIZE\<close> bytes, with room for the response, appends a 200 header block with the
  file's MIME type and size and then exactly the bytes of the file, in however many
  blocks \<open>read\<close> returns them, and touches only that file.
\<close>

theorem static_file_served:
  assumes "hstate_ok h" "req_method (h_req h) = ''GET''" "serving cfg (h_req h) loc"
    and "last (normalizePath (path (h_req h))) \<noteq> SLASH"
    and "f = served_file cfg (h_req h)" "os_stat w (c_str f) = Inr st" "st_kind st = REG"
    and "os_read w (c_str f) = Inr blocks" "st_size st = length (concat blocks)" "st_size st \<le> ALLOWEDSIZE"
    and "hd_text = head_text ''1.1'' w 200 (getMimeType f) (st_size st) [] (connectionHeader (h_req h))"
    and "length (content (h_wb h)) + length hd_text + st_size st \<le> cmbs (h_wb h)" "cmbs (h_wb h) < 2 ^ 61"
  shows "\<exists>h'. handle w cfg h = Inr h' \<and> content (h_wb h') = content (h_wb h) @ hd_text @ concat blocks
    \<and> h_calls h' = h_calls h @ [FsRead (c_str f)]"
proof -
  let ?p = "normalizePath (path (h_req h))" and ?h = "normalized h"
  let ?h1 = "fs_trace (FsRead (c_str f)) ?h"
  have p: "?p \<noteq> []" "matchLocation cfg ?p = loc" using assms(3) by (simp_all add: serving_def)
  have last: "\<not> (path (h_req ?h) \<noteq> [] \<and> path (h_req ?h) ! (length (path (h_req ?h)) - 1) = SLASH)"
    using p(1) assms(4) by simp
  have g: "resolveFsPath (h_req ?h) loc cfg = f" using served_file_normalized [OF p(2)] assms(5) by simp
  have reg: "\<not> stat_fails w f" "\<not> is_dir w f" using assms(6,7) by (simp_all add: stat_fails_def is_dir_def)
  have get: "req_method (h_req ?h) = ''GET''" using assms(2) by simp
  have eq: "handle w cfg h = serveStaticFile w f cfg ?h"
    unfolding handle_serving [OF assms(3)] handle_target_def Let_def if_not_P [OF last] g
      if_not_P [OF reg(1)] if_not_P [OF reg(2)] handle_file_def if_P [OF get] ..
  have ok: "hstate_ok ?h1" "content (h_wb ?h1) = content (h_wb h)" "cmbs (h_wb ?h1) = cmbs (h_wb h)"
    "h_calls ?h1 = h_calls h @ [FsRead (c_str f)]"
    using assms(1) by (simp_all add: fs_trace_def hstate_ok_def normalized_def)
  obtain h2 where h2: "appendStr hd_text ?h1 = Inr h2" "step_to ?h1 h2 (\<lambda>_. False) hd_text"
    by (rule appendStr_total [OF ok(1), of hd_text]) (use assms(12,13) ok(2,3) in auto)
  then have h2': "hstate_ok h2" "content (h_wb h2) = content (h_wb h) @ hd_text" "cmbs (h_wb h2) = cmbs (h_wb h)"
    "req_method (h_req h2) = ''GET''"
    using ok(2,3) get same_request_sel [of ?h1 h2] by (simp_all add: step_to_def)
  obtain h3 where h3: "appendBlocks blocks h2 = Inr h3" "step_to h2 h3 (\<lambda>_. False) (concat blocks)"
    by (rule appendBlocks_total [OF h2'(1), of blocks]) (use assms(9,12,13) h2' in auto)
  have "serveStaticFile w f cfg ?h = Inr h3"
    using assms(6,8,10,11) h2(1) h2'(4) h3(1)
    by (simp add: serveStaticFile_def Let_def writeHeaders_def)
  moreover have "content (h_wb h3) = content (h_wb h) @ hd_text @ concat blocks"
    using h3(2) h2' by (simp add: step_to_def)
  moreover have "h_calls h3 = h_calls h @ [FsRead (c_str f)]"
    using step_to_calls [OF h3(2)] step_to_calls [OF h2(2)] ok(4) by simp
  ultimately show ?thesis unfolding eq by blast
qed

definition sample_file_os :: os where
  \<comment> \<open>for concrete instances: every path is a file with five bytes, read in two blocks\<close>
  "sample_file_os = sample_os\<lparr>os_stat := (\<lambda>_. Inr \<lparr>st_kind = REG, st_size = 5, st_ino = 0, st_dev = 0\<rparr>), os_read := (\<lambda>_. Inr [''hel'', ''lo''])\<rparr>"

theorem static_file_served_witness:
  "\<exists>h' t. handle sample_file_os (Server_new\<lparr>srv_root := ''/srv/''\<rparr>) (sample_hstate ''GET'' ''/x/../a.txt'') = Inr h'
    \<and> content (h_wb h') = t @ ''hello'' \<and> h_calls h' = [FsRead ''/srv/a.txt'']"
proof -
  let ?cfg = "Server_new\<lparr>srv_root := ''/srv/''\<rparr>" and ?h = "sample_hstate ''GET'' ''/x/../a.txt''"
  have n: "normalizePath ''/x/../a.txt'' = ''/a.txt''" by (simp add: normalizePath_def end_segment_def)
  have m: "matchLocation ?cfg p = None" for p by (simp add: matchLocation_def Server_new_def)
  have f: "served_file ?cfg (h_req ?h) = ''/srv/a.txt''"
    by (simp add: served_file_def n m resolveFsPath_def rstrip_slashes_def Let_def)
  have c: "c_str ''/srv/a.txt'' = ''/srv/a.txt''" by (simp add: c_str_def)
  have serving: "serving ?cfg (h_req ?h) None" by (simp add: serving_def n m method_refused_def)
  let ?hd = "head_text ''1.1'' sample_file_os 200 (getMimeType ''/srv/a.txt'') 5 [] (connectionHeader (h_req ?h))"
  have "dec_string 5 = ''5''" "dec_string 200 = ''200''"
    using chr_ord [of "CHR ''5''"] chr_ord [of "CHR ''2''"] chr_ord [of "CHR ''0''"]
    by (simp_all add: dec_string.simps ord_def)
  then have len: "length ?hd \<le> 1000"
    by (simp add: int_string_def head_text_def reasonPhrase_def reason_table_def sample_file_os_def sample_os_def crlf_def getMimeType_def
        str_rfind_def mime_table_def connectionHeader_def to_lower_def in_range_def ord_def)
  have wb: "cmbs (h_wb ?h) = 100000" by (simp add: sample_hstate_def)
  have os: "os_stat sample_file_os q = Inr \<lparr>st_kind = REG, st_size = 5, st_ino = 0, st_dev = 0\<rparr>" "os_read sample_file_os q = Inr [''hel'', ''lo'']" for q
    by (simp_all add: sample_file_os_def)
  have "\<exists>h'. handle sample_file_os ?cfg ?h = Inr h' \<and> content (h_wb h') = content (h_wb ?h) @ ?hd @ concat [''hel'', ''lo'']
    \<and> h_calls h' = h_calls ?h @ [FsRead (c_str ''/srv/a.txt'')]"
    by (rule static_file_served [OF _ _ serving _ f [symmetric] os(1) _ os(2)]) (use len wb in \<open>simp_all add: n ALLOWEDSIZE_def\<close>)
  then show ?thesis unfolding c by (auto intro: exI [of _ ?hd])
qed

text \<open>
  C18: an upload is stored byte for byte under its sanitised name.  A form with one file,
  posted to a directory of a location with an upload store, makes the single call that
  writes exactly the bytes of the file to \<open><store>/<name>\<close>, whatever short writes the
  system makes.
\<close>

theorem upload_stored:
  assumes "hstate_ok h" "req_method (h_req h) = ''POST''" "serving cfg (h_req h) (Some l)"
    and "last (normalizePath (path (h_req h))) = SLASH" "is_dir w (served_file cfg (h_req h))" "loc_upload l \<noteq> []"
    and "header (h_req h) ''content-type'' = ''multipart/form-data; boundary='' @ b"
    and "b \<noteq> []" "length b < 2 ^ 63" "set b \<inter> {CHR '' '', TAB, CR, CHR '';'', DQUOTE} = {}"
    and "content (body (h_req h)) = multipart_form b fname ctype data @ rest"
    and "DQUOTE \<notin> set fname" "CR \<notin> set fname" "CR \<notin> set ctype" "sanitizeFilename fname \<noteq> []"
    and "find_sub (''--'' @ b) (data @ crlf @ ''--'' @ b) = Some (length data + 2)"
    and "f = with_trailing_slash (loc_upload l) @ sanitizeFilename fname"
    and "os_create w (c_str f) = None"
    and "\<And>at n. 0 < n \<Longrightarrow> 0 < os_write w (c_str f) at n \<and> os_write w (c_str f) at n \<le> int n"
  shows "h_calls (final_state (handle w cfg h)) = h_calls h @ [FsWrite (c_str f) data]"
proof -
  let ?h = "normalized h"
  let ?hc = "?h\<lparr>h_counter := h_counter ?h + 1\<rparr>"
  let ?h1 = "fs_trace (FsWrite (c_str f) data) ?hc"
  have p: "path (h_req ?h) \<noteq> [] \<and> path (h_req ?h) ! (length (path (h_req ?h)) - 1) = SLASH"
    using assms(3,4) by (simp add: serving_def)
  have g: "resolveFsPath (h_req ?h) (Some l) cfg = served_file cfg (h_req h)"
    using assms(3) by (intro served_file_normalized) (simp add: serving_def)
  have d: "\<not> \<not> is_dir w (served_file cfg (h_req h))" using assms(5) by simp
  have post: "req_method (h_req ?h) = ''POST''" using assms(2) by simp
  have eq: "handle w cfg h = handlePost w l cfg ?h"
    unfolding handle_serving [OF assms(3)] handle_target_def Let_def if_P [OF p] g handle_slash_def if_not_P [OF d]
      if_P [OF post] post_to_def using assms(6) by simp
  have ct: "header (h_req ?h) ''content-type'' = ''multipart/form-data; boundary='' @ b"
    using assms(7) by (simp add: normalized_def header_def)
  obtain mf where mf: "parseMultipartFirstFile (multipart_form b fname ctype data @ rest) b = Some mf"
    "mf_filename mf = fname" "mf_data mf = data"
    using multipart_read [OF assms(8,12,13,14,16)] by blast
  have u: "upload_content (h_req ?h) (content (body (h_req h))) = (sanitizeFilename fname, data)"
    using mf by (simp add: upload_content_def extractBoundary_plain [OF ct assms(8,9,10)] assms(11))
  have loop: "write_loop w (c_str f) 0 (length data) = (True, length data)"
    using assms(19) by (intro write_loop_complete) simp_all
  have bytes: "Buffer_data (body (h_req ?h)) = Inr (content (body (h_req h)))"
    using assms(1) by (simp add: hstate_ok_def buf_ok_data)
  have r: "handlePost w l cfg ?h = rbind (writeHeaders w 201 ''text/html'' (length upload_body)
      (''Location: '' @ (with_trailing_slash (path (h_req ?h1)) @ sanitizeFilename fname) @ crlf) ?h1) (\<lambda>h.
      if req_method (h_req h) \<noteq> ''HEAD'' then appendStr upload_body h else Inr h)"
    using assms(6,15,17,18) bytes u loop by (simp add: handlePost_def Let_def)
  have "hstate_ok ?h1" using assms(1) by (simp add: hstate_ok_def fs_trace_def normalized_def)
  then have "answers w ?h1 (handlePost w l cfg ?h) (\<lambda>_. True) (\<lambda>_. False)"
    unfolding r by (intro head_then_page_answers) simp_all
  then have "h_calls (final_state (handlePost w l cfg ?h)) = h_calls ?h1"
    by (cases "handlePost w l cfg ?h") (auto simp: answers_def emits_def final_state_def step_to_calls)
  then show ?thesis unfolding eq by (simp add: fs_trace_def)
qed

definition upload_server :: server where
  \<comment> \<open>for a concrete instance: \<open>location /up { root /data/up; upload_store /store; }\<close>\<close>
  "upload_server = Server_new\<lparr>srv_root := ''/srv'',
     srv_locations := [Location_new\<lparr>loc_path := ''/up'', loc_root := ''/data/up'', loc_upload := ''/store''\<rparr>]\<rparr>"

definition sample_upload :: hstate where
  "sample_upload =
     (let h = sample_hstate ''POST'' ''/up/'' in
      h\<lparr>h_req := (h_req h)\<lparr>headers := [(''content-type'', ''multipart/form-data; boundary=XX'')],
        body := (Buffer_new 1000)\<lparr>storage := multipart_form ''XX'' ''a/b.txt'' ''text/plain'' ''hello'' @ ''--''\<rparr>\<rparr>\<rparr>)"

theorem upload_stored_witness:
  "h_calls (final_state (handle (sample_os\<lparr>os_stat := (\<lambda>_. Inr \<lparr>st_kind = DIR, st_size = 0, st_ino = 0, st_dev = 0\<rparr>)\<rparr>) upload_server sample_upload))
    = [FsWrite ''/store/b.txt'' ''hello'']"
proof -
  let ?l = "Location_new\<lparr>loc_path := ''/up'', loc_root := ''/data/up'', loc_upload := ''/store''\<rparr>"
  let ?w = "sample_os\<lparr>os_stat := (\<lambda>_. Inr \<lparr>st_kind = DIR, st_size = 0, st_ino = 0, st_dev = 0\<rparr>)\<rparr>"
  have n: "normalizePath ''/up/'' = ''/up/''" by (simp add: normalizePath_def end_segment_def)
  have m: "matchLocation upload_server ''/up/'' = Some ?l"
    by (simp add: matchLocation_def upload_server_def loc_matches_def strip_slash_def starts_with_def)
  have req: "path (h_req sample_upload) = ''/up/''" "req_method (h_req sample_upload) = ''POST''"
    "header (h_req sample_upload) ''content-type'' = ''multipart/form-data; boundary='' @ ''XX''"
    by (simp_all add: sample_upload_def header_def omap_get_def)
  have form: "multipart_form ''XX'' ''a/b.txt'' ''text/plain'' ''hello''
      = ''--XX'' @ crlf @ form_disposition ''a/b.txt'' @ crlf @ ''Content-Type: text/plain'' @ crlf @ crlf @ ''hello'' @ crlf @ ''--XX''"
    by (simp add: multipart_form_def)
  have "length (multipart_form ''XX'' ''a/b.txt'' ''text/plain'' ''hello'' @ ''--'') \<le> max_size"
    unfolding form by (simp add: form_disposition_def filename_param_def crlf_def max_size_def)
  then have body: "buf_ok (body (h_req sample_upload))"
    "content (body (h_req sample_upload)) = multipart_form ''XX'' ''a/b.txt'' ''text/plain'' ''hello'' @ ''--''"
    by (simp_all add: sample_upload_def Buffer_new_def initial_capacity_def buf_ok_def content_def)
  have ok: "hstate_ok sample_upload" using body(1) by (simp add: hstate_ok_def sample_upload_def sample_hstate_def)
  have serving: "serving upload_server (h_req sample_upload) (Some ?l)"
    unfolding serving_def req n m by (simp add: method_refused_def Location_new_def)
  have name: "sanitizeFilename ''a/b.txt'' = ''b.txt''"
    by (simp add: sanitizeFilename_def str_rfind_def)
  have f: "''/store/b.txt'' = with_trailing_slash (loc_upload ?l) @ sanitizeFilename ''a/b.txt''"
    unfolding name by (simp add: with_trailing_slash_def)
  have c: "c_str ''/store/b.txt'' = ''/store/b.txt''" by (simp add: c_str_def)
  have dir: "is_dir ?w g" for g by (simp add: is_dir_def)
  have delim: "find_sub (''--'' @ ''XX'') (''hello'' @ crlf @ ''--'' @ ''XX'') = Some (length ''hello'' + 2)"
    by (simp add: find_sub_Cons crlf_def)
  have "h_calls (final_state (handle ?w upload_server sample_upload))
    = h_calls sample_upload @ [FsWrite (c_str ''/store/b.txt'') ''hello'']"
    by (rule upload_stored [OF ok req(2) serving _ dir _ req(3) _ _ _ body(2) _ _ _ _ delim f])
      (simp_all add: req n name sample_os_def)
  then show ?thesis unfolding c by (simp add: sample_upload_def sample_hstate_def)
qed

end
