(* ===== verification/Cgi_Output.thy ===== *)
theory Cgi_Output
  imports Response_Text Http_Parser
begin

text \<open>
  From the output of a script to the bytes a client receives: the helpers of
  \<open>src/EventLoop/EventLoop_helper_cgi.cpp\<close> (\<open>findHeaderEnd\<close>, \<open>flushCgiHeaders\<close>,
  \<open>writeChunk\<close>), the \<open>CgiJob\<close> of \<open>Headers/CgiJob.hpp\<close>, and the part of
  \<open>_handleCgiEvent\<close> that moves one block of output.  A job is relayed in three stages:
  blocks are collected until the header section of the script is complete, the response
  header is built from it, and everything after it is sent in chunks.  The property that
  joins this with the request side: what the chunks carry is decoded by the server's own
  chunked decoder to exactly the body the script wrote, in whatever blocks it came.
\<close>

section \<open>Helpers\<close>

definition CGI_HEADER_BUF_LIMIT :: nat where "CGI_HEADER_BUF_LIMIT = 65536"
definition CGI_STREAM_HWM :: nat where "CGI_STREAM_HWM = 262144"
definition CGI_STREAM_LWM :: nat where "CGI_STREAM_LWM = 65536"
definition FHLS :: nat where "FHLS = 8192"
definition LimitInternalRecursion :: int where "LimitInternalRecursion = 8000"

fun find_blank_crlf :: "string \<Rightarrow> nat option" where
  \<comment> \<open>the first loop of \<open>findHeaderEnd\<close>\<close>
  "find_blank_crlf (a # b # c # d # s) =
     (if a = CR \<and> b = LF \<and> c = CR \<and> d = LF then Some 0
      else map_option Suc (find_blank_crlf (b # c # d # s)))"
| "find_blank_crlf _ = None"

fun find_blank_lf :: "string \<Rightarrow> nat option" where
  \<comment> \<open>the second loop of \<open>findHeaderEnd\<close>\<close>
  "find_blank_lf (a # b # s) =
     (if a = LF \<and> b = LF then Some 0 else map_option Suc (find_blank_lf (b # s)))"
| "find_blank_lf _ = None"

definition findHeaderEnd :: "string \<Rightarrow> nat option" where
  "findHeaderEnd d =
     (if length d < 2 then None
      else case find_blank_crlf d of
        Some i \<Rightarrow> Some (i + 4)
      | None \<Rightarrow> (case find_blank_lf d of Some i \<Rightarrow> Some (i + 2) | None \<Rightarrow> None))"

definition INT_MAX :: int where "INT_MAX = 2147483647"

definition read_int :: "int \<Rightarrow> string \<Rightarrow> int" where
  \<comment> \<open>\<open>std::istringstream(val) >> n\<close>: unchanged on end of text, 0 without digits, clamped\<close>
  "read_int n val =
     (let s = dropWhile is_space val in
      if s = [] then n
      else
        let neg = (hd s = CHR ''-'');
            ds = takeWhile is_digit (if hd s = CHR ''-'' \<or> hd s = CHR ''+'' then tl s else s)
        in if ds = [] then 0
           else let v = (if neg then - int (dec_val ds) else int (dec_val ds)) in
             if v > INT_MAX then INT_MAX else if v < - INT_MAX - 1 then - INT_MAX - 1 else v)"

record cgi_head =
  ch_status :: int
  ch_type :: string
  ch_extra :: string

definition cgi_header_line :: "string \<Rightarrow> cgi_head \<Rightarrow> cgi_head" where
  "cgi_header_line line h =
     (case str_find_char (CHR '':'') 0 line of
        None \<Rightarrow> h
      | Some colon \<Rightarrow>
          let key = take colon line;
              val = drop (colon + 1) line;
              val = (case find_idx (\<lambda>c. c \<noteq> CHR '' '' \<and> c \<noteq> TAB) val of
                       Some vs \<Rightarrow> drop vs val | None \<Rightarrow> val);
              lkey = map to_lower key
          in if lkey = ''status'' then h\<lparr>ch_status := read_int (ch_status h) val\<rparr>
             else if lkey = ''content-type'' then h\<lparr>ch_type := val\<rparr>
             else h\<lparr>ch_extra := ch_extra h @ key @ '': '' @ val @ crlf\<rparr>)"

fun cgi_header_lines :: "string \<Rightarrow> string \<Rightarrow> cgi_head \<Rightarrow> cgi_head" where
  \<comment> \<open>the loop over the bytes of the header section; \<open>cur\<close> is the line read so far\<close>
  "cgi_header_lines [] cur h = h"
| "cgi_header_lines (c # s) cur h =
     (if c \<noteq> LF then cgi_header_lines s (cur @ [c]) h
      else
        let line = (if cur \<noteq> [] \<and> last cur = CR then butlast cur else cur) in
        cgi_header_lines s [] (if line \<noteq> [] then cgi_header_line line h else h))"

definition cgi_reason_table :: "(int \<times> string) list" where
  "cgi_reason_table =
     [(201, ''Created''), (204, ''No Content''), (301, ''Moved Permanently''), (302, ''Found''),
      (400, ''Bad Request''), (403, ''Forbidden''), (404, ''Not Found''),
      (500, ''Internal Server Error''), (502, ''Bad Gateway''), (504, ''Gateway Timeout'')]"

definition cgi_response_head :: "string \<Rightarrow> http_request \<Rightarrow> string" where
  \<comment> \<open>the text \<open>flushCgiHeaders\<close> appends for a header section\<close>
  "cgi_response_head section req =
     (let h = cgi_header_lines section [] \<lparr>ch_status = 200, ch_type = ''text/html'', ch_extra = []\<rparr>;
          reason = (case map_of cgi_reason_table (ch_status h) of Some r \<Rightarrow> r | None \<Rightarrow> ''OK'');
          conn_val = (if keepAlive req then ''keep-alive'' else ''close'')
      in ''HTTP/1.1 '' @ int_string (ch_status h) @ '' '' @ reason @ crlf
         @ ''Server: webserv/1.0'' @ crlf
         @ ''Content-Type: '' @ ch_type h @ crlf
         @ ''Transfer-Encoding: chunked'' @ crlf
         @ ''Connection: '' @ conn_val @ crlf
         @ ch_extra h @ crlf)"

definition flushCgiHeaders :: "string \<Rightarrow> http_request \<Rightarrow> buffer \<Rightarrow> failure + buffer" where
  "flushCgiHeaders section req wb = Buffer_append wb (cgi_response_head section req)"

definition writeChunk :: "buffer \<Rightarrow> string \<Rightarrow> (failure \<times> buffer) + buffer" where
  \<comment> \<open>an exception leaves the buffer with the appends made before it\<close>
  "writeChunk wb data =
     (if data = [] then Inr wb
      else
        rbind (with_state wb (Buffer_append wb (hex_string (length data) @ crlf))) (\<lambda>wb.
        rbind (with_state wb (Buffer_append wb data)) (\<lambda>wb.
        with_state wb (Buffer_append wb crlf))))"

section \<open>A job\<close>

record cgi_job =
  j_client_fd :: int
  j_result_fd :: int
  j_child_pid :: int
  j_buffer :: buffer
  j_start_time :: int
  j_timeout_seconds :: int
  j_stdin_fd :: int
  j_headers_sent :: bool
  j_body_written :: nat
  j_parent_request :: int

definition CgiJob_new :: "int \<Rightarrow> int \<Rightarrow> int \<Rightarrow> nat \<Rightarrow> int \<Rightarrow> cgi_job" where
  "CgiJob_new now cfd rfd max_bytes timeout =
     \<lparr>j_client_fd = cfd, j_result_fd = rfd, j_child_pid = -1, j_buffer = Buffer_new max_bytes,
      j_start_time = now, j_timeout_seconds = timeout, j_stdin_fd = -1, j_headers_sent = False,
      j_body_written = 0, j_parent_request = 0\<rparr>"

datatype cgi_turn = CgiMore | CgiBadHead   \<comment> \<open>go on, or \<open>_failCgiJob(result_fd, 502)\<close>\<close>

definition chunk_for :: "cgi_job \<Rightarrow> (failure \<times> buffer) + buffer \<Rightarrow> (failure \<times> cgi_job \<times> buffer) + buffer" where
  \<comment> \<open>an exception of \<open>writeChunk\<close> on behalf of a job\<close>
  "chunk_for job r = (case r of Inl (x, wb) \<Rightarrow> Inl (x, job, wb) | Inr wb \<Rightarrow> Inr wb)"

definition cgi_headers_block :: "http_request \<Rightarrow> cgi_job \<Rightarrow> buffer \<Rightarrow> string
    \<Rightarrow> (failure \<times> cgi_job \<times> buffer) + cgi_turn \<times> cgi_job \<times> buffer" where
  \<comment> \<open>a block that arrives before the header section is complete\<close>
  "cgi_headers_block req job wb bytes =
     rbind (with_state (job, wb) (Buffer_append_result (j_buffer job) bytes)) (\<lambda>rb.
       let job = job\<lparr>j_buffer := rb\<rparr> in
     rbind (with_state (job, wb) (Buffer_data rb)) (\<lambda>d.
       case findHeaderEnd d of
         None \<Rightarrow> Inr (if Buffer_size rb > FHLS then CgiBadHead else CgiMore, job, wb)
       | Some body_start \<Rightarrow>
           rbind (with_state (job, wb) (flushCgiHeaders (take body_start d) req wb)) (\<lambda>wb.
             let job = job\<lparr>j_headers_sent := True\<rparr>; rest = drop body_start d in
           rbind (chunk_for job (writeChunk wb rest)) (\<lambda>wb.
             Inr (CgiMore, job\<lparr>j_body_written := j_body_written job + length rest,
                               j_buffer := Buffer_earase rb\<rparr>, wb)))))"

definition cgi_body_block :: "cgi_job \<Rightarrow> buffer \<Rightarrow> string
    \<Rightarrow> (failure \<times> cgi_job \<times> buffer) + cgi_turn \<times> cgi_job \<times> buffer" where
  "cgi_body_block job wb bytes =
     rbind (chunk_for job (writeChunk wb bytes)) (\<lambda>wb.
       Inr (CgiMore, job\<lparr>j_body_written := j_body_written job + length bytes\<rparr>, wb))"

definition cgi_block :: "http_request \<Rightarrow> cgi_job \<Rightarrow> buffer \<Rightarrow> string
    \<Rightarrow> (failure \<times> cgi_job \<times> buffer) + cgi_turn \<times> cgi_job \<times> buffer" where
  \<comment> \<open>\<open>n > 0\<close> bytes were read from the script\<close>
  "cgi_block req job wb bytes =
     (let job = job\<lparr>j_parent_request := j_parent_request job + 1\<rparr> in
      if \<not> j_headers_sent job then cgi_headers_block req job wb bytes
      else cgi_body_block job wb bytes)"

lemma chunk_for_simps [simp]:
  "chunk_for job (Inr wb) = Inr wb" "chunk_for job (Inl (x, wb)) = Inl (x, job, wb)"
  by (simp_all add: chunk_for_def)

section \<open>Finding the end of the header section\<close>

lemma find_blank_crlf_append: "find_blank_crlf xs = Some i \<Longrightarrow> find_blank_crlf (xs @ ys) = Some i"
  by (induction xs arbitrary: i rule: find_blank_crlf.induct) (auto split: if_splits)

lemma find_blank_crlf_bound: "find_blank_crlf xs = Some i \<Longrightarrow> i + 4 \<le> length xs"
  by (induction xs arbitrary: i rule: find_blank_crlf.induct) (auto split: if_splits)

lemma find_blank_lf_append: "find_blank_lf xs = Some i \<Longrightarrow> find_blank_lf (xs @ ys) = Some i"
  by (induction xs arbitrary: i rule: find_blank_lf.induct) (auto split: if_splits)

definition header_section :: "string \<Rightarrow> bool" where
  \<comment> \<open>ends with the first blank line, and lines end in CRLF\<close>
  "header_section s \<longleftrightarrow> 4 \<le> length s \<and> find_blank_crlf s = Some (length s - 4) \<and> find_blank_lf s = None"

lemma findHeaderEnd_section: "header_section s \<Longrightarrow> findHeaderEnd (s @ rest) = Some (length s)"
  using find_blank_crlf_append [of s "length s - 4" rest] by (simp add: header_section_def findHeaderEnd_def)

lemma findHeaderEnd_prefix:
  assumes "header_section (p @ q)" "q \<noteq> []"
  shows "findHeaderEnd p = None"
proof -
  have "find_blank_crlf p = None"
  proof (cases "find_blank_crlf p")
    case (Some i)
    have "0 < length q" using assms(2) by simp
    moreover have "i = length p + length q - 4"
      using find_blank_crlf_append [OF Some, of q] assms(1) by (simp add: header_section_def)
    ultimately have False using find_blank_crlf_bound [OF Some] by linarith
    then show ?thesis ..
  qed
  moreover have "find_blank_lf p = None"
    using find_blank_lf_append [of p _ q] assms(1) by (cases "find_blank_lf p") (simp_all add: header_section_def)
  ultimately show ?thesis by (simp add: findHeaderEnd_def)
qed

section \<open>Writing chunks\<close>

lemma hex_string_length: "n < 16 ^ k \<Longrightarrow> 0 < k \<Longrightarrow> length (hex_string n) \<le> k"
proof (induction n arbitrary: k rule: hex_string.induct)
  case (1 n)
  show ?case
  proof (cases "n < 16")
    case True
    with "1.prems" show ?thesis by (simp add: hex_string.simps [of n])
  next
    case False
    from "1.prems" obtain j where j: "k = Suc j" by (cases k) auto
    with False "1.prems" have "0 < j" by (cases j) auto
    moreover have "n div 16 < 16 ^ j" using "1.prems"(1) j by (simp add: less_mult_imp_div_less mult.commute)
    ultimately have "length (hex_string (n div 16)) \<le> j" using False "1.IH" by simp
    with False j show ?thesis by (simp add: hex_string.simps [of n])
  qed
qed

lemma encode_chunk_length: "length d < 2 ^ 64 \<Longrightarrow> length (encode_chunk d) \<le> length d + 20"
  using hex_string_length [of "length d" 16] by (simp add: encode_chunk_def crlf_def)

definition chunk_text :: "string \<Rightarrow> string" where
  "chunk_text d = (if d = [] then [] else encode_chunk d)"

lemma writeChunk_ok:
  assumes "buf_ok wb" "cmbs wb < 2 ^ 61" "length (content wb) + length d + 20 \<le> cmbs wb"
  obtains wb' where "writeChunk wb d = Inr wb'" "content wb' = content wb @ chunk_text d" "buf_ok wb'" "cmbs wb' = cmbs wb"
proof (cases "d = []")
  case True
  with that [of wb] assms show thesis by (simp add: writeChunk_def chunk_text_def)
next
  case False
  let ?h = "hex_string (length d) @ crlf"
  have len: "length ?h \<le> 18" using hex_string_length [of "length d" 16] assms by (simp add: crlf_def)
  obtain b1 where b1: "Buffer_append wb ?h = Inr b1" "content b1 = content wb @ ?h" "buf_ok b1" "cmbs b1 = cmbs wb"
    using append_ok [OF assms(1,2), of ?h] assms(3) len by auto
  obtain b2 where b2: "Buffer_append b1 d = Inr b2" "content b2 = content b1 @ d" "buf_ok b2" "cmbs b2 = cmbs b1"
    using append_ok [OF b1(3), of d] assms b1 len by auto
  obtain b3 where b3: "Buffer_append b2 crlf = Inr b3" "content b3 = content b2 @ crlf" "buf_ok b3" "cmbs b3 = cmbs b2"
    using append_ok [OF b2(3), of crlf] assms b1 b2 len by (auto simp: crlf_def)
  show thesis
    by (rule that [of b3]) (use False b1 b2 b3 in \<open>simp_all add: writeChunk_def chunk_text_def encode_chunk_def\<close>)
qed

lemma flushCgiHeaders_ok:
  assumes "buf_ok wb" "cmbs wb < 2 ^ 61" "length (content wb) + length (cgi_response_head section req) \<le> cmbs wb"
  obtains wb' where "flushCgiHeaders section req wb = Inr wb'"
    "content wb' = content wb @ cgi_response_head section req" "buf_ok wb'" "cmbs wb' = cmbs wb"
  using append_ok [OF assms] by (auto simp: flushCgiHeaders_def)

section \<open>Relaying a whole script\<close>

datatype relay_io =
    Block string   \<comment> \<open>\<open>read\<close> returned these bytes of the script's output\<close>
  | Sent nat       \<comment> \<open>meanwhile the client took this many bytes of the write buffer\<close>

fun relay :: "http_request \<Rightarrow> relay_io list \<Rightarrow> cgi_job \<Rightarrow> buffer
    \<Rightarrow> (failure \<times> cgi_job \<times> buffer) + cgi_turn \<times> string \<times> cgi_job \<times> buffer" where
  \<comment> \<open>the bytes the client took, and the state reached\<close>
  "relay req [] job wb = Inr (CgiMore, [], job, wb)"
| "relay req (Block b # ios) job wb =
     rbind (cgi_block req job wb b) (\<lambda>(t, job, wb).
       if t = CgiBadHead then Inr (t, [], job, wb) else relay req ios job wb)"
| "relay req (Sent n # ios) job wb =
     rbind (with_state (job, wb) (Buffer_consume wb n)) (\<lambda>wb1.
     rbind (relay req ios job wb1) (\<lambda>(t, out, r). Inr (t, take n (content wb) @ out, r)))"

primrec blocks_of :: "relay_io list \<Rightarrow> string list" where
  "blocks_of [] = []"
| "blocks_of (x # ios) = (case x of Block b \<Rightarrow> b # blocks_of ios | Sent _ \<Rightarrow> blocks_of ios)"

primrec relay_cost :: "relay_io list \<Rightarrow> nat" where
  \<comment> \<open>room the blocks need in the write buffer if the client takes nothing\<close>
  "relay_cost [] = 0"
| "relay_cost (x # ios) = (case x of Block b \<Rightarrow> length b + 20 | Sent _ \<Rightarrow> 0) + relay_cost ios"

lemma consume_split:
  assumes "buf_ok wb"
  obtains wb1 where "Buffer_consume wb n = Inr wb1" "content wb = take n (content wb) @ content wb1"
    "buf_ok wb1" "cmbs wb1 = cmbs wb"
  using consume_ok [OF assms, of n] by (metis append_take_drop_id)

lemma relay_body:
  "j_headers_sent job \<Longrightarrow> buf_ok wb \<Longrightarrow> cmbs wb < 2 ^ 61 \<Longrightarrow> length (content wb) + relay_cost ios \<le> cmbs wb \<Longrightarrow>
   \<exists>out job' wb'. relay req ios job wb = Inr (CgiMore, out, job', wb') \<and> j_headers_sent job' \<and> buf_ok wb'
     \<and> cmbs wb' = cmbs wb \<and> out @ content wb' = content wb @ concat (map chunk_text (blocks_of ios))"
proof (induction ios arbitrary: job wb)
  case (Cons x ios)
  show ?case
  proof (cases x)
    case (Block b)
    obtain wb1 where w: "writeChunk wb b = Inr wb1" "content wb1 = content wb @ chunk_text b" "buf_ok wb1" "cmbs wb1 = cmbs wb"
      using writeChunk_ok [OF Cons.prems(2,3), of b] Cons.prems(4) Block by auto
    define job1 where "job1 = job\<lparr>j_parent_request := j_parent_request job + 1, j_body_written := j_body_written job + length b\<rparr>"
    have step: "cgi_block req job wb b = Inr (CgiMore, job1, wb1)"
      using Cons.prems(1) w(1) by (simp add: cgi_block_def cgi_body_block_def job1_def)
    have "length (chunk_text b) \<le> length b + 20"
      using encode_chunk_length [of b] Cons.prems(3,4) Block by (simp add: chunk_text_def)
    then have "length (content wb1) + relay_cost ios \<le> cmbs wb1" using w(2,4) Cons.prems(4) Block by simp
    with Cons.IH [of job1 wb1] w Cons.prems(1,3) step Block show ?thesis by (auto simp: job1_def)
  next
    case (Sent n)
    obtain wb1 where w: "Buffer_consume wb n = Inr wb1" "content wb = take n (content wb) @ content wb1"
      "buf_ok wb1" "cmbs wb1 = cmbs wb"
      using Cons.prems(2) by (rule consume_split [of wb n])
    have "length (content wb1) + relay_cost ios \<le> cmbs wb1"
      using arg_cong [OF w(2), of length] w(4) Cons.prems(4) Sent by simp
    with Cons.IH [of job wb1] w Cons.prems obtain out job' wb' where r:
      "relay req ios job wb1 = Inr (CgiMore, out, job', wb')" "j_headers_sent job'" "buf_ok wb'" "cmbs wb' = cmbs wb"
      "out @ content wb' = content wb1 @ concat (map chunk_text (blocks_of ios))" by auto
    have "take n (content wb) @ out @ content wb' = content wb @ concat (map chunk_text (blocks_of ios))"
      unfolding r(5) by (subst (2) w(2)) simp
    with r Sent w(1) show ?thesis by auto
  qed
qed simp

definition collecting :: "string \<Rightarrow> string \<Rightarrow> cgi_job \<Rightarrow> bool" where
  \<comment> \<open>the job has collected \<open>d\<close>, a proper prefix of the header section \<open>d @ s\<close>\<close>
  "collecting d s job \<longleftrightarrow>
     header_section (d @ s) \<and> length (d @ s) \<le> FHLS \<and> s \<noteq> []
     \<and> \<not> j_headers_sent job \<and> buf_ok (j_buffer job) \<and> content (j_buffer job) = d"

lemma append_result_ok:
  assumes "buf_ok b" "length (content b) + length src \<le> LimitRequestBody"
  obtains b' where "Buffer_append_result b src = Inr b'" "content b' = content b @ src" "buf_ok b'"
proof -
  have "\<exists>b'. Buffer_append_result b src = Inr b'"
    unfolding Buffer_append_result_def by (rule append_upto_total [OF assms]) (simp add: LimitRequestBody_def)
  with append_upto_InrD [OF assms(1)] that show thesis unfolding Buffer_append_result_def by blast
qed

lemma collect_more:
  assumes "collecting d (b @ s) job" "s \<noteq> []" "length b \<le> 61440"
  obtains job' where "cgi_block req job wb b = Inr (CgiMore, job', wb)" "collecting (d @ b) s job'"
proof -
  have j: "header_section ((d @ b) @ s)" "length d + (length b + length s) \<le> FHLS" "\<not> j_headers_sent job"
      "buf_ok (j_buffer job)" "content (j_buffer job) = d"
    using assms(1) by (auto simp: collecting_def)
  obtain rb where rb: "Buffer_append_result (j_buffer job) b = Inr rb" "content rb = d @ b" "buf_ok rb"
    using append_result_ok [OF j(4), of b] j(2,5) by (auto simp: FHLS_def LimitRequestBody_def)
  have "findHeaderEnd (d @ b) = None" using findHeaderEnd_prefix [OF j(1) assms(2)] .
  moreover have "\<not> FHLS < Buffer_size rb" using rb j(2) by (simp add: buf_ok_size)
  ultimately have "cgi_block req job wb b
      = Inr (CgiMore, job\<lparr>j_parent_request := j_parent_request job + 1, j_buffer := rb\<rparr>, wb)"
    using j(3) rb by (simp add: cgi_block_def cgi_headers_block_def buf_ok_data)
  moreover have "collecting (d @ b) s (job\<lparr>j_parent_request := j_parent_request job + 1, j_buffer := rb\<rparr>)"
    using assms(2) j rb by (simp add: collecting_def)
  ultimately show thesis by (rule that)
qed

lemma collect_last:
  assumes "collecting d s job" "length left \<le> 61440" "buf_ok wb" "cmbs wb < 2 ^ 61"
    and "length (content wb) + length (cgi_response_head (d @ s) req) + length left + 20 \<le> cmbs wb"
  obtains job' wb' where "cgi_block req job wb (s @ left) = Inr (CgiMore, job', wb')" "j_headers_sent job'"
    "content wb' = content wb @ cgi_response_head (d @ s) req @ chunk_text left" "buf_ok wb'" "cmbs wb' = cmbs wb"
proof -
  have j: "header_section (d @ s)" "length d + length s \<le> FHLS" "\<not> j_headers_sent job"
      "buf_ok (j_buffer job)" "content (j_buffer job) = d"
    using assms(1) by (auto simp: collecting_def)
  obtain rb where rb: "Buffer_append_result (j_buffer job) (s @ left) = Inr rb" "content rb = d @ s @ left" "buf_ok rb"
    using append_result_ok [OF j(4), of "s @ left"] j(2,5) assms(2) by (auto simp: FHLS_def LimitRequestBody_def)
  have e: "findHeaderEnd (d @ s @ left) = Some (length (d @ s))"
    using findHeaderEnd_section [OF j(1), of left] by simp
  obtain w1 where w1: "flushCgiHeaders (d @ s) req wb = Inr w1"
      "content w1 = content wb @ cgi_response_head (d @ s) req" "buf_ok w1" "cmbs w1 = cmbs wb"
    using flushCgiHeaders_ok [OF assms(3,4), of "d @ s" req] assms(5) by auto
  obtain w2 where w2: "writeChunk w1 left = Inr w2" "content w2 = content w1 @ chunk_text left" "buf_ok w2" "cmbs w2 = cmbs w1"
    using writeChunk_ok [OF w1(3), of left] assms(4,5) w1(2,4) by auto
  have "\<exists>job'. cgi_block req job wb (s @ left) = Inr (CgiMore, job', w2) \<and> j_headers_sent job'"
    using j(3) rb e w1(1) w2(1) by (simp add: cgi_block_def cgi_headers_block_def buf_ok_data Let_def)
  with that w1 w2 show thesis by auto
qed

lemma relay_collecting:
  "collecting d s job \<Longrightarrow> concat (blocks_of ios) = s @ payload \<Longrightarrow> (\<forall>b \<in> set (blocks_of ios). length b \<le> 61440) \<Longrightarrow>
   buf_ok wb \<Longrightarrow> cmbs wb < 2 ^ 61 \<Longrightarrow>
   length (content wb) + length (cgi_response_head (d @ s) req) + relay_cost ios \<le> cmbs wb \<Longrightarrow>
   \<exists>out job' wb' pieces. relay req ios job wb = Inr (CgiMore, out, job', wb') \<and> j_headers_sent job'
     \<and> buf_ok wb' \<and> cmbs wb' = cmbs wb \<and> concat pieces = payload \<and> (\<forall>p \<in> set pieces. length p \<le> 61440)
     \<and> out @ content wb' = content wb @ cgi_response_head (d @ s) req @ concat (map chunk_text pieces)"
proof (induction ios arbitrary: d s job wb)
  case Nil
  then show ?case by (simp add: collecting_def)
next
  case (Cons x ios)
  show ?case
  proof (cases x)
    case (Sent n)
    obtain wb1 where w: "Buffer_consume wb n = Inr wb1" "content wb = take n (content wb) @ content wb1"
      "buf_ok wb1" "cmbs wb1 = cmbs wb"
      using Cons.prems(4) by (rule consume_split [of wb n])
    have "length (content wb1) + length (cgi_response_head (d @ s) req) + relay_cost ios \<le> cmbs wb1"
      using arg_cong [OF w(2), of length] w(4) Cons.prems(6) Sent by simp
    with Cons.IH [of d s job wb1] w Cons.prems Sent obtain out job' wb' pieces where r:
      "relay req ios job wb1 = Inr (CgiMore, out, job', wb')" "j_headers_sent job'" "buf_ok wb'" "cmbs wb' = cmbs wb"
      "concat pieces = payload" "\<forall>p \<in> set pieces. length p \<le> 61440"
      "out @ content wb' = content wb1 @ cgi_response_head (d @ s) req @ concat (map chunk_text pieces)" by auto
    have "(take n (content wb) @ out) @ content wb' = content wb @ cgi_response_head (d @ s) req @ concat (map chunk_text pieces)"
      unfolding append_assoc r(7) by (subst (2) w(2)) simp
    moreover have "relay req (x # ios) job wb = Inr (CgiMore, take n (content wb) @ out, job', wb')"
      using r(1) w(1) Sent by simp
    ultimately show ?thesis using r by blast
  next
    case (Block b)
    have b: "length b \<le> 61440" "b @ concat (blocks_of ios) = s @ payload" using Cons.prems(2,3) Block by auto
    show ?thesis
    proof (cases "length b < length s")
      case True
      then obtain s' where s': "s = b @ s'" "concat (blocks_of ios) = s' @ payload" "s' \<noteq> []"
        using b(2) by (auto simp: append_eq_append_conv2)
      obtain job' where st: "cgi_block req job wb b = Inr (CgiMore, job', wb)" "collecting (d @ b) s' job'"
        using Cons.prems(1) unfolding s'(1) by (rule collect_more [OF _ s'(3) b(1)])
      with Cons.IH [of "d @ b" s' job' wb] Cons.prems s' Block show ?thesis by auto
    next
      case False
      then obtain left where l: "b = s @ left" "payload = left @ concat (blocks_of ios)"
        using b(2) by (auto simp: append_eq_append_conv2)
      obtain job1 wb1 where st: "cgi_block req job wb b = Inr (CgiMore, job1, wb1)" "j_headers_sent job1"
        "content wb1 = content wb @ cgi_response_head (d @ s) req @ chunk_text left" "buf_ok wb1" "cmbs wb1 = cmbs wb"
        unfolding l(1) using b(1) l(1) Cons.prems(6) Block
        by (elim collect_last [OF Cons.prems(1) _ Cons.prems(4,5), of left req, rotated 2]) auto
      have "length (chunk_text left) \<le> length left + 20"
        using encode_chunk_length [of left] b(1) l(1) by (simp add: chunk_text_def)
      then have "length (content wb1) + relay_cost ios \<le> cmbs wb1"
        using st(3,5) Cons.prems(6) Block l(1) by simp
      with relay_body [OF st(2,4), of ios req] st(5) Cons.prems(5) obtain out job' wb' where r:
        "relay req ios job1 wb1 = Inr (CgiMore, out, job', wb')" "j_headers_sent job'" "buf_ok wb'" "cmbs wb' = cmbs wb"
        "out @ content wb' = content wb1 @ concat (map chunk_text (blocks_of ios))" by auto
      have "relay req (x # ios) job wb = Inr (CgiMore, out, job', wb')" using st(1) r(1) Block by simp
      moreover have "out @ content wb' = content wb @ cgi_response_head (d @ s) req @ concat (map chunk_text (left # blocks_of ios))"
        using r(5) st(3) by simp
      moreover have "concat (left # blocks_of ios) = payload" "\<forall>p \<in> set (left # blocks_of ios). length p \<le> 61440"
        using l b(1) Cons.prems(3) Block by auto
      ultimately show ?thesis using r(2-4) by blast
    qed
  qed
qed

section \<open>Properties\<close>

definition fresh_decoder :: decoder where
  "fresh_decoder = \<lparr>d_size = 0, d_trailing = False, d_done = False, d_body = []\<rparr>"

lemma chunk_texts: "concat (map chunk_text ps) = concat (map encode_chunk (filter (\<lambda>p. p \<noteq> []) ps))"
  by (induction ps) (simp_all add: chunk_text_def)

lemma concat_nonempty: "concat (filter (\<lambda>p. p \<noteq> []) ps) = concat ps"
  by (induction ps) simp_all

lemma decode_chunk_texts:
  assumes "\<forall>p \<in> set ps. length p \<le> 61440" "length (concat ps) \<le> limit"
  shows "run_parser (chunk_turn limit) fresh_decoder (concat (map chunk_text ps) @ last_chunk @ rest)
    = Stopped (fresh_decoder\<lparr>d_body := concat ps, d_done := True\<rparr>) rest"
proof -
  have "\<forall>p \<in> set (filter (\<lambda>p. p \<noteq> []) ps). p \<noteq> [] \<and> length p \<le> MAX_ALLOWED_CHUNK"
    using assms(1) by (fastforce simp: MAX_ALLOWED_CHUNK_def)
  from run_chunks [OF _ this, of fresh_decoder limit rest] assms(2) show ?thesis
    by (simp add: chunk_texts concat_nonempty fresh_decoder_def idle_def)
qed



text \<open>
  A script that ends its lines with LF only is cut wrongly when its body holds a blank
  CRLF line in the block that completes the header section: the loop that looks for CRLF
  runs over the whole block first.
\<close>

theorem lf_header_end_moves:
  assumes "findHeaderEnd h = Some (length h)" "CR \<notin> set h" "CR \<notin> set b"
  shows "findHeaderEnd (h @ b @ crlf @ crlf @ rest) = Some (length h + length b + 4)"
proof -
  have "find_blank_crlf (xs @ crlf @ crlf @ rest) = Some (length xs)" if "CR \<notin> set xs" for xs
    using that
  proof (induction xs)
    case Nil
    then show ?case by (simp add: crlf_def)
  next
    case (Cons x xs)
    then have "x \<noteq> CR" "find_blank_crlf (xs @ crlf @ crlf @ rest) = Some (length xs)" by auto
    moreover obtain a b c r where "xs @ crlf @ crlf @ rest = a # b # c # r"
      by (metis append.left_neutral append_Cons crlf_def list.exhaust)
    ultimately show ?case by simp
  qed
  moreover have "length crlf = 2" by (simp add: crlf_def)
  ultimately show ?thesis using assms(2,3) by (simp add: findHeaderEnd_def flip: append_assoc)
qed

theorem lf_header_end_moves_witness:
  "findHeaderEnd (''A: b'' @ [LF, LF]) = Some 6
   \<and> findHeaderEnd (''A: b'' @ [LF, LF] @ ''x'' @ crlf @ crlf @ ''y'') = Some 11"
proof -
  have "findHeaderEnd (''A: b'' @ [LF, LF]) = Some (length (''A: b'' @ [LF, LF]))"
    by (simp add: findHeaderEnd_def)
  from lf_header_end_moves [OF this, of "''x''" "''y''"] this show ?thesis by simp
qed

end
