(* ===== verification/Cgi_Launch.thy ===== *)
theory Cgi_Launch
  imports Paths Http_Parser
begin

text \<open>
  From a request to a running script: which requests go to a CGI program
  (\<open>pathRequiresCgiBodySpool\<close> of \<open>src/EventLoop/EventLoop_helper_handlers.cpp\<close> and
  \<open>resolveCgiRequest\<close> of \<open>cgi/CgiHelpers.cpp\<close>), and \<open>CgiHandler\<close> of \<open>cgi/CgiHandler.cpp\<close>: the
  environment, the argument vector, the checks of \<open>startCgi\<close> before \<open>fork\<close> and the calls
  the child makes until \<open>execve\<close>.  The file system does not change between the checks of
  the parent and those of the child; the result of \<open>fork\<close> is an argument.
\<close>

section \<open>Requests for a script\<close>

definition cgi_extension :: "(string, string) omap \<Rightarrow> string \<Rightarrow> bool" where
  \<comment> \<open>the loop over the extensions of a location\<close>
  "cgi_extension cgi_map p \<longleftrightarrow> list_ex (\<lambda>(ext, _). ends_with p ext) cgi_map"

definition pathRequiresCgiBodySpool :: "http_request \<Rightarrow> server \<Rightarrow> bool" where
  "pathRequiresCgiBodySpool req cfg =
     (case matchLocation cfg (path req) of
        None \<Rightarrow> False
      | Some loc \<Rightarrow> if loc_cgi_map loc = [] then False else cgi_extension (loc_cgi_map loc) (path req))"

definition resolveCgiRequest :: "http_request \<Rightarrow> server \<Rightarrow> (location \<times> string) option" where
  \<comment> \<open>the location and \<open>script_path\<close> of \<open>CgiRequestInfo\<close>\<close>
  "resolveCgiRequest req cfg =
     (case matchLocation cfg (path req) of
        None \<Rightarrow> None
      | Some loc \<Rightarrow>
          if loc_cgi_map loc = [] then None
          else if \<not> cgi_extension (loc_cgi_map loc) (path req) then None
          else Some (loc, resolveFsPath req (Some loc) cfg))"

section \<open>Environment and arguments\<close>

definition env_name_char :: "char \<Rightarrow> char" where
  "env_name_char c = (if c = CHR ''-'' then CHR ''_'' else to_upper c)"

fun env_headers :: "(string \<times> string) list \<Rightarrow> string list" where
  "env_headers [] = []"
| "env_headers ((k, v) # hs) =
     (if k = ''content-type'' \<or> k = ''content-length'' then env_headers hs
      else (''HTTP_'' @ map env_name_char k @ ''='' @ v) # env_headers hs)"

definition env_server_name :: "http_request \<Rightarrow> server \<Rightarrow> string" where
  "env_server_name req server =
     (let server_name = header req ''host'';
          server_name = (if server_name = [] then srv_host server else server_name)
      in case str_rfind (\<lambda>c. c = CHR '':'') server_name of
           Some colon_pos \<Rightarrow> take colon_pos server_name
         | None \<Rightarrow> server_name)"

definition env_payload_size :: "http_request \<Rightarrow> nat" where
  "env_payload_size req =
     (let payload_size = body_file_written req;
          payload_size = (if payload_size = 0 then written req else payload_size)
      in if payload_size = 0 \<and> \<not> Buffer_empty (body req) then Buffer_size (body req) else payload_size)"

definition env_body :: "http_request \<Rightarrow> string list" where
  "env_body req =
     (let payload_size = env_payload_size req; ct = header req ''content-type'' in
      if payload_size > 0 \<or> expectsBody req
      then [''CONTENT_TYPE='' @ ct, ''CONTENT_LENGTH='' @ dec_string payload_size]
      else if ct \<noteq> [] then [''CONTENT_TYPE='' @ ct] else [])"

definition buildCgiEnvironment :: "string \<Rightarrow> string \<Rightarrow> http_request \<Rightarrow> server \<Rightarrow> string list" where
  "buildCgiEnvironment script_path ip req server =
     (let script_name = path req;
          path_info = script_name;
          path_translated = srv_root server @ path_info
      in [''REQUEST_METHOD='' @ req_method req,
          ''QUERY_STRING='' @ query_string req,
          ''SCRIPT_FILENAME='' @ script_path,
          ''SCRIPT_NAME='' @ script_name,
          ''PATH_INFO='' @ path_info]
       @ (if path_translated \<noteq> [] then [''PATH_TRANSLATED='' @ path_translated] else [])
       @ [''SERVER_NAME='' @ env_server_name req server,
          ''SERVER_PORT='' @ int_string (srv_port server),
          ''SERVER_PROTOCOL='' @ version req,
          ''GATEWAY_INTERFACE=CGI/1.1'',
          ''SERVER_SOFTWARE=webserv/1.0'',
          ''REMOTE_ADDR='' @ ip,
          ''REQUEST_URI='' @ path req @ (if query_string req = [] then [] else ''?'' @ query_string req),
          ''DOCUMENT_ROOT='' @ srv_root server]
       @ env_body req
       @ env_headers (headers req))"

function split_plus :: "string \<Rightarrow> nat \<Rightarrow> string list" where
  \<comment> \<open>the loop of \<open>buildCgiArgs\<close> from position \<open>start\<close>\<close>
  "split_plus q start =
     (case str_find_char (CHR ''+'') start q of
        Some plus_pos \<Rightarrow> substr q start (plus_pos - start) # split_plus q (plus_pos + 1)
      | None \<Rightarrow> [drop start q])"
  by pat_completeness auto
termination
  by (relation "measure (\<lambda>(q, start). length q - start)")
    (auto simp: str_find_char_def dest!: find_idx_less)

declare split_plus.simps [simp del]

definition buildCgiArgs :: "string \<Rightarrow> string \<Rightarrow> string \<Rightarrow> string list" where
  "buildCgiArgs cgi_path script_file q =
     [cgi_path, script_file]
     @ (if q \<noteq> [] \<and> str_find_char (CHR ''='') 0 q = None
        then split_plus q 0 else [])"

section \<open>Starting the program\<close>

definition with_slash :: "string \<Rightarrow> string" where
  \<comment> \<open>\<open>if (candidate[candidate.size() - 1] != '/') candidate += '/'\<close>\<close>
  "with_slash s = (if s ! (length s - 1) \<noteq> SLASH then s @ ''/'' else s)"

definition resolve_path :: "os \<Rightarrow> string \<Rightarrow> string \<Rightarrow> string \<Rightarrow> string option" where
  "resolve_path w p location_root server_root =
     (if p \<noteq> [] \<and> hd p = SLASH then (if is_reg w p then Some p else None)
      else if starts_with p ''./'' then
        (if is_reg w p then Some p
         else
           let rel = drop 2 p in
           if location_root \<noteq> [] \<and> is_reg w (with_slash location_root @ rel)
           then Some (with_slash location_root @ rel)
           else if server_root \<noteq> [] \<and> is_reg w (with_slash server_root @ rel)
           then Some (with_slash server_root @ rel)
           else None)
      else None)"

record cgi_program =
  cp_cgi_path :: string
  cp_script_file :: string
  cp_need_stdin :: bool

definition absolute_cgi :: "os \<Rightarrow> string \<Rightarrow> string" where
  "absolute_cgi w cgi_path =
     (if cgi_path \<noteq> [] \<and> hd cgi_path \<noteq> SLASH then
        (case os_pwd w of
           Some pwd \<Rightarrow>
             if pwd \<noteq> [] \<and> hd pwd = SLASH
             then pwd @ ''/'' @ (if starts_with cgi_path ''./'' then drop 2 cgi_path else cgi_path)
             else cgi_path
         | None \<Rightarrow> cgi_path)
      else cgi_path)"

definition cgi_checks :: "os \<Rightarrow> http_request \<Rightarrow> server \<Rightarrow> location \<Rightarrow> string \<Rightarrow> int \<Rightarrow> (string \<times> cgi_program) option" where
  \<comment> \<open>\<open>startCgi\<close> before \<open>fork\<close>; \<open>None\<close> is \<open>return false\<close>; with the path that was checked\<close>
  "cgi_checks w req server loc script_path body_fd =
     (case str_rfind (\<lambda>c. c = CHR ''.'') script_path of
        None \<Rightarrow> None
      | Some dot \<Rightarrow>
          (case omap_get (loc_cgi_map loc) (drop dot script_path) of
             None \<Rightarrow> None
           | Some cgi_path \<Rightarrow>
               (case resolve_path w cgi_path (loc_root loc) (srv_root server) of
                  None \<Rightarrow> None
                | Some cgi_path \<Rightarrow>
                    if \<not> is_reg w cgi_path \<or> \<not> os_access_x w (c_str cgi_path) then None
                    else if script_path = [] then None
                    else if stat_fails w script_path then None
                    else if \<not> is_reg w script_path \<or> \<not> os_access_r w (c_str script_path) then None
                    else Some (cgi_path,
                      \<lparr>cp_cgi_path = absolute_cgi w cgi_path, cp_script_file = script_path,
                       cp_need_stdin = (chunked req \<or> content_length req > 0
                         \<or> body_file_written req > 0 \<or> body_fd \<ge> 0)\<rparr>))))"

definition startCgi :: "os \<Rightarrow> int \<Rightarrow> http_request \<Rightarrow> server \<Rightarrow> location \<Rightarrow> string \<Rightarrow> int \<Rightarrow> bool \<times> int" where
  \<comment> \<open>in the parent: the result and \<open>_child_pid\<close>, given what \<open>fork\<close> returned\<close>
  "startCgi w fork_result req server loc script_path body_fd =
     (case cgi_checks w req server loc script_path body_fd of
        None \<Rightarrow> (False, -1)
      | Some _ \<Rightarrow> if fork_result < 0 then (False, fork_result) else (True, fork_result))"

section \<open>The child\<close>

datatype child_call =
    Chdir string
  | Dup2 int int
  | NullOnto int              \<comment> \<open>open \<open>/dev/null\<close>, \<open>dup2\<close> it and close it\<close>
  | ChildClose int
  | Execve string "string list" "string list"
  | Exit int

definition same_file :: "os \<Rightarrow> string \<Rightarrow> string \<Rightarrow> bool" where
  \<comment> \<open>\<open>stat(p) == 0\<close> with the inode and device of the earlier \<open>stat(q)\<close>\<close>
  "same_file w p q =
     (case (os_stat w (c_str p), os_stat w (c_str q)) of
        (Inr a, Inr b) \<Rightarrow> st_ino a = st_ino b \<and> st_dev a = st_dev b
      | _ \<Rightarrow> False)"

definition cgi_stdin :: "bool \<Rightarrow> int \<Rightarrow> child_call list" where
  "cgi_stdin need_stdin body_fd =
     (if need_stdin \<and> body_fd \<ge> 0 then [Dup2 body_fd 0] @ (if body_fd \<noteq> 0 then [ChildClose body_fd] else [])
      else [NullOnto 0])"

definition cgi_child :: "os \<Rightarrow> http_request \<Rightarrow> string list \<Rightarrow> string \<Rightarrow> cgi_program \<Rightarrow> int \<Rightarrow> int \<Rightarrow> child_call list" where
  \<comment> \<open>the calls of the child; it exits at the first that fails\<close>
  "cgi_child w req env checked_cgi p write_end body_fd =
     (if \<not> same_file w (cp_cgi_path p) checked_cgi then [Exit 127]
      else if \<not> same_file w (cp_script_file p) (cp_script_file p) then [Exit 127]
      else
        let (dir, script_filename) =
              (case str_rfind (\<lambda>c. c = SLASH) (cp_script_file p) of
                 Some last_slash \<Rightarrow> ([Chdir (c_str (take last_slash (cp_script_file p)))],
                                     ''.'' @ drop last_slash (cp_script_file p))
               | None \<Rightarrow> ([], cp_script_file p))
        in dir @ [Dup2 write_end 1] @ cgi_stdin (cp_need_stdin p) body_fd @ [NullOnto 2, ChildClose write_end,
             Execve (c_str (cp_cgi_path p))
               (map c_str (buildCgiArgs (cp_cgi_path p) script_filename (query_string req)))
               (map c_str env),
             Exit 127])"

section \<open>Arguments\<close>

fun join_plus :: "string list \<Rightarrow> string" where
  "join_plus [] = []"
| "join_plus [s] = s"
| "join_plus (s # ss) = s @ ''+'' @ join_plus ss"

lemma join_plus_Cons: "xs \<noteq> [] \<Longrightarrow> join_plus (x # xs) = x @ ''+'' @ join_plus xs"
  by (cases xs) simp_all

lemma split_plus_cases:
  assumes "start \<le> length q"
  obtains "CHR ''+'' \<notin> set (drop start q)" "split_plus q start = [drop start q]"
  | i where "str_find_char (CHR ''+'') start q = Some (start + i)" "CHR ''+'' \<notin> set (take i (drop start q))"
      "start + i + 1 \<le> length q" "drop start q = take i (drop start q) @ CHR ''+'' # drop (start + i + 1) q"
      "split_plus q start = take i (drop start q) # split_plus q (start + i + 1)"
proof (cases "find_idx ((=) (CHR ''+'')) (drop start q)")
  case None
  then have "CHR ''+'' \<notin> set (drop start q)" by (auto simp: find_idx_None_iff)
  moreover have "split_plus q start = [drop start q]"
    using None by (subst split_plus.simps) (simp add: str_find_char_def)
  ultimately show thesis by (rule that(1))
next
  case (Some i)
  note d = find_idx_SomeD [OF Some]
  have f: "str_find_char (CHR ''+'') start q = Some (start + i)" using Some by (simp add: str_find_char_def)
  have "CHR ''+'' \<notin> set (take i (drop start q))" using d by blast
  moreover have "start + i + 1 \<le> length q" using d by (simp add: less_diff_conv add.commute Suc_le_eq)
  moreover have "drop start q = take i (drop start q) @ CHR ''+'' # drop (start + i + 1) q"
    using d id_take_nth_drop [of i "drop start q"] by (simp add: add.commute)
  moreover have "split_plus q start = take i (drop start q) # split_plus q (start + i + 1)"
    by (subst split_plus.simps) (simp add: f substr_def)
  ultimately show thesis using that(2) f by blast
qed

lemma split_plus_ok:
  "start \<le> length q \<Longrightarrow> split_plus q start \<noteq> [] \<and> join_plus (split_plus q start) = drop start q
     \<and> (\<forall>x \<in> set (split_plus q start). CHR ''+'' \<notin> set x)"
proof (induction "length q - start" arbitrary: start rule: less_induct)
  case less
  from less.prems show ?case
  proof (cases rule: split_plus_cases)
    case 1
    then show ?thesis by simp
  next
    case (2 i)
    have "length q - (start + i + 1) < length q - start" using 2(3) by arith
    note IH = less.hyps [OF this 2(3)]
    have "join_plus (split_plus q start) = take i (drop start q) @ ''+'' @ drop (start + i + 1) q"
      unfolding 2(5) using IH by (simp add: join_plus_Cons)
    also have "\<dots> = drop start q" using 2(4) by simp
    finally show ?thesis using IH 2(2) unfolding 2(5) by simp
  qed
qed

text \<open>
  C26: the arguments of a script are its query words.  A query without \<open>=\<close> reaches the
  script as words free of \<open>+\<close> that joined by \<open>+\<close> give the query back; a query with \<open>=\<close>,
  or none, adds no argument.
\<close>

theorem cgi_args_roundtrip:
  "\<exists>words. buildCgiArgs cgi_path script_file q = cgi_path # script_file # words
     \<and> (if q = [] \<or> CHR ''='' \<in> set q then words = []
        else join_plus words = q \<and> list_all (\<lambda>w. CHR ''+'' \<notin> set w) words)"
proof -
  have "str_find_char (CHR ''='') 0 q = None \<longleftrightarrow> CHR ''='' \<notin> set q"
    by (auto simp: str_find_char_def find_idx_None_iff)
  then show ?thesis
    using split_plus_ok [of 0 q] by (auto simp: buildCgiArgs_def list_all_iff)
qed

section \<open>What runs\<close>

lemma resolveCgiRequest_SomeD:
  assumes "resolveCgiRequest req cfg = Some (l, script)"
  shows "matchLocation cfg (path req) = Some l" "cgi_extension (loc_cgi_map l) (path req)"
    "script = resolveFsPath req (Some l) cfg" "l \<in> set (srv_locations cfg)"
  using assms by (auto simp: resolveCgiRequest_def dest: matchLocation_in split: option.splits if_splits)

lemma spool_iff_resolve: "pathRequiresCgiBodySpool req cfg \<longleftrightarrow> resolveCgiRequest req cfg \<noteq> None"
  by (auto simp: pathRequiresCgiBodySpool_def resolveCgiRequest_def split: option.splits)

lemma cgi_checks_SomeD:
  assumes "cgi_checks w req srv l script body_fd = Some (cgi, p)"
  obtains dot interp where "str_rfind (\<lambda>c. c = CHR ''.'') script = Some dot"
    "omap_get (loc_cgi_map l) (drop dot script) = Some interp"
    "resolve_path w interp (loc_root l) (srv_root srv) = Some cgi"
    "is_reg w cgi" "os_access_x w (c_str cgi)" "is_reg w script" "os_access_r w (c_str script)"
    "cp_cgi_path p = absolute_cgi w cgi" "cp_script_file p = script"
  using assms by (auto simp: cgi_checks_def split: option.splits if_splits)

lemma rfind_split:
  assumes "str_rfind (\<lambda>c. c = x) s = Some i"
  shows "s = take i s @ x # drop (Suc i) s" "x \<notin> set (drop (Suc i) s)"
proof -
  obtain j where j: "find_idx (\<lambda>c. c = x) (rev s) = Some j" "i = length s - Suc j"
    using assms by (auto simp: str_rfind_def)
  note d = find_idx_SomeD [OF j(1)]
  then have len: "j < length s" by simp
  then have "s ! i = x" using d j(2) by (simp add: rev_nth)
  with len show "s = take i s @ x # drop (Suc i) s" using id_take_nth_drop [of i s] j(2) by simp
  have "set (drop (Suc i) s) = set (take j (rev s))"
    using len j(2) by (simp add: take_rev Suc_diff_Suc)
  with d show "x \<notin> set (drop (Suc i) s)" by auto
qed

definition launch :: "http_request \<Rightarrow> string list \<Rightarrow> string \<Rightarrow> bool \<Rightarrow> int \<Rightarrow> int \<Rightarrow> child_call list \<Rightarrow> string \<Rightarrow> child_call list" where
  \<comment> \<open>what the child does after \<open>dirs\<close> when every call succeeds: execute \<open>interp\<close> on the script \<open>name\<close>\<close>
  "launch req env interp need_stdin write_end body_fd dirs name =
     dirs @ [Dup2 write_end 1] @ cgi_stdin need_stdin body_fd @ [NullOnto 2, ChildClose write_end,
       Execve (c_str interp) (map c_str (buildCgiArgs interp name (query_string req))) (map c_str env), Exit 127]"

definition script_place :: "string \<Rightarrow> child_call list \<Rightarrow> string \<Rightarrow> bool" where
  \<comment> \<open>the calls \<open>dirs\<close> change to the directory from which \<open>name\<close> names the script\<close>
  "script_place script dirs name \<longleftrightarrow>
     (dirs = [] \<and> SLASH \<notin> set script \<and> name = script)
     \<or> (\<exists>d b. script = d @ SLASH # b \<and> SLASH \<notin> set b \<and> dirs = [Chdir (c_str d)] \<and> name = ''./'' @ b)"

lemma cgi_child_runs:
  assumes "same_file w (cp_cgi_path p) cgi" "same_file w (cp_script_file p) (cp_script_file p)"
  shows "\<exists>dirs name. cgi_child w req env cgi p write_end body_fd
      = launch req env (cp_cgi_path p) (cp_need_stdin p) write_end body_fd dirs name
    \<and> script_place (cp_script_file p) dirs name"
proof (cases "str_rfind (\<lambda>c. c = SLASH) (cp_script_file p)")
  case None
  then have "SLASH \<notin> set (cp_script_file p)" by (auto simp: str_rfind_def find_idx_None_iff)
  with None assms show ?thesis
    by (intro exI [of _ "[]"] exI [of _ "cp_script_file p"]) (simp add: cgi_child_def launch_def script_place_def)
next
  case (Some i)
  note r = rfind_split [OF Some]
  let ?d = "take i (cp_script_file p)" and ?b = "drop (Suc i) (cp_script_file p)"
  have "drop i (cp_script_file p) = SLASH # ?b"
    by (subst r(1)) (use Some in \<open>auto simp: str_rfind_def dest: find_idx_less\<close>)
  then have "cgi_child w req env cgi p write_end body_fd
      = launch req env (cp_cgi_path p) (cp_need_stdin p) write_end body_fd [Chdir (c_str ?d)] (''./'' @ ?b)"
    using assms Some by (simp add: cgi_child_def launch_def)
  moreover have "script_place (cp_script_file p) [Chdir (c_str ?d)] (''./'' @ ?b)"
    using r unfolding script_place_def by blast
  ultimately show ?thesis by blast
qed


section \<open>Concrete instances\<close>

definition cgi_server :: server where
  \<comment> \<open>\<open>location /cgi { cgi_ext .py; cgi_path /bin/py; }\<close> below the root \<open>/www\<close>\<close>
  "cgi_server = Server_new\<lparr>srv_root := ''/www'',
     srv_locations := [Location_new\<lparr>loc_path := ''/cgi'', loc_cgi_map := [(''.py'', ''/bin/py'')]\<rparr>]\<rparr>"

definition cgi_location :: location where
  "cgi_location = Location_new\<lparr>loc_path := ''/cgi'', loc_cgi_map := [(''.py'', ''/bin/py'')]\<rparr>"



end
