(* ===== verification/Loop_State.thy ===== *)
theory Loop_State
  imports Responses Cgi_Output Cgi_Launch
begin

text \<open>
  The state of the event loop and the operations that register, re-arm and release
  descriptors: \<open>EventRef\<close> (\<open>Headers/EventRef.hpp\<close>), \<open>ConnectionManager\<close>
  (\<open>src/ConnectionManager.cpp\<close>), the registration functions of \<open>src/EventLoop/EventLoop.cpp\<close>
  and \<open>EventLoop_helper.cpp\<close>, and the CGI clean-up of \<open>cgi/CgiCleanning.cpp\<close>.

  Objects that the code reaches through pointers are found by their key: a connection by its
  descriptor, an \<open>EventRef\<close> by its address in \<open>lp_heap\<close>.  A use of a connection or of an
  \<open>EventRef\<close> that has been deleted is the failure \<open>MemFault\<close>.  The answers of the operating system during one event
  are the record \<open>loop_env\<close>; the clock does not advance within an event.  What the kernel
  keeps for \<open>epoll\<close> (which descriptor carries which pointer and flags) is \<open>lp_interest\<close>.
\<close>

section \<open>State\<close>

datatype EventKind = EV_INVALID | EV_SERVER | EV_CLIENT | EV_CGI | EV_CGI_STDIN

record event_ref =
  er_kind :: EventKind
  er_fd :: int

datatype loop_call =
    Sys sys_call
  | Fs fs_call
  | Kill int                              \<comment> \<open>\<open>kill(pid, SIGKILL)\<close>\<close>
  | Fork int "child_call list"            \<comment> \<open>what \<open>fork\<close> returned and what the child does\<close>
  | TmpOpen string int                    \<comment> \<open>a spool file was opened with this descriptor\<close>
  | TmpWrite int string                   \<comment> \<open>bytes written to a spool file\<close>

record event_loop =
  lp_running :: bool
  lp_stopped :: bool
  lp_server_fds :: "int list"
  lp_server_configs :: "server list"
  lp_jobs :: "(int, cgi_job) omap"
  lp_stdin_jobs :: "(int, int) omap"      \<comment> \<open>descriptor to the \<open>result_fd\<close> of its job\<close>
  lp_refs :: "(int, nat) omap"
  lp_heap :: "(nat, event_ref) omap"      \<comment> \<open>the allocated \<open>EventRef\<close>s by address\<close>
  lp_next :: nat                          \<comment> \<open>the next address \<open>new\<close> returns\<close>
  lp_stale :: "nat list"
  lp_pending :: "(int \<times> int) list"
  lp_conns :: "(int, connection) omap"
  lp_max_connections :: int
  lp_conn_counter :: int                  \<comment> \<open>\<open>static int counter\<close> of \<open>addConnection\<close>\<close>
  lp_tmp_counter :: nat                   \<comment> \<open>\<open>static unsigned long counter\<close> of the spooler\<close>
  lp_upload_counter :: int                \<comment> \<open>\<open>static\<close> counter of the response handler\<close>
  lp_interest :: "(int, nat \<times> epoll_flag list) omap"
  lp_trace :: "loop_call list"

datatype read_result = ReadData string | ReadEnd | ReadFail

record accepted =
  ac_fd :: int
  ac_nonblock_ok :: bool                  \<comment> \<open>\<open>_setNonBlocking\<close> succeeds\<close>

record loop_env =
  le_os :: os
  le_accepts :: "accepted list"           \<comment> \<open>successive \<open>accept\<close> calls, then failure\<close>
  le_recv :: "recv_result list"           \<comment> \<open>successive \<open>recv\<close> calls, then failure\<close>
  le_send :: "int \<Rightarrow> nat option list"     \<comment> \<open>successive \<open>send\<close> calls on a descriptor, then failure\<close>
  le_read :: "int \<Rightarrow> read_result"         \<comment> \<open>\<open>read\<close> from a CGI pipe\<close>
  le_add_ok :: "int \<Rightarrow> bool"              \<comment> \<open>\<open>epoll_ctl(ADD)\<close> succeeds\<close>
  le_mod_ok :: "int \<Rightarrow> bool"              \<comment> \<open>\<open>epoll_ctl(MOD)\<close> of a registered descriptor succeeds\<close>
  le_pipe :: "(int \<times> int) option"
  le_pipe_cloexec_ok :: bool
  le_pipe_nonblock_ok :: bool
  le_fork :: int
  le_wait :: "int \<Rightarrow> int"                 \<comment> \<open>\<open>waitpid(pid, NULL, WNOHANG)\<close>\<close>
  le_tmp_open :: "string \<Rightarrow> int"
  le_tmp_reopen :: "string \<Rightarrow> int"
  le_tmp_write :: "int \<Rightarrow> nat \<Rightarrow> nat \<Rightarrow> int" \<comment> \<open>descriptor, offset and number of bytes\<close>

abbreviation now :: "loop_env \<Rightarrow> int" where
  "now e \<equiv> os_time (le_os e)"

type_synonym loop_result = "(failure \<times> event_loop) + event_loop"

definition EventLoop_new :: "int \<Rightarrow> event_loop" where
  \<comment> \<open>\<open>readSomaxconn\<close> is an argument\<close>
  "EventLoop_new somaxconn =
     \<lparr>lp_running = False, lp_stopped = False, lp_server_fds = [], lp_server_configs = [], lp_jobs = [],
      lp_stdin_jobs = [], lp_refs = [], lp_heap = [], lp_next = 0, lp_stale = [], lp_pending = [], lp_conns = [],
      lp_max_connections = max somaxconn 10000, lp_conn_counter = 0, lp_tmp_counter = 0,
      lp_upload_counter = 0, lp_interest = [], lp_trace = []\<rparr>"

definition trace :: "loop_call list \<Rightarrow> event_loop \<Rightarrow> event_loop" where
  "trace cs st = st\<lparr>lp_trace := lp_trace st @ cs\<rparr>"

section \<open>Connections\<close>

definition get_conn :: "event_loop \<Rightarrow> int \<Rightarrow> connection option" where
  "get_conn st f = omap_get (lp_conns st) f"

definition put_conn :: "int \<Rightarrow> connection \<Rightarrow> event_loop \<Rightarrow> event_loop" where
  "put_conn f c st = st\<lparr>lp_conns := omap_put f c (lp_conns st)\<rparr>"

definition with_conn :: "int \<Rightarrow> (connection \<Rightarrow> (failure \<times> connection) + connection) \<Rightarrow> event_loop \<Rightarrow> loop_result" where
  \<comment> \<open>an operation on \<open>*conn\<close>\<close>
  "with_conn f op st =
     (case get_conn st f of
        None \<Rightarrow> Inl (MemFault, st)
      | Some c \<Rightarrow> (case op c of Inl (x, c') \<Rightarrow> Inl (x, put_conn f c' st) | Inr c' \<Rightarrow> Inr (put_conn f c' st)))"

definition on_conn :: "int \<Rightarrow> (connection \<Rightarrow> connection) \<Rightarrow> event_loop \<Rightarrow> loop_result" where
  "on_conn f op = with_conn f (\<lambda>c. Inr (op c))"

definition use_conn :: "int \<Rightarrow> (connection \<Rightarrow> event_loop \<Rightarrow> (failure \<times> event_loop) + 'a) \<Rightarrow> event_loop \<Rightarrow> (failure \<times> event_loop) + 'a" where
  \<comment> \<open>reads \<open>*conn\<close>\<close>
  "use_conn f k st = (case get_conn st f of None \<Rightarrow> Inl (MemFault, st) | Some c \<Rightarrow> k c st)"

definition send_error :: "loop_env \<Rightarrow> int \<Rightarrow> int \<Rightarrow> event_loop \<Rightarrow> loop_result" where
  \<comment> \<open>\<open>_responder.sendError(code, *conn->config(), conn->writeBuffer())\<close>\<close>
  "send_error e code f =
     with_conn f (\<lambda>c. rbind (with_state c (sendError (le_os e) code (config c) (write_buffer c)))
       (\<lambda>wb. Inr (c\<lparr>write_buffer := wb\<rparr>)))"

definition closeConnection :: "int \<Rightarrow> event_loop \<Rightarrow> event_loop" where
  "closeConnection f st =
     (case get_conn st f of
        None \<Rightarrow> st
      | Some c \<Rightarrow>
          let r = request c;
              st = (if opened_file r > 0
                    then trace [Sys (SysClose (opened_file r)), Sys (SysRemove (c_str (tmp_body_path r)))] st else st)
          in trace [Sys (SysClose f)]
               (st\<lparr>lp_interest := omap_erase f (lp_interest st), lp_conns := omap_erase f (lp_conns st)\<rparr>))"

datatype added = Tracked int event_loop | NotAccepted event_loop

definition addConnection :: "loop_env \<Rightarrow> server \<Rightarrow> accepted option \<Rightarrow> event_loop \<Rightarrow> added" where
  \<comment> \<open>\<open>None\<close>: \<open>accept\<close> fails\<close>
  "addConnection e cfg a st =
     (if int (length (lp_conns st)) \<ge> lp_max_connections st then NotAccepted st
      else case a of
        None \<Rightarrow> NotAccepted st
      | Some x \<Rightarrow>
          if \<not> ac_nonblock_ok x then NotAccepted (trace [Sys (SysClose (ac_fd x))] st)
          else
            let c = (Connection_new (now e) (ac_fd x) cfg)\<lparr>conn_num := lp_conn_counter st\<rparr>;
                st = st\<lparr>lp_conn_counter := lp_conn_counter st + 1\<rparr>;
                st = (if get_conn st (ac_fd x) \<noteq> None
                      then trace [Sys (SysClose (ac_fd x))]
                             (st\<lparr>lp_interest := omap_erase (ac_fd x) (lp_interest st),
                                 lp_conns := omap_erase (ac_fd x) (lp_conns st)\<rparr>)
                      else st)
            in Tracked (ac_fd x) (put_conn (ac_fd x) c st))"

definition getTimedOutFds :: "loop_env \<Rightarrow> event_loop \<Rightarrow> int list" where
  "getTimedOutFds e st =
     map fst (filter (\<lambda>(_, c). state c \<noteq> CSTATE_CGI_RUNNING \<and> isTimedOut (now e) (srv_timeout_seconds (config c)) c)
       (lp_conns st))"

section \<open>Event registrations\<close>

definition registerEventFd :: "loop_env \<Rightarrow> int \<Rightarrow> EventKind \<Rightarrow> epoll_flag list \<Rightarrow> event_loop \<Rightarrow> loop_result" where
  "registerEventFd e f kind flags st =
     (let ref = lp_next st;
          st = st\<lparr>lp_next := ref + 1, lp_heap := omap_put ref \<lparr>er_kind = kind, er_fd = f\<rparr> (lp_heap st),
                  lp_refs := omap_put f ref (lp_refs st)\<rparr>
      in if \<not> le_add_ok e f then Inl (RuntimeError, st)
         else Inr (st\<lparr>lp_interest := omap_put f (ref, flags) (lp_interest st)\<rparr>))"

definition invalidate :: "nat \<Rightarrow> event_loop \<Rightarrow> loop_result" where
  \<comment> \<open>\<open>ref->kind = EV_INVALID\<close>\<close>
  "invalidate ref st =
     (case omap_get (lp_heap st) ref of
        None \<Rightarrow> Inl (MemFault, st)
      | Some r \<Rightarrow> Inr (st\<lparr>lp_heap := omap_put ref (r\<lparr>er_kind := EV_INVALID\<rparr>) (lp_heap st)\<rparr>))"

definition unregisterEventFd :: "int \<Rightarrow> event_loop \<Rightarrow> loop_result" where
  "unregisterEventFd f st =
     (let st = st\<lparr>lp_interest := omap_erase f (lp_interest st)\<rparr> in
      case omap_get (lp_refs st) f of
        None \<Rightarrow> Inr st
      | Some ref \<Rightarrow> rbind (invalidate ref st) (\<lambda>st.
          Inr (st\<lparr>lp_stale := lp_stale st @ [ref], lp_refs := omap_erase f (lp_refs st)\<rparr>)))"

definition modifyEventFd :: "loop_env \<Rightarrow> int \<Rightarrow> epoll_flag list \<Rightarrow> event_loop \<Rightarrow> loop_result" where
  \<comment> \<open>the parameter \<open>kind\<close> is unused; \<open>EPOLL_CTL_MOD\<close> fails for a descriptor that is not registered\<close>
  "modifyEventFd e f flags st =
     (case omap_get (lp_refs st) f of
        None \<Rightarrow> Inr st
      | Some ref \<Rightarrow>
          (case omap_get (lp_heap st) ref of
             None \<Rightarrow> Inl (MemFault, st)
           | Some r \<Rightarrow>
               if er_kind r = EV_INVALID then Inr st
               else if omap_get (lp_interest st) f \<noteq> None \<and> le_mod_ok e f
               then Inr (st\<lparr>lp_interest := omap_put f (ref, flags) (lp_interest st)\<rparr>)
               else Inr (closeConnection f st)))"

definition rearmClient :: "loop_env \<Rightarrow> int \<Rightarrow> event_loop \<Rightarrow> loop_result" where
  "rearmClient e f st =
     (case get_conn st f of None \<Rightarrow> Inr st | Some c \<Rightarrow> modifyEventFd e f (buildEpollEvent c) st)"

definition write_and_rearm :: "loop_env \<Rightarrow> int \<Rightarrow> event_loop \<Rightarrow> loop_result" where
  \<comment> \<open>\<open>conn->setWriting(); _rearmClient(conn->fd())\<close>\<close>
  "write_and_rearm e f st = rbind (on_conn f setWriting st) (rearmClient e f)"

section \<open>CGI jobs\<close>

definition put_job :: "int \<Rightarrow> cgi_job \<Rightarrow> event_loop \<Rightarrow> event_loop" where
  "put_job f j st = st\<lparr>lp_jobs := omap_put f j (lp_jobs st)\<rparr>"

definition closeCgiStdin :: "int \<Rightarrow> cgi_job \<Rightarrow> event_loop \<Rightarrow> loop_result" where
  "closeCgiStdin rfd job st =
     (if j_stdin_fd job < 0 then Inr st
      else
        let f = j_stdin_fd job in
        rbind (unregisterEventFd f (st\<lparr>lp_stdin_jobs := omap_erase f (lp_stdin_jobs st)\<rparr>)) (\<lambda>st.
          Inr (put_job rfd (job\<lparr>j_stdin_fd := -1\<rparr>) (trace [Sys (SysClose f)] st))))"

definition closeCgiJob :: "loop_env \<Rightarrow> int \<Rightarrow> event_loop \<Rightarrow> loop_result" where
  "closeCgiJob e rfd st =
     (case omap_get (lp_jobs st) rfd of
        None \<Rightarrow> Inr st
      | Some job \<Rightarrow>
          rbind (closeCgiStdin rfd job st) (\<lambda>st.
            let st = (if j_child_pid job > 0 \<and> le_wait e (j_child_pid job) = 0
                      then trace [Kill (j_child_pid job)]
                             (st\<lparr>lp_pending := lp_pending st @ [(j_child_pid job, now e)]\<rparr>)
                      else st)
            in rbind (unregisterEventFd rfd st) (\<lambda>st.
                 Inr (trace [Sys (SysClose rfd)] (st\<lparr>lp_jobs := omap_erase rfd (lp_jobs st)\<rparr>)))))"

fun closeCgiJobs :: "loop_env \<Rightarrow> int list \<Rightarrow> event_loop \<Rightarrow> loop_result" where
  "closeCgiJobs e [] st = Inr st"
| "closeCgiJobs e (f # fs) st = rbind (closeCgiJob e f st) (closeCgiJobs e fs)"

definition jobs_of_client :: "int \<Rightarrow> event_loop \<Rightarrow> int list" where
  "jobs_of_client f st = map fst (filter (\<lambda>(_, j). j_client_fd j = f) (lp_jobs st))"

definition closeCgiJobsForClient :: "loop_env \<Rightarrow> int \<Rightarrow> event_loop \<Rightarrow> loop_result" where
  "closeCgiJobsForClient e f st = closeCgiJobs e (jobs_of_client f st) st"

definition closeClient :: "loop_env \<Rightarrow> int \<Rightarrow> event_loop \<Rightarrow> loop_result" where
  "closeClient e f st =
     rbind (closeCgiJobsForClient e f st) (\<lambda>st.
     rbind (unregisterEventFd f st) (\<lambda>st. Inr (closeConnection f st)))"

definition append_to :: "int \<Rightarrow> string \<Rightarrow> event_loop \<Rightarrow> loop_result" where
  \<comment> \<open>\<open>conn->writeBuffer().append(..)\<close>\<close>
  "append_to f s = with_conn f (\<lambda>c. rbind (with_state c (Buffer_append (write_buffer c) s))
     (\<lambda>wb. Inr (c\<lparr>write_buffer := wb\<rparr>)))"

definition finishCgiJob :: "loop_env \<Rightarrow> int \<Rightarrow> event_loop \<Rightarrow> loop_result" where
  "finishCgiJob e rfd st =
     (case omap_get (lp_jobs st) rfd of
        None \<Rightarrow> Inr st
      | Some job \<Rightarrow>
          let f = j_client_fd job; conn = get_conn st f in
          if \<not> j_headers_sent job then
            rbind (case conn of
                     None \<Rightarrow> Inr st
                   | Some _ \<Rightarrow> rbind (send_error e 502 f st) (write_and_rearm e f))
              (closeCgiJob e rfd)
          else
            rbind (case conn of
                     None \<Rightarrow> Inr st
                   | Some c \<Rightarrow> if req_method (request c) \<noteq> ''HEAD'' then append_to f last_chunk st else Inr st) (\<lambda>st.
            rbind (closeCgiJob e rfd st) (\<lambda>st.
              if conn = None then Inr st
              else use_conn f (\<lambda>_. write_and_rearm e f) st)))"

definition failCgiJob :: "loop_env \<Rightarrow> int \<Rightarrow> int \<Rightarrow> event_loop \<Rightarrow> loop_result" where
  "failCgiJob e rfd code st =
     (case omap_get (lp_jobs st) rfd of
        None \<Rightarrow> Inr st
      | Some job \<Rightarrow>
          let f = j_client_fd job in
          rbind (case get_conn st f of
                   None \<Rightarrow> Inr st
                 | Some _ \<Rightarrow>
                     rbind (if \<not> j_headers_sent job then send_error e code f st
                            else rbind (append_to f last_chunk st)
                                   (on_conn f (map_request (set_header ''connection'' ''close''))))
                       (write_and_rearm e f))
            (closeCgiJob e rfd))"

fun failCgiJobs :: "loop_env \<Rightarrow> int list \<Rightarrow> int \<Rightarrow> event_loop \<Rightarrow> loop_result" where
  "failCgiJobs e [] code st = Inr st"
| "failCgiJobs e (f # fs) code st = rbind (failCgiJob e f code st) (failCgiJobs e fs code)"

definition timedOutJobs :: "loop_env \<Rightarrow> event_loop \<Rightarrow> int list" where
  "timedOutJobs e st = map fst (filter (\<lambda>(_, j). now e - j_start_time j > j_timeout_seconds j) (lp_jobs st))"

definition closeTimedOutCgiJobs :: "loop_env \<Rightarrow> event_loop \<Rightarrow> loop_result" where
  "closeTimedOutCgiJobs e st = failCgiJobs e (timedOutJobs e st) 504 st"

definition REAP_STALE_SECONDS :: int where "REAP_STALE_SECONDS = 60"

definition reapPending :: "loop_env \<Rightarrow> event_loop \<Rightarrow> event_loop" where
  "reapPending e st =
     st\<lparr>lp_pending := filter (\<lambda>(pid, since). \<not> now e - since > REAP_STALE_SECONDS \<and> le_wait e pid = 0) (lp_pending st)\<rparr>"

end
