(* ===== verification/Event_Loop.thy ===== *)
theory Event_Loop
  imports Loop_State
begin

text \<open>
  The handlers of the event loop: the spooling of CGI request bodies, \<open>_tryDispatchComplete\<close>,
  \<open>_handleRead\<close>, \<open>_handleWrite\<close>, \<open>_handleAccept\<close> and \<open>_handleClientEvent\<close> of
  \<open>src/EventLoop/EventLoop_helper_handlers.cpp\<close>, \<open>_ApiStartCgi\<close> and \<open>_handleCgiEvent\<close> of
  \<open>EventLoop_helper_cgi.cpp\<close>, and \<open>_dispatch\<close>, the time-outs and one turn of \<open>run\<close> of
  \<open>EventLoop.cpp\<close>.  A handler maps a state to a state, or to the exception it throws and the
  state reached.
\<close>

section \<open>Spooling the body of a CGI request\<close>

definition isBodyFullySpooled :: "connection \<Rightarrow> bool" where
  "isBodyFullySpooled c =
     (let req = request c in
      if \<not> expectsBody req then True
      else if pathRequiresCgiBodySpool req (config c) then
        (if \<not> Buffer_empty (body req) then False
         else if parse_state req \<noteq> PSTATE_COMPLETE then False
         else if body_file_written req = 0 \<or> body_file_written req \<noteq> written req then False
         else if content_length req > 0 \<and> body_file_written req < content_length req then False
         else True)
      else if chunked req then parse_state req = PSTATE_COMPLETE
      else if content_length req > 0 then written req \<ge> content_length req
      else if req_method req = ''POST'' then parse_state req = PSTATE_COMPLETE \<and> written req > 0
      else True)"

definition cleanupBodyTmpFile :: "http_request \<Rightarrow> loop_call list \<times> http_request" where
  "cleanupBodyTmpFile req =
     ((if opened_file req \<ge> 0 then [Sys (SysClose (opened_file req))] else [])
        @ (if tmp_body_path req \<noteq> [] then [Sys (SysRemove (c_str (tmp_body_path req)))] else []),
      req\<lparr>opened_file := (if opened_file req \<ge> 0 then -1 else opened_file req), tmp_body_path := [], opened := False\<rparr>)"

definition finalizeBodyTmpFile :: "loop_env \<Rightarrow> http_request \<Rightarrow> loop_call list \<times> http_request" where
  "finalizeBodyTmpFile e req =
     (if \<not> opened req \<or> opened_file req < 0 \<or> body_file_written req = 0 then ([], req)
      else
        let f = le_tmp_reopen e (c_str (tmp_body_path req));
            req' = req\<lparr>opened_file := f\<rparr>
        in ([Sys (SysClose (opened_file req))],
            if f < 0 then req'\<lparr>parse_state := PSTATE_ERROR, error_code := 500\<rparr> else req'))"

definition resumeBodyIfNeeded :: "connection \<Rightarrow> connection" where
  "resumeBodyIfNeeded c =
     (let req = request c in
      if parse_state req \<noteq> PSTATE_COMPLETE then c
      else if content_length req > 0 \<and> body_file_written req < content_length req
      then map_request (\<lambda>r. r\<lparr>parse_state := PSTATE_BODY\<rparr>) c
      else if \<not> chunked req \<and> content_length req = 0 \<and> req_method req = ''POST'' \<and> \<not> Buffer_empty (read_buffer c)
      then map_request (\<lambda>r. r\<lparr>parse_state := PSTATE_BODY\<rparr>) c
      else c)"

definition maybeCompletePostWithoutLength :: "connection \<Rightarrow> connection" where
  "maybeCompletePostWithoutLength c =
     (let req = request c in
      if parse_state req \<noteq> PSTATE_BODY \<or> chunked req \<or> content_length req > 0 then c
      else if req_method req \<noteq> ''POST'' then c
      else if written req = 0 \<or> \<not> Buffer_empty (read_buffer c) then c
      else map_request (\<lambda>r. r\<lparr>parse_state := PSTATE_COMPLETE\<rparr>) c)"

definition tmp_name :: "loop_env \<Rightarrow> nat \<Rightarrow> connection \<Rightarrow> string" where
  "tmp_name e counter c =
     ''/tmp/webserv_'' @ dec_string counter @ ''_'' @ int_string (conn_num c) @ ''_'' @ int_string (now e)"

function tmp_write_loop :: "loop_env \<Rightarrow> int \<Rightarrow> nat \<Rightarrow> nat \<Rightarrow> bool \<times> nat" where
  \<comment> \<open>whether no \<open>write\<close> failed, and the offset reached\<close>
  "tmp_write_loop e f offset len =
     (if offset < len then
        let n = le_tmp_write e f offset (len - offset) in
        if n < 0 then (False, offset)
        else if n = 0 then (True, offset)
        else tmp_write_loop e f (offset + nat n) len
      else (True, offset))"
  by pat_completeness auto
termination by (relation "measure (\<lambda>(e, f, offset, len). len - offset)") auto

declare tmp_write_loop.simps [simp del]

definition open_tmp :: "loop_env \<Rightarrow> connection \<Rightarrow> event_loop \<Rightarrow> connection \<times> event_loop" where
  \<comment> \<open>the block \<open>if (!req.opened)\<close>\<close>
  "open_tmp e c st =
     (if opened (request c) then (c, st)
      else
        let st = st\<lparr>lp_tmp_counter := (lp_tmp_counter st + 1) mod 2 ^ 64\<rparr>;
            name = tmp_name e (lp_tmp_counter st) c;
            f = le_tmp_open e (c_str name);
            st = trace [TmpOpen (c_str name) f] st
        in (map_request (\<lambda>r.
              if f < 0
              then r\<lparr>tmp_body_path := [], opened_file := f, parse_state := PSTATE_ERROR, error_code := 503, opened := True\<rparr>
              else r\<lparr>tmp_body_path := name, opened_file := f, opened := True\<rparr>) c, st))"

definition flushRequestBodyToTmpFile :: "loop_env \<Rightarrow> int \<Rightarrow> event_loop \<Rightarrow> loop_result" where
  "flushRequestBodyToTmpFile e f =
     use_conn f (\<lambda>c st.
       let req = request c in
       if Buffer_empty (body req) then Inr st
       else if max_body_size req > 0 \<and> sz_add (body_file_written req) (Buffer_size (body req)) > max_body_size req
       then Inr (put_conn f (map_request (fail_req 413) c) st)
       else
         let (c, st) = open_tmp e c st in
         case Buffer_data (body (request c)) of
           Inl x \<Rightarrow> Inl (x, put_conn f c st)
         | Inr bytes \<Rightarrow>
             let (ok, offset) = tmp_write_loop e (opened_file (request c)) 0 (length bytes);
                 st = trace [TmpWrite (opened_file (request c)) (take offset bytes)] st
             in Inr (put_conn f
                  (if \<not> ok then map_request (fail_req 503) c
                   else map_request (\<lambda>r. r\<lparr>body_file_written := sz_add (body_file_written r) offset,
                                            body := Buffer_reset (body r)\<rparr>) c) st))"

section \<open>Starting a script\<close>

definition pipe_failed :: "loop_env \<Rightarrow> int \<Rightarrow> event_loop \<Rightarrow> loop_result" where
  "pipe_failed e f st = rbind (send_error e 500 f st) (write_and_rearm e f)"

definition new_job :: "loop_env \<Rightarrow> int \<Rightarrow> int \<Rightarrow> event_loop \<Rightarrow> loop_result" where
  \<comment> \<open>the \<open>try\<close> block: \<open>new CgiJob\<close>, \<open>_addCgiFd\<close>, \<open>_cgi_jobs[..] = job\<close>\<close>
  "new_job e f rfd =
     use_conn f (\<lambda>c st.
       case registerEventFd e rfd EV_CGI [EPOLLIN, EPOLLET, EPOLLHUP, EPOLLERR] st of
         Inl (x, st) \<Rightarrow> Inl (x, trace [Sys (SysClose rfd)] st)
       | Inr st \<Rightarrow> Inr (put_job rfd
           (CgiJob_new (now e) f rfd CGI_HEADER_BUF_LIMIT (srv_timeout_seconds (config c))) st))"

definition release_body :: "int \<Rightarrow> http_request \<Rightarrow> loop_call list \<times> http_request" where
  \<comment> \<open>after \<open>startCgi\<close>: the parent's copy of the body file is closed and its name removed\<close>
  "release_body body_fd req =
     ((if body_fd \<ge> 0 then [Sys (SysClose body_fd)] else [])
        @ (if tmp_body_path req \<noteq> [] then [Sys (SysRemove (c_str (tmp_body_path req)))] else []),
      (if body_fd \<ge> 0 then req\<lparr>opened_file := -1, opened := False\<rparr> else req)\<lparr>tmp_body_path := []\<rparr>)"

definition fork_trace :: "loop_env \<Rightarrow> http_request \<Rightarrow> server \<Rightarrow> location \<Rightarrow> string \<Rightarrow> string \<Rightarrow> int \<Rightarrow> int \<Rightarrow> loop_call list" where
  "fork_trace e req cfg loc script ip body_fd write_fd =
     (case cgi_checks (le_os e) req cfg loc script body_fd of
        None \<Rightarrow> []
      | Some (cgi, p) \<Rightarrow>
          [Fork (le_fork e) (cgi_child (le_os e) req (buildCgiEnvironment script ip req cfg) cgi p write_fd body_fd)])"

definition run_script :: "loop_env \<Rightarrow> int \<Rightarrow> location \<Rightarrow> string \<Rightarrow> int \<Rightarrow> int \<Rightarrow> event_loop \<Rightarrow> loop_result" where
  \<comment> \<open>\<open>_ApiStartCgi\<close> once the job exists and the client has been re-armed\<close>
  "run_script e f loc script rfd wfd =
     use_conn f (\<lambda>c st.
       let req = request c;
           body_fd = opened_file req;
           (ok, pid) = startCgi (le_os e) (le_fork e) req (config c) loc script body_fd;
           (calls, req') = release_body body_fd req;
           st = trace (fork_trace e req (config c) loc script (client_ip c) body_fd wfd @ [Sys (SysClose wfd)] @ calls)
                  (put_conn f (c\<lparr>request := req'\<rparr>) st)
       in if ok then
            (case omap_get (lp_jobs st) rfd of
               None \<Rightarrow> Inl (MemFault, st)
             | Some job \<Rightarrow> Inr (put_job rfd (job\<lparr>j_child_pid := pid\<rparr>) st))
          else
            rbind (closeCgiJob e rfd st) (\<lambda>st.
            rbind (send_error e 502 f st) (write_and_rearm e f)))"

definition ApiStartCgi :: "loop_env \<Rightarrow> int \<Rightarrow> location \<times> string \<Rightarrow> event_loop \<Rightarrow> loop_result" where
  "ApiStartCgi e f info st =
     (case le_pipe e of
        None \<Rightarrow> pipe_failed e f st
      | Some (rfd, wfd) \<Rightarrow>
          if \<not> le_pipe_cloexec_ok e \<or> \<not> le_pipe_nonblock_ok e
          then pipe_failed e f (trace [Sys (SysClose rfd), Sys (SysClose wfd)] st)
          else
            rbind (new_job e f rfd st) (\<lambda>st.
            rbind (on_conn f setCgiRunning st) (\<lambda>st.
            rbind (rearmClient e f st) (run_script e f (fst info) (snd info) rfd wfd))))"

section \<open>A complete request\<close>

definition respond :: "loop_env \<Rightarrow> int \<Rightarrow> event_loop \<Rightarrow> loop_result" where
  \<comment> \<open>\<open>_responder.handle(conn->request(), *conn->config(), conn->writeBuffer())\<close>\<close>
  "respond e f =
     use_conn f (\<lambda>c st.
       let put = (\<lambda>h. trace (map Fs (h_calls h))
             (put_conn f (c\<lparr>request := h_req h, write_buffer := h_wb h\<rparr>) (st\<lparr>lp_upload_counter := h_counter h\<rparr>)))
       in case handle (le_os e) (config c)
                 \<lparr>h_req = request c, h_wb = write_buffer c, h_counter = lp_upload_counter st, h_calls = []\<rparr> of
            Inl (x, h) \<Rightarrow> Inl (x, put h)
          | Inr h \<Rightarrow> Inr (put h))"

definition close_body_fd :: "int \<Rightarrow> event_loop \<Rightarrow> loop_result" where
  \<comment> \<open>\<open>_tryDispatchComplete\<close> after \<open>_ApiStartCgi\<close>\<close>
  "close_body_fd f =
     use_conn f (\<lambda>c st.
       let req = request c in
       if opened_file req > 0
       then Inr (trace [Sys (SysClose (opened_file req))]
                  (put_conn f (c\<lparr>request := req\<lparr>opened := False, opened_file := -1\<rparr>\<rparr>) st))
       else Inr (put_conn f (c\<lparr>request := req\<lparr>opened := False\<rparr>\<rparr>) st))"

definition on_request :: "int \<Rightarrow> (http_request \<Rightarrow> loop_call list \<times> http_request) \<Rightarrow> event_loop \<Rightarrow> loop_result" where
  "on_request f op =
     use_conn f (\<lambda>c st. let (calls, req) = op (request c) in Inr (trace calls (put_conn f (c\<lparr>request := req\<rparr>) st)))"

definition dispatch_complete :: "loop_env \<Rightarrow> int \<Rightarrow> event_loop \<Rightarrow> loop_result" where
  \<comment> \<open>\<open>_tryDispatchComplete\<close> of a request that is complete and spooled\<close>
  "dispatch_complete e f st =
     rbind (on_conn f setProcessing st) (\<lambda>st.
     rbind (use_conn f (\<lambda>c. if pathRequiresCgiBodySpool (request c) (config c)
                            then on_request f (finalizeBodyTmpFile e) else Inr) st)
       (use_conn f (\<lambda>c st.
          case resolveCgiRequest (request c) (config c) of
            Some info \<Rightarrow>
              if body_file_written (request c) > 0 \<and> opened_file (request c) < 0
              then rbind (send_error e (error_code (request c)) f st) (write_and_rearm e f)
              else rbind (ApiStartCgi e f info st) (close_body_fd f)
          | None \<Rightarrow>
              rbind (on_request f cleanupBodyTmpFile st) (\<lambda>st.
              rbind (respond e f st) (write_and_rearm e f)))))"

definition tryDispatchComplete :: "loop_env \<Rightarrow> int \<Rightarrow> event_loop \<Rightarrow> (failure \<times> event_loop) + bool \<times> event_loop" where
  "tryDispatchComplete e f =
     use_conn f (\<lambda>c st.
       if parse_state (request c) \<noteq> PSTATE_COMPLETE then Inr (False, st)
       else if \<not> isBodyFullySpooled c then Inr (False, st)
       else rbind (dispatch_complete e f st) (\<lambda>st. Inr (True, st)))"

section \<open>Reading from a client\<close>

definition read_end :: "loop_env \<Rightarrow> int \<Rightarrow> event_loop \<Rightarrow> loop_result" where
  \<comment> \<open>\<open>recv\<close> returned 0\<close>
  "read_end e f =
     use_conn f (\<lambda>c st.
       let req = request c in
       if parse_state req = PSTATE_BODY \<and> \<not> chunked req \<and> content_length req = 0 \<and> written req > 0
          \<and> pathRequiresCgiBodySpool req (config c)
       then
         rbind (flushRequestBodyToTmpFile e f st) (\<lambda>st.
         rbind (on_conn f (map_request (\<lambda>r. r\<lparr>parse_state := PSTATE_COMPLETE\<rparr>)) st) (\<lambda>st.
         rbind (tryDispatchComplete e f st) (\<lambda>(done_b, st).
           if done_b then Inr st else closeClient e f st)))
       else closeClient e f st)"

definition read_drained :: "loop_env \<Rightarrow> int \<Rightarrow> event_loop \<Rightarrow> loop_result" where
  \<comment> \<open>\<open>recv\<close> returned -1: the branch, then the code after the loop\<close>
  "read_drained e f st =
     rbind (on_conn f maybeCompletePostWithoutLength st) (\<lambda>st.
     rbind (use_conn f (\<lambda>c. if pathRequiresCgiBodySpool (request c) (config c)
                            then flushRequestBodyToTmpFile e f else Inr) st) (\<lambda>st.
     rbind (tryDispatchComplete e f st) (\<lambda>(_, st). Inr st)))"

definition parse_error :: "loop_env \<Rightarrow> int \<Rightarrow> event_loop \<Rightarrow> loop_result" where
  "parse_error e f =
     use_conn f (\<lambda>c st. rbind (send_error e (error_code (request c)) f st) (write_and_rearm e f))"

definition after_feed :: "loop_env \<Rightarrow> int \<Rightarrow> event_loop \<Rightarrow> (failure \<times> event_loop) + bool \<times> event_loop" where
  \<comment> \<open>the rest of the loop body after \<open>_parser.feed(conn)\<close>; whether the handler returned\<close>
  "after_feed e f =
     use_conn f (\<lambda>c st.
       if parse_state (request c) = PSTATE_ERROR then rbind (parse_error e f st) (\<lambda>st. Inr (True, st))
       else
         rbind (if (parse_state (request c) = PSTATE_BODY \<or> parse_state (request c) = PSTATE_COMPLETE)
                   \<and> pathRequiresCgiBodySpool (request c) (config c)
                then flushRequestBodyToTmpFile e f st else Inr st) (\<lambda>st.
         rbind (on_conn f maybeCompletePostWithoutLength st) (tryDispatchComplete e f)))"

fun read_loop :: "loop_env \<Rightarrow> int \<Rightarrow> recv_result list \<Rightarrow> event_loop \<Rightarrow> loop_result" where
  \<comment> \<open>the \<open>while (true)\<close> of \<open>_handleRead\<close> and what follows it\<close>
  "read_loop e f [] st = read_drained e f st"
| "read_loop e f (RecvFail # rs) st = read_drained e f st"
| "read_loop e f (RecvEOF # rs) st = read_end e f st"
| "read_loop e f (RecvData bytes # rs) st =
     (if bytes = [] then read_end e f st
      else
        rbind (with_conn f (\<lambda>c. with_state c (Connection_recv (now e) (RecvData bytes) c)) st) (\<lambda>st.
        rbind (on_conn f resumeBodyIfNeeded st) (\<lambda>st.
        rbind (with_conn f (feed (le_os e)) st) (\<lambda>st.
        rbind (after_feed e f st) (\<lambda>(returned, st).
          if returned then Inr st else read_loop e f rs st)))))"

definition catch_limit :: "loop_result \<Rightarrow> (event_loop \<Rightarrow> loop_result) \<Rightarrow> loop_result" where
  \<comment> \<open>\<open>catch (const BodyLimitException&)\<close>\<close>
  "catch_limit r handler =
     (case r of Inl (x, st) \<Rightarrow> if x = BodyLimitException then handler st else Inl (x, st) | Inr st \<Rightarrow> Inr st)"

definition too_much_read :: "loop_env \<Rightarrow> int \<Rightarrow> event_loop \<Rightarrow> loop_result" where
  "too_much_read e f st =
     rbind (on_conn f (map_request (set_header ''connection'' ''close'')) st) (\<lambda>st.
     rbind (send_error e 413 f st) (write_and_rearm e f))"

definition handleRead :: "loop_env \<Rightarrow> int \<Rightarrow> event_loop \<Rightarrow> loop_result" where
  "handleRead e f =
     use_conn f (\<lambda>c st.
       if state c = CSTATE_CGI_RUNNING then Inr st
       else catch_limit (read_loop e f (le_recv e) st) (too_much_read e f))"

section \<open>Output of a script\<close>

definition cgi_wrote :: "loop_env \<Rightarrow> int \<Rightarrow> event_loop \<Rightarrow> loop_result" where
  \<comment> \<open>\<open>conn->setWriting(); _rearmClient(conn->fd());\<close> and the size test after it, which changes nothing\<close>
  "cgi_wrote e f st = rbind (write_and_rearm e f st) (use_conn f (\<lambda>_. Inr))"

definition cgi_data :: "loop_env \<Rightarrow> int \<Rightarrow> cgi_job \<Rightarrow> string \<Rightarrow> event_loop \<Rightarrow> loop_result" where
  \<comment> \<open>the branch \<open>n > 0\<close>\<close>
  "cgi_data e rfd job bytes =
     (let f = j_client_fd job in
      use_conn f (\<lambda>c st.
        case cgi_block (request c) job (write_buffer c) bytes of
          Inl (x, job', wb) \<Rightarrow> Inl (x, put_conn f (c\<lparr>write_buffer := wb\<rparr>) (put_job rfd job' st))
        | Inr (turn, job', wb) \<Rightarrow>
            let st = put_conn f (c\<lparr>write_buffer := wb\<rparr>) (put_job rfd job' st) in
            if turn = CgiBadHead then failCgiJob e rfd 502 st
            else if j_headers_sent job' then cgi_wrote e f st
            else Inr st))"

definition handleCgiEvent :: "loop_env \<Rightarrow> int \<Rightarrow> event_loop \<Rightarrow> loop_result" where
  \<comment> \<open>the events only choose whether a blank line is logged\<close>
  "handleCgiEvent e rfd st =
     (if lp_stopped st then Inr st
      else case omap_get (lp_jobs st) rfd of
        None \<Rightarrow> Inr st
      | Some job \<Rightarrow>
          if j_parent_request job > LimitInternalRecursion then failCgiJob e rfd 502 st
          else case get_conn st (j_client_fd job) of
            None \<Rightarrow> closeCgiJob e rfd st
          | Some c \<Rightarrow>
              if j_headers_sent job \<and> Buffer_size (write_buffer c) \<ge> CGI_STREAM_HWM then Inr st
              else catch_limit
                (case le_read e rfd of
                   ReadData bytes \<Rightarrow> cgi_data e rfd job bytes st
                 | ReadEnd \<Rightarrow> finishCgiJob e rfd (put_job rfd (job\<lparr>j_parent_request := 0\<rparr>) st)
                 | ReadFail \<Rightarrow> Inr st)
                (\<lambda>st. if lp_stopped st then Inr st else failCgiJob e rfd 413 st))"

section \<open>Writing to a client\<close>

fun send_loop :: "loop_env \<Rightarrow> int \<Rightarrow> nat option list \<Rightarrow> event_loop \<Rightarrow> loop_result" where
  \<comment> \<open>\<open>while (!conn->writeBuffer().empty()) \<dots>\<close>\<close>
  "send_loop e f rs =
     use_conn f (\<lambda>c st.
       if Buffer_empty (write_buffer c) then Inr st
       else case rs of
         [] \<Rightarrow> Inr st
       | None # _ \<Rightarrow> Inr st
       | Some n # rs \<Rightarrow>
           rbind (with_conn f (\<lambda>c. with_state c (Connection_send (now e) (Some n) c)) st) (send_loop e f rs))"

declare send_loop.simps [simp del]

definition active_cgi :: "int \<Rightarrow> event_loop \<Rightarrow> int option" where
  \<comment> \<open>the first job of the client\<close>
  "active_cgi f st = (case jobs_of_client f st of [] \<Rightarrow> None | rfd # _ \<Rightarrow> Some rfd)"

definition pull_cgi :: "loop_env \<Rightarrow> int \<Rightarrow> int \<Rightarrow> event_loop \<Rightarrow> loop_result" where
  \<comment> \<open>the branch \<open>has_active_cgi\<close>\<close>
  "pull_cgi e f rfd =
     use_conn f (\<lambda>c st.
       if Buffer_size (write_buffer c) < CGI_STREAM_LWM then
         rbind (modifyEventFd e rfd [EPOLLIN, EPOLLET, EPOLLHUP, EPOLLERR] st) (\<lambda>st.
         rbind (handleCgiEvent e rfd st) (\<lambda>st.
           if get_conn st f = None then Inr st else write_and_rearm e f st))
       else write_and_rearm e f st)"

definition keep_or_close :: "loop_env \<Rightarrow> int \<Rightarrow> event_loop \<Rightarrow> loop_result" where
  \<comment> \<open>\<open>_handleWrite\<close> without an active script\<close>
  "keep_or_close e f st =
     (case get_conn st f of
        None \<Rightarrow> Inr st
      | Some c \<Rightarrow>
          if Buffer_empty (write_buffer c) then
            (if \<not> peer_half_closed c \<and> keepAlive (request c) then
               (let (calls, c') = setReading (now e) c in
                rearmClient e f (trace (map Sys calls) (put_conn f c' st)))
             else closeClient e f st)
          else write_and_rearm e f st)"

definition handleWrite :: "loop_env \<Rightarrow> int \<Rightarrow> event_loop \<Rightarrow> loop_result" where
  "handleWrite e f st =
     rbind (send_loop e f (le_send e f) st) (\<lambda>st.
       case active_cgi f st of
         Some rfd \<Rightarrow> pull_cgi e f rfd st
       | None \<Rightarrow> keep_or_close e f st)"

section \<open>Accepting\<close>

fun config_for :: "(int \<times> server) list \<Rightarrow> nat \<Rightarrow> (int \<times> server) list \<Rightarrow> int \<Rightarrow> server option \<Rightarrow> server option" where
  \<comment> \<open>the outer loop from index \<open>i\<close> on; the inner one leaves the last earlier server with the same host\<close>
  "config_for all i [] f conf = conf"
| "config_for all i ((sfd, cfg) # rest) f conf =
     config_for all (i + 1) rest f
       (if sfd = f
        then (case filter (\<lambda>(_, cfg'). srv_host cfg' = srv_host cfg) (take i all) of
                [] \<Rightarrow> Some cfg
              | same \<Rightarrow> Some (snd (last same)))
        else conf)"

definition configForServer :: "int \<Rightarrow> event_loop \<Rightarrow> server option" where
  "configForServer f st =
     (let all = zip (lp_server_fds st) (lp_server_configs st) in config_for all 0 all f None)"

fun accept_loop :: "loop_env \<Rightarrow> server \<Rightarrow> accepted list \<Rightarrow> event_loop \<Rightarrow> loop_result" where
  "accept_loop e cfg xs st =
     (case addConnection e cfg (case xs of [] \<Rightarrow> None | x # _ \<Rightarrow> Some x) st of
        NotAccepted st \<Rightarrow> Inr st
      | Tracked f st \<Rightarrow>
          (case xs of
             [] \<Rightarrow> Inr st
           | _ # xs \<Rightarrow>
               rbind (on_conn f (hold_cofiguration (lp_server_configs st)) st) (\<lambda>st.
                 case registerEventFd e f EV_CLIENT [EPOLLIN, EPOLLET, EPOLLRDHUP] st of
                   Inl (x, st) \<Rightarrow> accept_loop e cfg xs (closeConnection f st)
                 | Inr st \<Rightarrow> accept_loop e cfg xs st)))"

declare accept_loop.simps [simp del]

definition handleAccept :: "loop_env \<Rightarrow> int \<Rightarrow> event_loop \<Rightarrow> loop_result" where
  \<comment> \<open>a listener without configuration is a null dereference in \<open>new Connection\<close>\<close>
  "handleAccept e sfd st =
     (case configForServer sfd st of
        None \<Rightarrow> Inl (MemFault, st)
      | Some cfg \<Rightarrow> accept_loop e cfg (le_accepts e) st)"

section \<open>Dispatching events\<close>

definition handleClientEvent :: "loop_env \<Rightarrow> int \<Rightarrow> epoll_flag list \<Rightarrow> event_loop \<Rightarrow> loop_result" where
  "handleClientEvent e f flags st =
     (case get_conn st f of
        None \<Rightarrow> Inr st
      | Some c \<Rightarrow>
          if EPOLLERR \<in> set flags \<or> EPOLLHUP \<in> set flags then closeClient e f st
          else if EPOLLRDHUP \<in> set flags then
            (if Buffer_empty (write_buffer c) \<or> jobs_of_client f st \<noteq> [] then closeClient e f st
             else on_conn f setPeerHalfClosed st)
          else if EPOLLIN \<in> set flags then handleRead e f st
          else if EPOLLOUT \<in> set flags then handleWrite e f st
          else Inr st)"

definition dispatch :: "loop_env \<Rightarrow> nat \<times> epoll_flag list \<Rightarrow> event_loop \<Rightarrow> loop_result" where
  \<comment> \<open>an event is the pointer given to \<open>epoll_ctl\<close> and its flags\<close>
  "dispatch e ev st =
     (if lp_stopped st then Inr st
      else case omap_get (lp_heap st) (fst ev) of
        None \<Rightarrow> Inl (MemFault, st)
      | Some ref \<Rightarrow>
          (case er_kind ref of
             EV_SERVER \<Rightarrow> handleAccept e (er_fd ref) st
           | EV_CGI \<Rightarrow> handleCgiEvent e (er_fd ref) st
           | EV_CLIENT \<Rightarrow> handleClientEvent e (er_fd ref) (snd ev) st
           | EV_INVALID \<Rightarrow> Inr st
           | EV_CGI_STDIN \<Rightarrow> Inr st))"

fun dispatch_all :: "(loop_env \<times> nat \<times> epoll_flag list) list \<Rightarrow> event_loop \<Rightarrow> loop_result" where
  \<comment> \<open>every event meets the operating system in a state of its own\<close>
  "dispatch_all [] st = Inr st"
| "dispatch_all ((e, ev) # evs) st = rbind (dispatch e ev st) (dispatch_all evs)"

section \<open>One turn of \<open>run\<close>\<close>

definition delete_stale :: "event_loop \<Rightarrow> loop_result" where
  \<comment> \<open>deleting an \<open>EventRef\<close> twice, or one that does not exist, is a fault\<close>
  "delete_stale st =
     (if distinct (lp_stale st) \<and> set (lp_stale st) \<subseteq> fst ` set (lp_heap st)
      then Inr (st\<lparr>lp_heap := filter (\<lambda>(a, _). a \<notin> set (lp_stale st)) (lp_heap st), lp_stale := []\<rparr>)
      else Inl (MemFault, st))"

fun closeTimedOut :: "loop_env \<Rightarrow> int list \<Rightarrow> event_loop \<Rightarrow> loop_result" where
  "closeTimedOut e [] st = Inr st"
| "closeTimedOut e (f # fs) st =
     rbind (send_error e 408 f st) (\<lambda>st.
     rbind (handleWrite e f st) (\<lambda>st.
     rbind (closeClient e f st) (closeTimedOut e fs)))"

definition closeTimedOutClients :: "loop_env \<Rightarrow> event_loop \<Rightarrow> loop_result" where
  "closeTimedOutClients e st = closeTimedOut e (getTimedOutFds e st) st"

datatype wait_result = WaitInterrupted | WaitFailed | WaitEvents "(loop_env \<times> nat \<times> epoll_flag list) list"

definition run_turn :: "loop_env \<Rightarrow> wait_result \<Rightarrow> event_loop \<Rightarrow> (failure \<times> event_loop) + bool \<times> event_loop" where
  \<comment> \<open>one iteration of the \<open>while (_running)\<close> loop; \<open>False\<close>: the loop is left\<close>
  "run_turn e w st =
     (if \<not> lp_running st then Inr (False, st)
      else case w of
        WaitInterrupted \<Rightarrow> Inr (True, st)
      | WaitFailed \<Rightarrow> Inr (False, st)
      | WaitEvents evs \<Rightarrow>
          if lp_stopped st then Inr (False, st)
          else
            rbind (dispatch_all evs st) (\<lambda>st.
            rbind (delete_stale st) (\<lambda>st.
            rbind (closeTimedOutClients e st) (\<lambda>st.
            rbind (closeTimedOutCgiJobs e st) (\<lambda>st. Inr (True, reapPending e st))))))"

section \<open>Starting and stopping\<close>

definition addServerSocket :: "loop_env \<Rightarrow> int \<Rightarrow> server \<Rightarrow> event_loop \<Rightarrow> loop_result" where
  "addServerSocket e sfd cfg st =
     registerEventFd e sfd EV_SERVER [EPOLLIN, EPOLLET]
       (st\<lparr>lp_server_fds := lp_server_fds st @ [sfd], lp_server_configs := lp_server_configs st @ [cfg]\<rparr>)"

fun start_listeners :: "loop_env \<Rightarrow> (int \<times> server) list \<Rightarrow> event_loop \<Rightarrow> event_loop option" where
  \<comment> \<open>the loop of \<open>main\<close> over the servers, each with what \<open>make_listener\<close> returned for it; \<open>None\<close>: \<open>main\<close> returns 1\<close>
  "start_listeners e [] st = Some st"
| "start_listeners e ((lfd, srv) # rest) st =
     (if lfd < 0 then None
      else case addServerSocket e lfd srv st of
        Inl _ \<Rightarrow> None
      | Inr st \<Rightarrow> start_listeners e rest st)"

definition run_start :: "event_loop \<Rightarrow> event_loop" where
  \<comment> \<open>\<open>run\<close> before its loop\<close>
  "run_start st = st\<lparr>lp_running := True\<rparr>"

definition stop_server :: "int \<Rightarrow> event_loop \<Rightarrow> event_loop" where
  "stop_server sfd st =
     (if sfd \<ge> 0 then trace [Sys (SysClose sfd)] (st\<lparr>lp_interest := omap_erase sfd (lp_interest st)\<rparr>) else st)"

definition stop :: "event_loop \<Rightarrow> event_loop" where
  \<comment> \<open>closing \<open>_epoll_fd\<close> drops the whole interest list; every registered \<open>EventRef\<close> becomes invalid\<close>
  "stop st =
     (let st = fold stop_server (lp_server_fds st) (st\<lparr>lp_running := False, lp_stopped := True\<rparr>);
          refs = map snd (lp_refs st)
      in st\<lparr>lp_server_fds := map (\<lambda>sfd. if sfd \<ge> 0 then -1 else sfd) (lp_server_fds st),
            lp_heap := map (\<lambda>(a, r). (a, if a \<in> set refs then r\<lparr>er_kind := EV_INVALID\<rparr> else r)) (lp_heap st),
            lp_interest := []\<rparr>)"

definition destroy_job :: "int \<times> cgi_job \<Rightarrow> loop_call list" where
  "destroy_job = (\<lambda>(rfd, job).
     (if rfd \<ge> 0 then [Sys (SysClose rfd)] else [])
     @ (if j_child_pid job > 0 then [Kill (j_child_pid job)] else [])
     @ (if j_stdin_fd job \<ge> 0 then [Sys (SysClose (j_stdin_fd job))] else []))"

definition destroy_ref :: "event_loop \<Rightarrow> int \<times> nat \<Rightarrow> loop_call list" where
  \<comment> \<open>the body file of the connection an \<open>EventRef\<close> stands for\<close>
  "destroy_ref st = (\<lambda>(_, a).
     case omap_get (lp_heap st) a of
       None \<Rightarrow> []
     | Some r \<Rightarrow>
         (case get_conn st (er_fd r) of
            None \<Rightarrow> []
          | Some c \<Rightarrow>
              (if opened (request c) \<and> opened_file (request c) \<ge> 0 then [Sys (SysClose (opened_file (request c)))] else [])
              @ (if tmp_body_path (request c) \<noteq> [] then [Sys (SysRemove (c_str (tmp_body_path (request c))))] else [])))"

definition EventLoop_destroy :: "event_loop \<Rightarrow> loop_call list" where
  \<comment> \<open>the calls of \<open>~EventLoop\<close>, \<open>~ConnectionManager\<close> included, but for the epoll descriptor\<close>
  "EventLoop_destroy st =
     map (Sys \<circ> SysClose) (filter (\<lambda>f. f \<ge> 0) (map fst (lp_stdin_jobs st)))
     @ concat (map destroy_job (lp_jobs st))
     @ concat (map (destroy_ref st) (lp_refs st))
     @ map (Kill \<circ> fst) (lp_pending st)
     @ map (Sys \<circ> SysClose) (filter (\<lambda>f. f \<ge> 0) (lp_server_fds st))
     @ map (\<lambda>(f, _). Sys (SysClose f)) (filter (\<lambda>(f, c). fd c \<ge> 0) (lp_conns st))"

end
