(* ===== verification/Loop_Invariants.thy ===== *)
theory Loop_Invariants
  imports Event_Loop
begin

text \<open>
  The invariant of the event loop and its preservation by every handler.  \<open>loop_inv\<close> says
  that registrations, connections, jobs and what the kernel waits for agree with each other;
  \<open>inv_except f\<close> is the same with the life cycle of client \<open>f\<close> left open, which is what
  holds inside a handler that works on \<open>f\<close>.  \<open>ends f E st r Q\<close> is the shape of every lemma:
  the operation with result \<open>r\<close> reaches \<open>Q\<close> without touching any other client, or throws an
  exception of the program (in a state with \<open>E\<close>, when the caller catches it); it never faults
  and never hangs.
\<close>

section \<open>Registrations\<close>

definition ref_at :: "event_loop \<Rightarrow> int \<Rightarrow> EventKind \<Rightarrow> bool" where
  \<comment> \<open>\<open>f\<close> is registered with a live \<open>EventRef\<close> of this kind\<close>
  "ref_at st f k \<longleftrightarrow>
     (\<exists>a fl. omap_get (lp_refs st) f = Some a \<and> omap_get (lp_interest st) f = Some (a, fl)
        \<and> omap_get (lp_heap st) a = Some \<lparr>er_kind = k, er_fd = f\<rparr>)"

definition refs_ok :: "event_loop \<Rightarrow> bool" where
  "refs_ok st \<longleftrightarrow>
     omap_ok (lp_refs st) \<and> omap_ok (lp_heap st) \<and> omap_ok (lp_interest st)
     \<and> (\<forall>f a. omap_get (lp_refs st) f = Some a \<longrightarrow>
          (\<exists>r. omap_get (lp_heap st) a = Some r \<and> er_fd r = f \<and> er_kind r \<noteq> EV_INVALID) \<and> a \<notin> set (lp_stale st))
     \<and> distinct (lp_stale st)
     \<and> (\<forall>a \<in> set (lp_stale st). \<exists>r. omap_get (lp_heap st) a = Some r \<and> er_kind r = EV_INVALID)
     \<and> (\<forall>a r. omap_get (lp_heap st) a = Some r \<longrightarrow> a < lp_next st)
     \<and> (\<forall>f a fl. omap_get (lp_interest st) f = Some (a, fl) \<longrightarrow> omap_get (lp_refs st) f = Some a)"

definition servers_ok :: "event_loop \<Rightarrow> bool" where
  "servers_ok st \<longleftrightarrow>
     length (lp_server_configs st) = length (lp_server_fds st) \<and> (\<forall>cfg \<in> set (lp_server_configs st). cfg_ok cfg)
     \<and> (\<forall>a r. omap_get (lp_heap st) a = Some r \<longrightarrow> er_kind r = EV_SERVER \<longrightarrow> er_fd r \<in> set (lp_server_fds st))"

section \<open>Connections and jobs\<close>

definition base_ok :: "connection \<Rightarrow> bool" where
  "base_ok c \<longleftrightarrow>
     buf_ok (write_buffer c) \<and> cfg_ok (config c) \<and> (\<forall>s \<in> set (configuration c). cfg_ok s)"

definition reading_ok :: "connection \<Rightarrow> bool" where
  \<comment> \<open>a connection that waits for input can be read and parsed\<close>
  "reading_ok c \<longleftrightarrow>
     (let r = request c in
      conn_ok c \<and> buf_ok (read_buffer c) \<and> parse_state r \<noteq> PSTATE_ERROR \<and> body_file_written r = spooled r
      \<and> written r \<le> max_body_size r \<and> written r < 2 ^ 61 \<and> (opened r \<longrightarrow> 0 \<le> opened_file r)
      \<and> (parse_state r = PSTATE_COMPLETE \<longrightarrow> chunked r))"

definition has_job :: "event_loop \<Rightarrow> int \<Rightarrow> bool" where
  "has_job st f \<longleftrightarrow> (\<exists>r j. omap_get (lp_jobs st) r = Some j \<and> j_client_fd j = f)"

definition live :: "event_loop \<Rightarrow> int \<Rightarrow> bool" where
  \<comment> \<open>the life cycle of client \<open>f\<close>: what it waits for fits its state, and a script is running
    exactly for those that wait for one\<close>
  "live st f \<longleftrightarrow>
     (\<forall>c. get_conn st f = Some c \<longrightarrow>
        (\<exists>a fl. omap_get (lp_interest st) f = Some (a, fl) \<and> set fl = set (buildEpollEvent c))
        \<and> (if has_job st f then state c \<in> {CSTATE_CGI_RUNNING, CSTATE_WRITING}
           else state c \<in> {CSTATE_READING, CSTATE_WRITING})
        \<and> (state c = CSTATE_READING \<longrightarrow> reading_ok c))"

lemma live_cong:
  assumes "get_conn st' g = get_conn st g" "has_job st' g = has_job st g"
    and "get_conn st g \<noteq> None \<Longrightarrow> omap_get (lp_interest st') g = omap_get (lp_interest st) g"
  shows "live st' g = live st g"
  using assms by (cases "get_conn st g") (simp_all add: live_def)

lemma live_None [simp]: "get_conn st g = None \<Longrightarrow> live st g"
  by (simp add: live_def)

definition job_ok :: "event_loop \<Rightarrow> int \<Rightarrow> cgi_job \<Rightarrow> bool" where
  "job_ok st rfd j \<longleftrightarrow>
     ref_at st rfd EV_CGI \<and> j_stdin_fd j = -1 \<and> (\<not> j_headers_sent j \<longrightarrow> buf_ok (j_buffer j))
     \<and> get_conn st (j_client_fd j) \<noteq> None"

definition core :: "event_loop \<Rightarrow> bool" where
  "core st \<longleftrightarrow>
     \<not> lp_stopped st \<and> refs_ok st \<and> servers_ok st \<and> omap_ok (lp_conns st) \<and> omap_ok (lp_jobs st)
     \<and> (\<forall>f c. get_conn st f = Some c \<longrightarrow> fd c = f \<and> base_ok c \<and> ref_at st f EV_CLIENT)
     \<and> (\<forall>rfd j. omap_get (lp_jobs st) rfd = Some j \<longrightarrow> job_ok st rfd j)
     \<and> (\<forall>r1 r2 j1 j2. omap_get (lp_jobs st) r1 = Some j1 \<longrightarrow> omap_get (lp_jobs st) r2 = Some j2
          \<longrightarrow> j_client_fd j1 = j_client_fd j2 \<longrightarrow> r1 = r2)"

lemma coreI:
  assumes "\<not> lp_stopped st" "refs_ok st" "servers_ok st" "omap_ok (lp_conns st)" "omap_ok (lp_jobs st)"
    and "\<And>f c. get_conn st f = Some c \<Longrightarrow> fd c = f \<and> base_ok c \<and> ref_at st f EV_CLIENT"
    and "\<And>rfd j. omap_get (lp_jobs st) rfd = Some j \<Longrightarrow> job_ok st rfd j"
    and "\<And>r1 r2 j1 j2. omap_get (lp_jobs st) r1 = Some j1 \<Longrightarrow> omap_get (lp_jobs st) r2 = Some j2
      \<Longrightarrow> j_client_fd j1 = j_client_fd j2 \<Longrightarrow> r1 = r2"
  shows "core st"
  unfolding core_def using assms by blast

definition inv_except :: "int \<Rightarrow> event_loop \<Rightarrow> bool" where
  "inv_except f st \<longleftrightarrow> core st \<and> (\<forall>g. g \<noteq> f \<longrightarrow> live st g)"

definition loop_inv :: "event_loop \<Rightarrow> bool" where
  "loop_inv st \<longleftrightarrow> core st \<and> (\<forall>f. live st f)"

lemma loop_inv_except: "loop_inv st \<Longrightarrow> inv_except f st"
  by (simp add: loop_inv_def inv_except_def)

lemma loop_inv_iff: "loop_inv st \<longleftrightarrow> inv_except f st \<and> live st f"
  by (auto simp: loop_inv_def inv_except_def)

section \<open>Outcomes\<close>

definition armed :: "event_loop \<Rightarrow> nat \<Rightarrow> int \<Rightarrow> bool" where
  \<comment> \<open>the kernel holds the pointer \<open>a\<close> for the descriptor \<open>x\<close>\<close>
  "armed st a x \<longleftrightarrow> (\<exists>fl. omap_get (lp_interest st) x = Some (a, fl))"

definition keeps :: "event_loop \<Rightarrow> event_loop \<Rightarrow> bool" where
  \<comment> \<open>every \<open>EventRef\<close> stays allocated and is invalidated, or stays as it was\<close>
  "keeps st st' \<longleftrightarrow>
     (\<forall>a r. omap_get (lp_heap st) a = Some r \<longrightarrow>
        (\<exists>r'. omap_get (lp_heap st') a = Some r' \<and> er_fd r' = er_fd r
           \<and> (er_kind r' = EV_INVALID \<or> r' = r \<and> (armed st a (er_fd r) \<longrightarrow> armed st' a (er_fd r)))))"

definition others :: "int \<Rightarrow> event_loop \<Rightarrow> event_loop \<Rightarrow> bool" where
  "others f st st' \<longleftrightarrow> (\<forall>g. g \<noteq> f \<longrightarrow> get_conn st' g = get_conn st g) \<and> keeps st st'"

definition thrown :: "failure \<Rightarrow> bool" where
  "thrown x \<longleftrightarrow> x = BodyLimitException \<or> x = LengthError \<or> x = RuntimeError"

definition ends :: "int \<Rightarrow> (event_loop \<Rightarrow> bool) \<Rightarrow> event_loop \<Rightarrow> (failure \<times> event_loop) + 'a \<times> event_loop
    \<Rightarrow> ('a \<Rightarrow> event_loop \<Rightarrow> bool) \<Rightarrow> bool" where
  "ends f E st r Q \<longleftrightarrow>
     (case r of
        Inr (v, st') \<Rightarrow> Q v st' \<and> others f st st'
      | Inl (x, st') \<Rightarrow> thrown x \<and> others f st st'
          \<and> (x = BodyLimitException \<longrightarrow> E st'))"

definition unit_result :: "loop_result \<Rightarrow> (failure \<times> event_loop) + unit \<times> event_loop" where
  "unit_result r = (case r of Inl x \<Rightarrow> Inl x | Inr st \<Rightarrow> Inr ((), st))"

definition ends_in :: "int \<Rightarrow> (event_loop \<Rightarrow> bool) \<Rightarrow> event_loop \<Rightarrow> loop_result \<Rightarrow> (event_loop \<Rightarrow> bool) \<Rightarrow> bool" where
  "ends_in f E st r Q \<longleftrightarrow> ends f E st (unit_result r) (\<lambda>_. Q)"

lemma keeps_same: "lp_heap st' = lp_heap st \<Longrightarrow> lp_interest st' = lp_interest st \<Longrightarrow> keeps st st'"
  by (simp add: keeps_def armed_def)

lemma keeps_trans: "keeps a b \<Longrightarrow> keeps b c \<Longrightarrow> keeps a c"
  unfolding keeps_def by fastforce

lemma others_refl [simp]: "others f st st"
  by (simp add: others_def keeps_same)

lemma others_trans: "others f a b \<Longrightarrow> others f b c \<Longrightarrow> others f a c"
  by (auto simp: others_def intro: keeps_trans)

lemma ends_in_Inr [simp]: "ends_in f E st (Inr st') Q \<longleftrightarrow> Q st' \<and> others f st st'"
  by (simp add: ends_in_def unit_result_def ends_def)

lemma ends_in_Inl: "ends_in f E st (Inl (x, st')) Q \<longleftrightarrow> thrown x \<and> others f st st' \<and> (x = BodyLimitException \<longrightarrow> E st')"
  by (simp add: ends_in_def unit_result_def ends_def)

lemma ends_bind:
  assumes "ends_in f E st r P" "\<And>st'. P st' \<Longrightarrow> others f st st' \<Longrightarrow> ends f E st' (k st') Q"
  shows "ends f E st (rbind r k) Q"
proof (cases r)
  case (Inl z)
  with assms(1) show ?thesis by (cases z) (simp add: ends_in_Inl ends_def)
next
  case (Inr st')
  with assms(1) have "P st'" "others f st st'" by simp_all
  with assms(2) [of st'] Inr show ?thesis
    by (auto simp: ends_def split: sum.splits intro: others_trans)
qed

lemma ends_in_bind:
  assumes "ends_in f E st r P" "\<And>st'. P st' \<Longrightarrow> others f st st' \<Longrightarrow> ends_in f E st' (k st') Q"
  shows "ends_in f E st (rbind r k) Q"
proof -
  have "unit_result (rbind r k) = rbind r (\<lambda>st. unit_result (k st))"
    by (cases r) (simp_all add: unit_result_def)
  with ends_bind [OF assms(1), of "\<lambda>st. unit_result (k st)" "\<lambda>_. Q"] assms(2) show ?thesis
    by (simp add: ends_in_def)
qed

lemma ends_in_bind_val:
  assumes "ends f E st r P" "\<And>v st'. P v st' \<Longrightarrow> others f st st' \<Longrightarrow> ends_in f E st' (k (v, st')) Q"
  shows "ends_in f E st (rbind r k) Q"
proof (cases r)
  case (Inl z)
  with assms(1) show ?thesis by (cases z) (simp add: ends_in_Inl ends_def)
next
  case (Inr p)
  obtain v st' where p: "p = (v, st')" by (cases p)
  with assms(1) Inr have "P v st'" "others f st st'" by (simp_all add: ends_def)
  from assms(2) [OF this] this(2) Inr p show ?thesis
    by (auto simp: ends_in_def ends_def split: sum.splits intro: others_trans)
qed

lemma ends_in_weaken: "ends_in f E st r P \<Longrightarrow> (\<And>st'. P st' \<Longrightarrow> others f st st' \<Longrightarrow> Q st') \<Longrightarrow> ends_in f E st r Q"
  by (auto simp: ends_in_def ends_def split: sum.splits)

lemma ends_in_caught:
  assumes "ends_in f E st r P" "\<And>st'. E st' \<Longrightarrow> others f st st' \<Longrightarrow> ends_in f E' st' (h st') P"
  shows "ends_in f E' st (catch_limit r h) P"
proof (cases r)
  case (Inl z)
  obtain x st' where z: "z = (x, st')" by (cases z)
  with assms(1) Inl have t: "thrown x" "others f st st'" "x = BodyLimitException \<longrightarrow> E st'" by (simp_all add: ends_in_Inl)
  show ?thesis
  proof (cases "x = BodyLimitException")
    case True
    then have "ends_in f E' st' (h st') P" using t assms(2) by blast
    then have "ends_in f E' st (h st') P"
      by (cases "h st'") (use t(2) in \<open>auto simp: ends_in_def unit_result_def ends_def intro: others_trans split: prod.splits\<close>)
    then show ?thesis using Inl z True by (simp add: catch_limit_def)
  qed (use Inl z t in \<open>simp add: catch_limit_def ends_in_Inl\<close>)
next
  case (Inr st')
  with assms(1) show ?thesis by (simp add: catch_limit_def)
qed

lemma use_conn_Some [simp]: "get_conn st f = Some c \<Longrightarrow> use_conn f k st = k c st"
  by (simp add: use_conn_def)

lemma get_put_conn [simp]: "get_conn (put_conn f c st) g = (if g = f then Some c else get_conn st g)"
  by (simp add: get_conn_def put_conn_def)

section \<open>Changes to one connection\<close>

definition same_regs :: "event_loop \<Rightarrow> event_loop \<Rightarrow> bool" where
  "same_regs st st' \<longleftrightarrow>
     lp_stopped st' = lp_stopped st \<and> lp_refs st' = lp_refs st \<and> lp_heap st' = lp_heap st \<and> lp_next st' = lp_next st
     \<and> lp_stale st' = lp_stale st \<and> lp_interest st' = lp_interest st \<and> lp_jobs st' = lp_jobs st
     \<and> lp_server_fds st' = lp_server_fds st \<and> lp_server_configs st' = lp_server_configs st"

lemma same_regs_simps [simp]:
  "same_regs st st" "same_regs st (trace cs st') = same_regs st st'" "same_regs st (put_conn f c st') = same_regs st st'"
  "same_regs st (st'\<lparr>lp_tmp_counter := n\<rparr>) = same_regs st st'" "same_regs st (st'\<lparr>lp_upload_counter := m\<rparr>) = same_regs st st'"
  by (simp_all add: same_regs_def trace_def put_conn_def)

lemma conns_simps [simp]:
  "get_conn (trace cs st) f = get_conn st f" "lp_conns (trace cs st) = lp_conns st" "lp_jobs (trace cs st) = lp_jobs st"
  "lp_conns (put_conn f c st) = omap_put f c (lp_conns st)" "lp_jobs (put_conn f c st) = lp_jobs st"
  "get_conn (put_job r j st) f = get_conn st f" "lp_jobs (put_job r j st) = omap_put r j (lp_jobs st)"
  "lp_interest (trace cs st) = lp_interest st" "lp_interest (put_conn f c st) = lp_interest st"
  "lp_interest (put_job r j st) = lp_interest st" "lp_stopped (trace cs st) = lp_stopped st"
  by (simp_all add: trace_def put_conn_def put_job_def get_conn_def)

lemma same_regs_ref_at: "same_regs st st' \<Longrightarrow> ref_at st' g k = ref_at st g k"
  by (simp add: same_regs_def ref_at_def)

lemma same_regs_live: "same_regs st st' \<Longrightarrow> get_conn st' g = get_conn st g \<Longrightarrow> live st' g = live st g"
  by (simp add: same_regs_def live_def has_job_def)

lemma same_regs_keeps: "same_regs st st' \<Longrightarrow> keeps st st'"
  by (simp add: same_regs_def keeps_same)

lemma conn_step:
  assumes "inv_except f st" "same_regs st st'" "lp_conns st' = omap_put f c (lp_conns st)" "get_conn st f \<noteq> None"
    and "fd c = f" "base_ok c"
  shows "inv_except f st' \<and> others f st st' \<and> get_conn st' f = Some c"
proof -
  have get: "get_conn st' g = (if g = f then Some c else get_conn st g)" for g
    using assms(3) by (simp add: get_conn_def)
  have core: "core st" using assms(1) by (simp add: inv_except_def)
  have ref: "ref_at st' g k = ref_at st g k" for g k using assms(2) by (rule same_regs_ref_at)
  have "core st'"
    using core assms(2-6) unfolding core_def
    by (auto simp: get ref job_ok_def same_regs_def refs_ok_def servers_ok_def split: if_splits)
  moreover have "live st' g" if "g \<noteq> f" for g
    using same_regs_live [OF assms(2), of g] get that assms(1) by (simp add: inv_except_def)
  ultimately show ?thesis using get same_regs_keeps [OF assms(2)] by (simp add: inv_except_def others_def)
qed

lemma conn_update:
  assumes "loop_inv st" "same_regs st st'" "lp_conns st' = omap_put f c' (lp_conns st)" "get_conn st f = Some c"
    and "fd c' = f" "base_ok c'" "state c' = state c" "state c = CSTATE_READING \<Longrightarrow> reading_ok c'"
  shows "loop_inv st' \<and> others f st st' \<and> get_conn st' f = Some c'"
proof -
  have s: "inv_except f st' \<and> others f st st' \<and> get_conn st' f = Some c'"
    using assms by (intro conn_step [of f st]) (simp_all add: loop_inv_except)
  have "buildEpollEvent c' = buildEpollEvent c" using assms(7) by (simp add: buildEpollEvent_def)
  moreover have "has_job st' f = has_job st f" "lp_interest st' = lp_interest st"
    using assms(2) by (simp_all add: same_regs_def has_job_def)
  moreover have "live st f" using assms(1) by (simp add: loop_inv_def)
  ultimately have "live st' f" using s assms(4,7,8) by (cases "has_job st f") (simp_all add: live_def)
  with s show ?thesis by (simp add: loop_inv_iff [of _ f])
qed

definition conn_here :: "int \<Rightarrow> event_loop \<Rightarrow> bool" where
  "conn_here f st \<longleftrightarrow> inv_except f st \<and> get_conn st f \<noteq> None"

lemma conn_hereE:
  assumes "conn_here f st"
  obtains c where "get_conn st f = Some c" "fd c = f" "base_ok c" "ref_at st f EV_CLIENT" "inv_except f st"
  using assms by (auto simp: conn_here_def inv_except_def core_def)

lemma on_conn_step:
  assumes "conn_here f st" "get_conn st f = Some c" "fd (op c) = fd c" "base_ok c \<Longrightarrow> base_ok (op c)"
  shows "\<exists>st'. on_conn f op st = Inr st' \<and> conn_here f st' \<and> others f st st' \<and> same_regs st st' \<and> get_conn st' f = Some (op c)"
proof -
  have c: "fd c = f" "base_ok c" "inv_except f st"
    using assms(1,2) by (auto elim: conn_hereE)
  have "inv_except f (put_conn f (op c) st) \<and> others f st (put_conn f (op c) st) \<and> get_conn (put_conn f (op c) st) f = Some (op c)"
    using assms(2-4) c by (intro conn_step) simp_all
  with assms(2) show ?thesis
    by (simp add: on_conn_def with_conn_def conn_here_def)
qed

lemma base_ok_simps [simp]:
  "base_ok (setWriting c) = base_ok c" "fd (setWriting c) = fd c" "state (setWriting c) = CSTATE_WRITING"
  "base_ok (setProcessing c) = base_ok c" "fd (setProcessing c) = fd c"
  "base_ok (setCgiRunning c) = base_ok c" "fd (setCgiRunning c) = fd c" "state (setCgiRunning c) = CSTATE_CGI_RUNNING"
  "base_ok (map_request g c) = base_ok c" "fd (map_request g c) = fd c"
  "base_ok (setPeerHalfClosed c) = base_ok c" "fd (setPeerHalfClosed c) = fd c"
  by (simp_all add: base_ok_def setWriting_def setProcessing_def setCgiRunning_def map_request_def setPeerHalfClosed_def)

section \<open>Re-arming\<close>

lemma modify_ok:
  assumes "core st" "ref_at st g k" "k \<noteq> EV_INVALID" "le_mod_ok e g"
  shows "\<exists>a st'. modifyEventFd e g fl st = Inr st' \<and> st' = st\<lparr>lp_interest := omap_put g (a, fl) (lp_interest st)\<rparr>
    \<and> core st' \<and> (\<forall>h. h \<noteq> g \<longrightarrow> live st' h = live st h) \<and> keeps st st'"
proof -
  obtain a fl0 where a: "omap_get (lp_refs st) g = Some a" "omap_get (lp_interest st) g = Some (a, fl0)"
      "omap_get (lp_heap st) a = Some \<lparr>er_kind = k, er_fd = g\<rparr>"
    using assms(2) by (auto simp: ref_at_def)
  let ?st = "st\<lparr>lp_interest := omap_put g (a, fl) (lp_interest st)\<rparr>"
  have ref: "ref_at ?st h k' = ref_at st h k'" for h k'
    using a by (auto simp: ref_at_def)
  have get: "get_conn ?st h = get_conn st h" for h by (simp add: get_conn_def)
  have "refs_ok ?st" using assms(1) a unfolding core_def refs_ok_def by (auto split: if_splits)
  moreover have "servers_ok ?st" using assms(1) unfolding core_def servers_ok_def by simp
  ultimately have "core ?st"
    using assms(1) unfolding core_def job_ok_def ref get by simp
  moreover have "live ?st h = live st h" if "h \<noteq> g" for h
    using that by (simp add: live_def get has_job_def)
  moreover have "modifyEventFd e g fl st = Inr ?st"
    using a assms(3,4) by (simp add: modifyEventFd_def)
  moreover have "keeps st ?st"
    using a(2) by (auto simp: keeps_def armed_def)
  ultimately show ?thesis by blast
qed

definition mods_ok :: "loop_env \<Rightarrow> bool" where
  \<comment> \<open>\<open>epoll_ctl(EPOLL_CTL_MOD)\<close> succeeds on a registered descriptor\<close>
  "mods_ok e \<longleftrightarrow> (\<forall>g. le_mod_ok e g)"

definition fits_life :: "event_loop \<Rightarrow> int \<Rightarrow> connection \<Rightarrow> bool" where
  "fits_life st f c \<longleftrightarrow>
     (if has_job st f then state c \<in> {CSTATE_CGI_RUNNING, CSTATE_WRITING} else state c \<in> {CSTATE_READING, CSTATE_WRITING})
     \<and> (state c = CSTATE_READING \<longrightarrow> reading_ok c)"

lemma rearm_ok:
  assumes "mods_ok e" "inv_except f st" "get_conn st f = Some c" "fits_life st f c"
  shows "\<exists>st'. rearmClient e f st = Inr st' \<and> loop_inv st' \<and> others f st st' \<and> get_conn st' f = Some c
    \<and> lp_jobs st' = lp_jobs st \<and> lp_conns st' = lp_conns st"
proof -
  have core: "core st" using assms(2) by (simp add: inv_except_def)
  then have "ref_at st f EV_CLIENT" using assms(3) by (auto simp: core_def)
  moreover have "le_mod_ok e f" using assms(1) by (simp add: mods_ok_def)
  ultimately obtain a st' where a: "modifyEventFd e f (buildEpollEvent c) st = Inr st'"
    "st' = st\<lparr>lp_interest := omap_put f (a, buildEpollEvent c) (lp_interest st)\<rparr>"
    "core st'" "\<forall>h. h \<noteq> f \<longrightarrow> live st' h = live st h" "keeps st st'"
    using modify_ok [OF core, of f EV_CLIENT e "buildEpollEvent c"] by auto
  have same: "lp_jobs st' = lp_jobs st" "lp_conns st' = lp_conns st" by (simp_all add: a(2))
  have get: "get_conn st' h = get_conn st h" for h by (simp add: same get_conn_def)
  have "has_job st' f = has_job st f" "omap_get (lp_interest st') f = Some (a, buildEpollEvent c)"
    by (simp_all add: a(2) has_job_def)
  then have "live st' f" using assms(3,4) by (simp add: live_def get fits_life_def split: if_splits)
  moreover have "live st' h" if "h \<noteq> f" for h
    using a(4) assms(2) that by (simp add: inv_except_def)
  ultimately have "loop_inv st'" using a(3) by (metis loop_inv_def)
  then show ?thesis using a(1,5) same assms(3) by (simp add: rearmClient_def others_def get)
qed

lemma write_and_rearm_ok:
  assumes "mods_ok e" "conn_here f st" "get_conn st f = Some c"
  shows "\<exists>st'. write_and_rearm e f st = Inr st' \<and> loop_inv st' \<and> others f st st' \<and> get_conn st' f = Some (setWriting c)
    \<and> lp_jobs st' = lp_jobs st"
proof -
  obtain st1 where st1: "on_conn f setWriting st = Inr st1" "conn_here f st1" "others f st st1" "same_regs st st1"
      "get_conn st1 f = Some (setWriting c)"
    using on_conn_step [OF assms(2,3), of setWriting] by auto
  have "fits_life st1 f (setWriting c)" by (simp add: fits_life_def)
  moreover have "inv_except f st1" using st1(2) by (simp add: conn_here_def)
  ultimately obtain st' where "rearmClient e f st1 = Inr st'" "loop_inv st'" "others f st1 st'" "get_conn st' f = Some (setWriting c)"
      "lp_jobs st' = lp_jobs st1"
    using rearm_ok [OF assms(1) _ st1(5)] by blast
  with st1 others_trans [OF st1(3)] show ?thesis
    by (simp add: write_and_rearm_def same_regs_def)
qed

definition writing_now :: "int \<Rightarrow> event_loop \<Rightarrow> bool" where
  "writing_now f st \<longleftrightarrow> loop_inv st \<and> (\<exists>c. get_conn st f = Some c \<and> state c = CSTATE_WRITING)"

lemma writing_now_here: "writing_now f st \<Longrightarrow> conn_here f st"
  by (auto simp: writing_now_def conn_here_def loop_inv_except)

definition turned :: "int \<Rightarrow> event_loop \<Rightarrow> event_loop \<Rightarrow> bool" where
  "turned f st st' \<longleftrightarrow> writing_now f st' \<and> lp_jobs st' = lp_jobs st"

lemma write_and_rearm_ends:
  assumes "mods_ok e" "conn_here f st"
  shows "ends_in f E st (write_and_rearm e f st) (turned f st)"
proof -
  obtain c where "get_conn st f = Some c" using assms(2) by (rule conn_hereE)
  with write_and_rearm_ok [OF assms] show ?thesis by (fastforce simp: writing_now_def turned_def)
qed

section \<open>Writing to a client's buffer\<close>

lemma with_conn_ends:
  assumes "conn_here f st" "\<And>st'. conn_here f st' \<Longrightarrow> same_regs st st' \<Longrightarrow> E st'"
    and "\<And>c. get_conn st f = Some c \<Longrightarrow> base_ok c \<Longrightarrow>
      (case op c of Inl (x, c') \<Rightarrow> thrown x \<and> fd c' = fd c \<and> base_ok c' | Inr c' \<Rightarrow> fd c' = fd c \<and> base_ok c' \<and> P c c')"
  shows "ends_in f E st (with_conn f op st)
    (\<lambda>st'. conn_here f st' \<and> same_regs st st' \<and> (\<exists>c c'. get_conn st f = Some c \<and> P c c' \<and> st' = put_conn f c' st))"
proof -
  obtain c where c: "get_conn st f = Some c" "fd c = f" "base_ok c" "inv_except f st"
    using assms(1) by (rule conn_hereE)
  note op = assms(3) [OF c(1,3)]
  have step: "inv_except f (put_conn f c' st) \<and> others f st (put_conn f c' st)"
    if "fd c' = fd c" "base_ok c'" for c'
    using conn_step [OF c(4), of "put_conn f c' st" c'] c that by simp
  show ?thesis
  proof (cases "op c")
    case (Inl z)
    with op c(1) step assms(2) show ?thesis by (cases z) (auto simp: with_conn_def ends_in_Inl conn_here_def)
  next
    case (Inr c')
    with op c(1) step [of c'] show ?thesis
      by (auto simp: with_conn_def conn_here_def)
  qed
qed

lemma append_thrown: "buf_ok b \<Longrightarrow> Buffer_append b s = Inl x \<Longrightarrow> thrown x"
  using append_InlD by (auto simp: thrown_def)

lemma append_conn:
  assumes "base_ok c"
  shows "case rbind (with_state c (Buffer_append (write_buffer c) s)) (\<lambda>wb. Inr (c\<lparr>write_buffer := wb\<rparr>)) of
      Inl (x, c') \<Rightarrow> thrown x \<and> fd c' = fd c \<and> base_ok c'
    | Inr c' \<Rightarrow> fd c' = fd c \<and> base_ok c' \<and> (\<exists>wb. c' = c\<lparr>write_buffer := wb\<rparr>)"
proof -
  have ok: "buf_ok (write_buffer c)" using assms by (simp add: base_ok_def)
  show ?thesis
  proof (cases "Buffer_append (write_buffer c) s")
    case (Inl x)
    with append_thrown [OF ok] assms show ?thesis by simp
  next
    case (Inr wb)
    with append_InrD [OF ok] assms show ?thesis by (auto simp: base_ok_def)
  qed
qed

definition wrote :: "int \<Rightarrow> event_loop \<Rightarrow> event_loop \<Rightarrow> bool" where
  \<comment> \<open>only the write buffer of \<open>f\<close> differs\<close>
  "wrote f st st' \<longleftrightarrow> conn_here f st' \<and> same_regs st st'
     \<and> (\<exists>c wb. get_conn st f = Some c \<and> get_conn st' f = Some (c\<lparr>write_buffer := wb\<rparr>))"

lemma send_error_ends:
  assumes "conn_here f st" "\<And>st'. conn_here f st' \<Longrightarrow> same_regs st st' \<Longrightarrow> E st'"
  shows "ends_in f E st (send_error e code f st) (wrote f st)"
  unfolding send_error_def sendError_def Let_def
  by (rule ends_in_weaken, rule with_conn_ends [where P = "\<lambda>c c'. \<exists>wb. c' = c\<lparr>write_buffer := wb\<rparr>"])
    (use assms append_conn in \<open>auto simp: wrote_def\<close>)

lemma append_to_ends:
  assumes "conn_here f st" "\<And>st'. conn_here f st' \<Longrightarrow> same_regs st st' \<Longrightarrow> E st'"
  shows "ends_in f E st (append_to f s st) (wrote f st)"
  unfolding append_to_def
  by (rule ends_in_weaken, rule with_conn_ends [where P = "\<lambda>c c'. \<exists>wb. c' = c\<lparr>write_buffer := wb\<rparr>"])
    (use assms append_conn in \<open>auto simp: wrote_def\<close>)

lemma wrote_here: "wrote f st st' \<Longrightarrow> conn_here f st'"
  by (simp add: wrote_def)

lemma error_response_ends:
  assumes "mods_ok e" "conn_here f st" "\<And>st'. conn_here f st' \<Longrightarrow> same_regs st st' \<Longrightarrow> E st'"
  shows "ends_in f E st (rbind (send_error e code f st) (write_and_rearm e f)) (turned f st)"
proof (rule ends_in_bind)
  show "ends_in f E st (send_error e code f st) (wrote f st)"
    using assms(2,3) by (rule send_error_ends)
  show "ends_in f E st' (write_and_rearm e f st') (turned f st)" if "wrote f st st'" for st'
    using ends_in_weaken [OF write_and_rearm_ends [OF assms(1) wrote_here [OF that], of E]] that
    by (auto simp: turned_def wrote_def same_regs_def)
qed

section \<open>Releasing registrations\<close>

lemma unregister_ok:
  assumes "refs_ok st" "omap_get (lp_refs st) f = Some a"
  shows "\<exists>st'. unregisterEventFd f st = Inr st' \<and> refs_ok st'
    \<and> (\<forall>g k. g \<noteq> f \<longrightarrow> ref_at st' g k = ref_at st g k)
    \<and> keeps st st'
    \<and> (\<forall>b r. omap_get (lp_heap st') b = Some r \<longrightarrow> er_kind r = EV_SERVER \<longrightarrow> omap_get (lp_heap st) b = Some r)
    \<and> (\<exists>h s rf. st' = st\<lparr>lp_interest := omap_erase f (lp_interest st), lp_heap := h, lp_stale := s, lp_refs := rf\<rparr>)"
proof -
  obtain r where r: "omap_get (lp_heap st) a = Some r" "er_fd r = f" "er_kind r \<noteq> EV_INVALID" "a \<notin> set (lp_stale st)"
    using assms by (auto simp: refs_ok_def)
  let ?r = "r\<lparr>er_kind := EV_INVALID\<rparr>"
  define st' where "st' = st\<lparr>lp_interest := omap_erase f (lp_interest st), lp_heap := omap_put a ?r (lp_heap st),
      lp_stale := lp_stale st @ [a], lp_refs := omap_erase f (lp_refs st)\<rparr>"
  have run: "unregisterEventFd f st = Inr st'"
    using assms(2) r(1) by (simp add: unregisterEventFd_def invalidate_def st'_def Let_def)
  have apart: "b \<noteq> a" if "omap_get (lp_refs st) g = Some b" "g \<noteq> f" for g b
    using assms(1) that r by (fastforce simp: refs_ok_def)
  have "refs_ok st'"
    unfolding refs_ok_def
  proof (intro conjI)
    show "omap_ok (lp_refs st')" "omap_ok (lp_heap st')" "omap_ok (lp_interest st')"
      using assms(1) by (simp_all add: st'_def refs_ok_def)
    show "\<forall>g b. omap_get (lp_refs st') g = Some b \<longrightarrow>
        (\<exists>r. omap_get (lp_heap st') b = Some r \<and> er_fd r = g \<and> er_kind r \<noteq> EV_INVALID) \<and> b \<notin> set (lp_stale st')"
      using assms(1) apart by (auto simp: st'_def refs_ok_def)
    show "distinct (lp_stale st')" using assms(1) r(4) by (simp add: st'_def refs_ok_def)
    show "\<forall>b \<in> set (lp_stale st'). \<exists>r. omap_get (lp_heap st') b = Some r \<and> er_kind r = EV_INVALID"
      using assms(1) by (auto simp: st'_def refs_ok_def)
    show "\<forall>b r. omap_get (lp_heap st') b = Some r \<longrightarrow> b < lp_next st'"
      using assms(1) r(1) by (auto simp: st'_def refs_ok_def)
    show "\<forall>g b fl. omap_get (lp_interest st') g = Some (b, fl) \<longrightarrow> omap_get (lp_refs st') g = Some b"
      using assms(1) by (auto simp: st'_def refs_ok_def)
  qed
  moreover have "ref_at st' g k = ref_at st g k" if "g \<noteq> f" for g k
    using apart [of g] that by (auto simp: ref_at_def st'_def)
  moreover have "keeps st st'"
    using r assms by (auto simp: keeps_def armed_def st'_def refs_ok_def)
  moreover have "omap_get (lp_heap st) b = Some r'" if "omap_get (lp_heap st') b = Some r'" "er_kind r' = EV_SERVER" for b r'
    using that by (auto simp: st'_def split: if_splits)
  ultimately show ?thesis using run by (auto simp: st'_def)
qed

section \<open>New registrations\<close>

lemma heap_fresh: "refs_ok st \<Longrightarrow> omap_get (lp_heap st) (lp_next st) = None"
  unfolding refs_ok_def by (metis less_irrefl option.exhaust)

lemma register_ok:
  assumes "refs_ok st" "servers_ok st" "omap_get (lp_interest st) x = None" "k \<noteq> EV_INVALID"
    and "k = EV_SERVER \<longrightarrow> x \<in> set (lp_server_fds st)"
  shows "\<exists>st' n h rf. refs_ok st' \<and> servers_ok st' \<and> keeps st st' \<and> (\<forall>g k'. g \<noteq> x \<longrightarrow> ref_at st' g k' = ref_at st g k')
    \<and> (if le_add_ok e x
       then registerEventFd e x k fl st = Inr st' \<and> ref_at st' x k
         \<and> st' = st\<lparr>lp_next := n, lp_heap := h, lp_refs := rf, lp_interest := omap_put x (lp_next st, fl) (lp_interest st)\<rparr>
       else registerEventFd e x k fl st = Inl (RuntimeError, st')
         \<and> st' = st\<lparr>lp_next := n, lp_heap := h, lp_refs := rf\<rparr>)"
proof -
  let ?a = "lp_next st" and ?r = "\<lparr>er_kind = k, er_fd = x\<rparr>"
  define i where "i = (if le_add_ok e x then omap_put x (?a, fl) (lp_interest st) else lp_interest st)"
  define st' where "st' = st\<lparr>lp_next := ?a + 1, lp_heap := omap_put ?a ?r (lp_heap st), lp_refs := omap_put x ?a (lp_refs st),
    lp_interest := i\<rparr>"
  have fresh: "omap_get (lp_heap st) ?a = None" using assms(1) by (rule heap_fresh)
  have heap: "b \<noteq> ?a" if "omap_get (lp_heap st) b = Some r" for b r using that fresh by auto
  have geti: "omap_get i y = (if y = x \<and> le_add_ok e x then Some (?a, fl) else omap_get (lp_interest st) y)" for y
    by (auto simp: i_def)
  have ok: "refs_ok st'"
    unfolding refs_ok_def
  proof (intro conjI)
    show "omap_ok (lp_refs st')" "omap_ok (lp_heap st')" "omap_ok (lp_interest st')"
      using assms(1) by (simp_all add: st'_def refs_ok_def i_def)
    have old: "\<exists>r. omap_get (lp_heap st) b = Some r \<and> er_fd r = g \<and> er_kind r \<noteq> EV_INVALID" "b \<notin> set (lp_stale st)"
      if "omap_get (lp_refs st) g = Some b" for g b
      using assms(1) that unfolding refs_ok_def by blast+
    have stale: "\<exists>r. omap_get (lp_heap st) b = Some r \<and> er_kind r = EV_INVALID" if "b \<in> set (lp_stale st)" for b
      using assms(1) that unfolding refs_ok_def by blast
    show "\<forall>g b. omap_get (lp_refs st') g = Some b \<longrightarrow>
        (\<exists>r. omap_get (lp_heap st') b = Some r \<and> er_fd r = g \<and> er_kind r \<noteq> EV_INVALID) \<and> b \<notin> set (lp_stale st')"
    proof (intro allI impI)
      fix g b assume g: "omap_get (lp_refs st') g = Some b"
      show "(\<exists>r. omap_get (lp_heap st') b = Some r \<and> er_fd r = g \<and> er_kind r \<noteq> EV_INVALID) \<and> b \<notin> set (lp_stale st')"
      proof (cases "g = x")
        case True
        then show ?thesis using g assms(4) stale [of ?a] fresh by (auto simp: st'_def)
      next
        case False
        with g have "omap_get (lp_refs st) g = Some b" by (simp add: st'_def)
        from old [OF this] heap show ?thesis by (auto simp: st'_def)
      qed
    qed
    show "distinct (lp_stale st')" using assms(1) by (simp add: st'_def refs_ok_def)
    show "\<forall>b \<in> set (lp_stale st'). \<exists>r. omap_get (lp_heap st') b = Some r \<and> er_kind r = EV_INVALID"
      using stale heap by (fastforce simp: st'_def)
    have "b < ?a" if "omap_get (lp_heap st) b = Some r" for b r using assms(1) that unfolding refs_ok_def by blast
    then show "\<forall>b r. omap_get (lp_heap st') b = Some r \<longrightarrow> b < lp_next st'"
      by (auto simp: st'_def less_Suc_eq split: if_splits)
    have "omap_get (lp_refs st) g = Some b" if "omap_get (lp_interest st) g = Some (b, fl')" for g b fl'
      using assms(1) that unfolding refs_ok_def by blast
    then show "\<forall>g b fl. omap_get (lp_interest st') g = Some (b, fl) \<longrightarrow> omap_get (lp_refs st') g = Some b"
      using assms(3) by (auto simp: st'_def geti split: if_splits)
  qed
  have servers: "servers_ok st'"
    using assms(2,5) by (auto simp: servers_ok_def st'_def split: if_splits)
  have keep: "keeps st st'"
    using heap assms(3) by (auto simp: keeps_def armed_def st'_def geti)
  have ref: "\<forall>g k'. g \<noteq> x \<longrightarrow> ref_at st' g k' = ref_at st g k'"
    using heap fresh by (auto simp: ref_at_def st'_def geti)
  show ?thesis
  proof (cases "le_add_ok e x")
    case True
    then have run: "registerEventFd e x k fl st = Inr st'" "ref_at st' x k"
      by (simp_all add: registerEventFd_def st'_def i_def ref_at_def Let_def)
    have "st' = st\<lparr>lp_next := ?a + 1, lp_heap := omap_put ?a ?r (lp_heap st), lp_refs := omap_put x ?a (lp_refs st),
        lp_interest := omap_put x (?a, fl) (lp_interest st)\<rparr>"
      using True by (simp add: st'_def i_def)
    with ok servers keep ref run show ?thesis
      unfolding if_P [OF True] by blast
  next
    case False
    then have run: "registerEventFd e x k fl st = Inl (RuntimeError, st')"
      by (simp add: registerEventFd_def st'_def i_def Let_def)
    have "st' = st\<lparr>lp_next := ?a + 1, lp_heap := omap_put ?a ?r (lp_heap st), lp_refs := omap_put x ?a (lp_refs st)\<rparr>"
      using False by (simp add: st'_def i_def)
    with ok servers keep ref run show ?thesis
      unfolding if_not_P [OF False] by blast
  qed
qed

end
