(* ===== verification/Loop_Release.thy ===== *)
theory Loop_Release
  imports Loop_Invariants
begin

text \<open>
  Releasing jobs and clients keeps the invariant of the event loop: \<open>_closeCgiJob\<close>,
  \<open>_closeCgiJobsForClient\<close>, \<open>_closeClient\<close>, \<open>_finishCgiJob\<close> and \<open>_failCgiJob\<close>.
\<close>

section \<open>Kinds and jobs\<close>

lemma ref_at_kind: "ref_at st f k \<Longrightarrow> ref_at st f k' \<Longrightarrow> k = k'"
  by (auto simp: ref_at_def)

lemma core_connD:
  assumes "core st" "get_conn st f = Some c"
  shows "fd c = f" "base_ok c" "ref_at st f EV_CLIENT"
  using assms by (auto simp: core_def)

lemma core_jobD: "core st \<Longrightarrow> omap_get (lp_jobs st) rfd = Some j \<Longrightarrow> job_ok st rfd j"
  by (simp add: core_def)

lemma job_not_conn: "core st \<Longrightarrow> omap_get (lp_jobs st) rfd = Some j \<Longrightarrow> get_conn st rfd = None"
proof (rule ccontr)
  assume "core st" "omap_get (lp_jobs st) rfd = Some j" "get_conn st rfd \<noteq> None"
  then have "ref_at st rfd EV_CGI" "ref_at st rfd EV_CLIENT" by (auto simp: core_def job_ok_def)
  then show False by (blast dest: ref_at_kind)
qed

lemma one_job:
  "core st \<Longrightarrow> omap_get (lp_jobs st) r1 = Some j1 \<Longrightarrow> omap_get (lp_jobs st) r2 = Some j2
    \<Longrightarrow> j_client_fd j1 = j_client_fd j2 \<Longrightarrow> r1 = r2"
  unfolding core_def by blast

lemma single_list:
  assumes "distinct xs" "\<And>x y. x \<in> set xs \<Longrightarrow> y \<in> set xs \<Longrightarrow> x = y"
  shows "xs = [] \<or> (\<exists>x. xs = [x])"
proof (cases xs)
  case (Cons x ys)
  then have "y = x" if "y \<in> set ys" for y using assms(2) that by simp
  moreover have "x \<notin> set ys" using assms(1) Cons by simp
  ultimately have "ys = []" by (cases ys) auto
  with Cons show ?thesis by simp
qed simp

lemma jobs_of_client_cases:
  assumes "core st"
  shows "jobs_of_client f st = [] \<and> \<not> has_job st f
    \<or> (\<exists>rfd j. jobs_of_client f st = [rfd] \<and> omap_get (lp_jobs st) rfd = Some j \<and> j_client_fd j = f)"
proof -
  have ok: "omap_ok (lp_jobs st)" using assms by (simp add: core_def)
  let ?js = "jobs_of_client f st"
  have mem: "r \<in> set ?js \<longleftrightarrow> (\<exists>j. omap_get (lp_jobs st) r = Some j \<and> j_client_fd j = f)" for r
    using ok by (force simp: jobs_of_client_def omap_get_Some_iff)
  have "distinct (map fst (lp_jobs st))"
    using ok by (simp add: omap_ok_def strict_sorted_iff)
  then have "distinct ?js" unfolding jobs_of_client_def by (rule distinct_map_filter)
  moreover have "r1 = r2" if "r1 \<in> set ?js" "r2 \<in> set ?js" for r1 r2
    using that one_job [OF assms] by (auto simp: mem)
  ultimately consider "?js = []" | r where "?js = [r]" using single_list [of ?js] by blast
  then show ?thesis
  proof cases
    case 1
    with mem show ?thesis by (auto simp: has_job_def)
  next
    case (2 r)
    with mem [of r] show ?thesis by auto
  qed
qed

lemma no_job_iff: "core st \<Longrightarrow> \<not> has_job st f \<longleftrightarrow> jobs_of_client f st = []"
  using jobs_of_client_cases [of st f] by (auto simp: has_job_def)

section \<open>Closing a descriptor\<close>

lemma omap_erase_None: "omap_get m k = None \<Longrightarrow> omap_erase k m = m"
  by (force simp: omap_erase_def omap_get_None_iff filter_id_conv)

lemma core_without:
  assumes "core st" "refs_ok st'" "servers_ok st'" "lp_stopped st' = lp_stopped st"
    and "\<And>g k. g \<noteq> x \<Longrightarrow> ref_at st' g k = ref_at st g k"
    and "lp_conns st' = omap_erase x (lp_conns st)" "lp_jobs st' = omap_erase x (lp_jobs st)"
    and "get_conn st x = None \<or> \<not> has_job st x"
  shows "core st'"
proof -
  have get: "get_conn st' g = (if g = x then None else get_conn st g)" for g
    using assms(6) by (simp add: get_conn_def)
  have job: "omap_get (lp_jobs st') r = (if r = x then None else omap_get (lp_jobs st) r)" for r
    using assms(7) by simp
  have "omap_ok (lp_conns st')" "omap_ok (lp_jobs st')" using assms(1,6,7) by (simp_all add: core_def)
  moreover have "fd c = g \<and> base_ok c \<and> ref_at st' g EV_CLIENT" if "get_conn st' g = Some c" for g c
    using that assms(1,5) by (auto simp: get core_def split: if_splits)
  moreover have "job_ok st' r j" if "omap_get (lp_jobs st') r = Some j" for r j
  proof -
    have r: "r \<noteq> x" "omap_get (lp_jobs st) r = Some j" using that job by (auto split: if_splits)
    have ok: "job_ok st r j" using core_jobD [OF assms(1) r(2)] .
    then have "j_client_fd j \<noteq> x" using assms(8) r(2) by (auto simp: job_ok_def has_job_def)
    with ok show ?thesis using assms(5) [OF r(1)] by (auto simp: job_ok_def get)
  qed
  moreover have "r1 = r2" if "omap_get (lp_jobs st') r1 = Some j1" "omap_get (lp_jobs st') r2 = Some j2"
      "j_client_fd j1 = j_client_fd j2" for r1 r2 j1 j2
    using that one_job [OF assms(1), of r1 j1 r2 j2] by (auto simp: job split: if_splits)
  ultimately show ?thesis using assms(1-4) unfolding core_def by blast
qed

lemma unregistered:
  assumes "core st" "ref_at st x k"
  shows "\<exists>st'. unregisterEventFd x st = Inr st' \<and> refs_ok st' \<and> servers_ok st' \<and> keeps st st'
    \<and> (\<forall>g k. g \<noteq> x \<longrightarrow> ref_at st' g k = ref_at st g k)
    \<and> (\<exists>h s rf. st' = st\<lparr>lp_interest := omap_erase x (lp_interest st), lp_heap := h, lp_stale := s, lp_refs := rf\<rparr>)"
proof -
  obtain a where a: "omap_get (lp_refs st) x = Some a" using assms(2) by (auto simp: ref_at_def)
  have refs: "refs_ok st" using assms(1) by (simp add: core_def)
  from unregister_ok [OF refs a] obtain st' where u: "unregisterEventFd x st = Inr st'" "refs_ok st'" "keeps st st'"
    "\<forall>g k. g \<noteq> x \<longrightarrow> ref_at st' g k = ref_at st g k"
    "\<forall>b r. omap_get (lp_heap st') b = Some r \<longrightarrow> er_kind r = EV_SERVER \<longrightarrow> omap_get (lp_heap st) b = Some r"
    "\<exists>h s rf. st' = st\<lparr>lp_interest := omap_erase x (lp_interest st), lp_heap := h, lp_stale := s, lp_refs := rf\<rparr>"
    by blast
  have "lp_server_fds st' = lp_server_fds st" "lp_server_configs st' = lp_server_configs st" using u(6) by auto
  then have "servers_ok st'" using assms(1) u(5) unfolding core_def servers_ok_def by metis
  with u show ?thesis by blast
qed

section \<open>Closing a job\<close>

lemma pending_core: "core (st\<lparr>lp_pending := p\<rparr>) = core st" "core (trace cs st) = core st"
  by (simp_all add: core_def refs_ok_def servers_ok_def job_ok_def ref_at_def get_conn_def trace_def)

lemma release_job:
  assumes "core st" "omap_get (lp_jobs st) rfd = Some j"
  shows "\<exists>st'. closeCgiJob e rfd st = Inr st' \<and> core st' \<and> lp_conns st' = lp_conns st
    \<and> lp_jobs st' = omap_erase rfd (lp_jobs st) \<and> lp_interest st' = omap_erase rfd (lp_interest st) \<and> keeps st st'"
proof -
  have job: "ref_at st rfd EV_CGI" "j_stdin_fd j = -1" using core_jobD [OF assms] by (simp_all add: job_ok_def)
  define st1 where "st1 = (if j_child_pid j > 0 \<and> le_wait e (j_child_pid j) = 0
    then trace [Kill (j_child_pid j)] (st\<lparr>lp_pending := lp_pending st @ [(j_child_pid j, now e)]\<rparr>) else st)"
  have st1: "lp_refs st1 = lp_refs st" "lp_conns st1 = lp_conns st" "lp_jobs st1 = lp_jobs st"
    "lp_interest st1 = lp_interest st" "lp_heap st1 = lp_heap st" "lp_stopped st1 = lp_stopped st"
    by (simp_all add: st1_def trace_def)
  have "core st1" using assms(1) by (simp add: st1_def pending_core)
  moreover have "ref_at st1 rfd EV_CGI" using job(1) st1 by (simp add: ref_at_def)
  ultimately obtain st2 where u: "unregisterEventFd rfd st1 = Inr st2" "refs_ok st2" "servers_ok st2" "keeps st1 st2"
    "\<forall>g k. g \<noteq> rfd \<longrightarrow> ref_at st2 g k = ref_at st1 g k"
    "\<exists>h s rf. st2 = st1\<lparr>lp_interest := omap_erase rfd (lp_interest st1), lp_heap := h, lp_stale := s, lp_refs := rf\<rparr>"
    using unregistered by blast
  define st3 where "st3 = trace [Sys (SysClose rfd)] (st2\<lparr>lp_jobs := omap_erase rfd (lp_jobs st2)\<rparr>)"
  have run: "closeCgiJob e rfd st = Inr st3"
    using assms(2) job(2) u(1) by (simp add: closeCgiJob_def closeCgiStdin_def Let_def st1_def st3_def)
  have same: "lp_conns st3 = lp_conns st" "lp_jobs st3 = omap_erase rfd (lp_jobs st)"
    "lp_interest st3 = omap_erase rfd (lp_interest st)" "lp_stopped st3 = lp_stopped st" "lp_heap st3 = lp_heap st2"
    "lp_interest st2 = lp_interest st3"
    using u(6) st1 by (auto simp: st3_def trace_def)
  have conn: "get_conn st rfd = None" using job_not_conn [OF assms] .
  have "ref_at st3 g k = ref_at st g k" if "g \<noteq> rfd" for g k
    using u(5) that st1 by (simp add: ref_at_def st3_def trace_def)
  moreover have "refs_ok st3" "servers_ok st3"
    using u(2,3) by (simp_all add: refs_ok_def servers_ok_def st3_def trace_def)
  moreover have "lp_conns st3 = omap_erase rfd (lp_conns st)"
    using conn same(1) by (simp add: omap_erase_None get_conn_def)
  ultimately have "core st3"
    using assms(1) same conn by (intro core_without [of st st3 rfd]) simp_all
  moreover have "keeps st st3"
    using u(4) st1 same(5,6) by (simp add: keeps_def armed_def)
  ultimately show ?thesis using run same by blast
qed

lemma close_job_live:
  assumes "core st" "omap_get (lp_jobs st) rfd = Some j" "core st'" "lp_conns st' = lp_conns st"
    "lp_jobs st' = omap_erase rfd (lp_jobs st)" "lp_interest st' = omap_erase rfd (lp_interest st)"
  shows "\<not> has_job st' (j_client_fd j)" "g \<noteq> j_client_fd j \<Longrightarrow> live st g \<Longrightarrow> live st' g"
    "live st (j_client_fd j) \<Longrightarrow> (\<And>c. get_conn st (j_client_fd j) = Some c \<Longrightarrow> state c = CSTATE_WRITING)
      \<Longrightarrow> live st' (j_client_fd j)"
proof -
  have get: "get_conn st' h = get_conn st h" for h using assms(4) by (simp add: get_conn_def)
  show n: "\<not> has_job st' (j_client_fd j)"
    using one_job [OF assms(1) _ assms(2)] assms(5) by (auto simp: has_job_def split: if_splits)
  have int: "omap_get (lp_interest st') h = omap_get (lp_interest st) h" if "get_conn st h \<noteq> None" for h
    using that job_not_conn [OF assms(1,2)] assms(6) by auto
  have hj: "has_job st' h = has_job st h" if "h \<noteq> j_client_fd j" for h
    using that assms(2,5) unfolding has_job_def by (metis omap_get_erase option.inject option.distinct(1))
  show "live st' g" if "g \<noteq> j_client_fd j" "live st g"
    using that hj [OF that(1)] int [of g] by (auto simp: live_def get)
  show "live st' (j_client_fd j)" if "live st (j_client_fd j)"
      "\<And>c. get_conn st (j_client_fd j) = Some c \<Longrightarrow> state c = CSTATE_WRITING"
    unfolding live_def
  proof (intro allI impI)
    fix c assume "get_conn st' (j_client_fd j) = Some c"
    then have c: "get_conn st (j_client_fd j) = Some c" by (simp add: get)
    with that(2) have "state c = CSTATE_WRITING" .
    moreover have "\<exists>a fl. omap_get (lp_interest st') (j_client_fd j) = Some (a, fl) \<and> set fl = set (buildEpollEvent c)"
      using that(1) c int [of "j_client_fd j"] by (simp add: live_def)
    ultimately show "(\<exists>a fl. omap_get (lp_interest st') (j_client_fd j) = Some (a, fl) \<and> set fl = set (buildEpollEvent c))
        \<and> (if has_job st' (j_client_fd j) then state c \<in> {CSTATE_CGI_RUNNING, CSTATE_WRITING}
           else state c \<in> {CSTATE_READING, CSTATE_WRITING})
        \<and> (state c = CSTATE_READING \<longrightarrow> reading_ok c)"
      using n by simp
  qed
qed

definition closed_job :: "int \<Rightarrow> int \<Rightarrow> event_loop \<Rightarrow> event_loop \<Rightarrow> bool" where
  \<comment> \<open>the job \<open>rfd\<close> of client \<open>f\<close> is gone, all connections are as before\<close>
  "closed_job f rfd st st' \<longleftrightarrow>
     inv_except f st' \<and> lp_conns st' = lp_conns st \<and> \<not> has_job st' f \<and> (writing_now f st \<longrightarrow> writing_now f st')
     \<and> lp_jobs st' = omap_erase rfd (lp_jobs st)"

lemma closeCgiJob_ends:
  assumes "inv_except f st" "omap_get (lp_jobs st) rfd = Some j" "j_client_fd j = f"
  shows "ends_in f E st (closeCgiJob e rfd st) (closed_job f rfd st)"
proof -
  have core: "core st" using assms(1) by (simp add: inv_except_def)
  obtain st' where st': "closeCgiJob e rfd st = Inr st'" "core st'" "lp_conns st' = lp_conns st"
    "lp_jobs st' = omap_erase rfd (lp_jobs st)" "lp_interest st' = omap_erase rfd (lp_interest st)" "keeps st st'"
    using release_job [OF core assms(2), of e] by blast
  have get: "get_conn st' h = get_conn st h" for h using st'(3) by (simp add: get_conn_def)
  note l = close_job_live [OF core assms(2) st'(2-5), unfolded assms(3)]
  have inv: "inv_except f st'" using assms(1) l(2) st'(2) by (simp add: inv_except_def)
  moreover have "writing_now f st'" if "writing_now f st"
    using that inv l(3) by (auto simp: writing_now_def get loop_inv_iff [of _ f])
  ultimately show ?thesis using st' l(1) by (simp add: closed_job_def others_def get)
qed

section \<open>Closing a client\<close>

definition gone :: "int \<Rightarrow> event_loop \<Rightarrow> bool" where
  "gone f st \<longleftrightarrow> loop_inv st \<and> get_conn st f = None \<and> omap_get (lp_refs st) f = None"

lemma close_jobs_ends:
  assumes "conn_here f st"
  shows "ends_in f E st (closeCgiJobsForClient e f st)
    (\<lambda>st'. inv_except f st' \<and> lp_conns st' = lp_conns st \<and> \<not> has_job st' f)"
proof -
  have inv: "inv_except f st" "core st" using assms by (simp_all add: conn_here_def inv_except_def)
  from jobs_of_client_cases [OF inv(2), of f] show ?thesis
  proof (elim disjE exE conjE)
    assume "jobs_of_client f st = []" "\<not> has_job st f"
    then show ?thesis using inv(1) by (simp add: closeCgiJobsForClient_def)
  next
    fix rfd j assume j: "jobs_of_client f st = [rfd]" "omap_get (lp_jobs st) rfd = Some j" "j_client_fd j = f"
    have "closeCgiJobsForClient e f st = closeCgiJob e rfd st"
      using j(1) by (cases "closeCgiJob e rfd st") (simp_all add: closeCgiJobsForClient_def)
    then show ?thesis
      using ends_in_weaken [OF closeCgiJob_ends [OF inv(1) j(2,3)]] by (auto simp: closed_job_def)
  qed
qed

lemma drop_client:
  assumes "inv_except f st" "get_conn st f \<noteq> None" "\<not> has_job st f"
  shows "ends_in f E st (rbind (unregisterEventFd f st) (\<lambda>st. Inr (closeConnection f st))) (gone f)"
proof -
  have core: "core st" and lv: "g \<noteq> f \<Longrightarrow> live st g" for g using assms(1) by (simp_all add: inv_except_def)
  obtain c where c: "get_conn st f = Some c" using assms(2) by auto
  obtain st1 where u: "unregisterEventFd f st = Inr st1" "refs_ok st1" "servers_ok st1" "keeps st st1"
    "\<forall>g k. g \<noteq> f \<longrightarrow> ref_at st1 g k = ref_at st g k"
    "\<exists>h s rf. st1 = st\<lparr>lp_interest := omap_erase f (lp_interest st), lp_heap := h, lp_stale := s, lp_refs := rf\<rparr>"
    using unregistered [OF core core_connD(3) [OF core c]] by blast
  define st2 where "st2 = closeConnection f st1"
  have c1: "get_conn st1 f = Some c" using c u(6) by (auto simp: get_conn_def)
  have i: "omap_erase f (omap_erase f m) = omap_erase f m" for m :: "(int, nat \<times> epoll_flag list) omap"
    by (simp add: omap_erase_None)
  have same: "lp_conns st2 = omap_erase f (lp_conns st)" "lp_jobs st2 = lp_jobs st" "lp_refs st2 = lp_refs st1"
    "lp_interest st2 = omap_erase f (lp_interest st)" "lp_stopped st2 = lp_stopped st" "lp_heap st2 = lp_heap st1"
    "lp_interest st1 = lp_interest st2" "lp_stale st2 = lp_stale st1" "lp_next st2 = lp_next st1"
    "lp_server_fds st2 = lp_server_fds st1" "lp_server_configs st2 = lp_server_configs st1"
    using c1 u(6) by (auto simp: st2_def closeConnection_def Let_def trace_def i)
  then have ok: "refs_ok st2" "servers_ok st2"
    using u(2,3) by (simp_all add: refs_ok_def servers_ok_def)
  have job: "omap_get (lp_jobs st) f = None"
    using job_not_conn [OF core, of f] c by (cases "omap_get (lp_jobs st) f") auto
  have "core st2"
  proof (rule core_without [OF core, where x = f])
    show "ref_at st2 g k = ref_at st g k" if "g \<noteq> f" for g k
      using u(5) that same by (simp add: ref_at_def)
  qed (use ok same job assms(3) in \<open>simp_all add: omap_erase_None\<close>)
  moreover have get: "get_conn st2 g = (if g = f then None else get_conn st g)" for g
    using same(1) by (simp add: get_conn_def)
  have "has_job st2 g = has_job st g" for g using same(2) by (simp add: has_job_def)
  then have "live st2 g" for g
    using lv [of g] live_cong [of st2 g st] get same(4) by (cases "g = f") simp_all
  moreover have "omap_get (lp_refs st2) f = None"
  proof (cases "omap_get (lp_refs st) f")
    case None
    with u(1) same(3) show ?thesis by (auto simp: unregisterEventFd_def Let_def)
  next
    case (Some a)
    with u(1) same(3) show ?thesis by (auto simp: unregisterEventFd_def invalidate_def Let_def split: option.splits)
  qed
  ultimately have "gone f st2" using get by (simp add: gone_def loop_inv_def)
  moreover have "others f st st2" using u(4) same(6,7) get by (simp add: others_def keeps_def armed_def)
  ultimately show ?thesis using u(1) by (simp add: st2_def)
qed

lemma closeClient_ends:
  assumes "conn_here f st"
  shows "ends_in f E st (closeClient e f st) (gone f)"
  unfolding closeClient_def
proof (rule ends_in_bind [OF close_jobs_ends [OF assms]], elim conjE)
  fix st' assume "inv_except f st'" "lp_conns st' = lp_conns st" "\<not> has_job st' f"
  moreover from this assms have "get_conn st' f \<noteq> None" by (simp add: conn_here_def get_conn_def)
  ultimately show "ends_in f E st' (rbind (unregisterEventFd f st') (\<lambda>st. Inr (closeConnection f st))) (gone f)"
    by (intro drop_client)
qed

lemma closeClient_gone:
  assumes "gone f st"
  shows "closeClient e f st = Inr st"
proof -
  have core: "core st" using assms by (simp add: gone_def loop_inv_def)
  have "j_client_fd j \<noteq> f" if "omap_get (lp_jobs st) r = Some j" for r j
    using core_jobD [OF core that] assms by (auto simp: gone_def job_ok_def)
  then have "\<not> has_job st f" by (auto simp: has_job_def)
  then have "jobs_of_client f st = []" using no_job_iff [OF core] by simp
  moreover have "omap_get (lp_interest st) f = None"
    using core assms by (cases "omap_get (lp_interest st) f") (auto simp: gone_def core_def refs_ok_def)
  ultimately show ?thesis
    using assms by (simp add: closeClient_def closeCgiJobsForClient_def unregisterEventFd_def gone_def
        closeConnection_def omap_erase_None)
qed

section \<open>Finishing and failing a job\<close>

definition job_here :: "int \<Rightarrow> int \<Rightarrow> event_loop \<Rightarrow> bool" where
  \<comment> \<open>\<open>rfd\<close> is the job of client \<open>f\<close>\<close>
  "job_here f rfd st \<longleftrightarrow> conn_here f st \<and> (\<exists>j. omap_get (lp_jobs st) rfd = Some j \<and> j_client_fd j = f)"

lemma job_here_same: "job_here f rfd st \<Longrightarrow> conn_here f st' \<Longrightarrow> same_regs st st' \<Longrightarrow> job_here f rfd st'"
  by (simp add: job_here_def same_regs_def)

lemma job_here_turned: "job_here f rfd st \<Longrightarrow> turned f st st' \<Longrightarrow> job_here f rfd st'"
  by (simp add: job_here_def turned_def writing_now_here)

lemma job_here_wrote: "job_here f rfd st \<Longrightarrow> wrote f st st' \<Longrightarrow> job_here f rfd st'"
  using job_here_same by (auto simp: wrote_def)

lemma job_error_response:
  assumes "mods_ok e" "job_here f rfd st"
  shows "ends_in f (job_here f rfd) st (rbind (send_error e code f st) (write_and_rearm e f)) (turned f st)"
  using assms(1) by (rule error_response_ends) (use assms(2) job_here_same in \<open>auto simp: job_here_def\<close>)

lemma job_append:
  assumes "job_here f rfd st"
  shows "ends_in f (job_here f rfd) st (append_to f s st) (wrote f st)"
  by (rule append_to_ends) (use assms job_here_same in \<open>auto simp: job_here_def\<close>)

lemma close_job_here:
  assumes "job_here f rfd st"
  shows "ends_in f E st (closeCgiJob e rfd st) (closed_job f rfd st)"
  using assms closeCgiJob_ends by (auto simp: job_here_def conn_here_def)

definition answered :: "int \<Rightarrow> int \<Rightarrow> event_loop \<Rightarrow> event_loop \<Rightarrow> bool" where
  \<comment> \<open>the job \<open>rfd\<close> is over and its client is being written to\<close>
  "answered f rfd st st' \<longleftrightarrow> writing_now f st' \<and> lp_jobs st' = omap_erase rfd (lp_jobs st)"

lemma close_turned:
  assumes "job_here f rfd st" "turned f st st'"
  shows "ends_in f E st' (closeCgiJob e rfd st') (answered f rfd st)"
  using ends_in_weaken [OF close_job_here [OF job_here_turned [OF assms]]] assms(2)
  by (auto simp: turned_def closed_job_def answered_def)

lemma failCgiJob_ends:
  assumes "mods_ok e" "job_here f rfd st"
  shows "ends_in f (job_here f rfd) st (failCgiJob e rfd code st) (answered f rfd st)"
proof -
  let ?E = "job_here f rfd"
  obtain j c where j: "omap_get (lp_jobs st) rfd = Some j" "j_client_fd j = f" "get_conn st f = Some c" "conn_here f st"
    using assms(2) by (auto simp: job_here_def conn_here_def)
  have "ends_in f ?E st
      (rbind (if \<not> j_headers_sent j then send_error e code f st
              else rbind (append_to f last_chunk st) (on_conn f (map_request (set_header ''connection'' ''close''))))
        (write_and_rearm e f)) (turned f st)"
  proof (cases "j_headers_sent j")
    case False
    then show ?thesis using job_error_response [OF assms] by simp
  next
    case True
    let ?close = "map_request (set_header ''connection'' ''close'')"
    have "ends_in f ?E st (rbind (append_to f last_chunk st) (on_conn f ?close))
        (\<lambda>st'. conn_here f st' \<and> lp_jobs st' = lp_jobs st)"
    proof (rule ends_in_bind [OF job_append [OF assms(2)]])
      fix st1 assume w: "wrote f st st1"
      then obtain c1 where c1: "get_conn st1 f = Some c1" "conn_here f st1" "lp_jobs st1 = lp_jobs st"
        by (auto simp: wrote_def same_regs_def)
      have "fd (?close c1) = fd c1" "base_ok c1 \<Longrightarrow> base_ok (?close c1)" by simp_all
      from on_conn_step [of f st1 c1 ?close, OF c1(2,1) this] c1(3)
      show "ends_in f ?E st1 (on_conn f ?close st1) (\<lambda>st'. conn_here f st' \<and> lp_jobs st' = lp_jobs st)"
        by (auto simp: same_regs_def)
    qed
    then have "ends_in f ?E st
        (rbind (rbind (append_to f last_chunk st) (on_conn f ?close)) (write_and_rearm e f)) (turned f st)"
    proof (rule ends_in_bind, elim conjE)
      fix st1 assume "conn_here f st1" "lp_jobs st1 = lp_jobs st"
      with ends_in_weaken [OF write_and_rearm_ends [OF assms(1), of f st1 ?E]]
      show "ends_in f ?E st1 (write_and_rearm e f st1) (turned f st)" by (simp add: turned_def)
    qed
    with True show ?thesis by simp
  qed
  then show ?thesis
    unfolding failCgiJob_def using j close_turned [OF assms(2)]
    by (auto simp: Let_def intro: ends_in_bind)
qed

lemma finishCgiJob_ends:
  assumes "mods_ok e" "job_here f rfd st"
  shows "ends_in f (job_here f rfd) st (finishCgiJob e rfd st) (answered f rfd st)"
proof -
  let ?E = "job_here f rfd"
  obtain j c where j: "omap_get (lp_jobs st) rfd = Some j" "j_client_fd j = f" "get_conn st f = Some c" "conn_here f st"
    using assms(2) by (auto simp: job_here_def conn_here_def)
  show ?thesis
  proof (cases "j_headers_sent j")
    case False
    have "ends_in f ?E st (rbind (rbind (send_error e 502 f st) (write_and_rearm e f)) (closeCgiJob e rfd)) (answered f rfd st)"
      by (rule ends_in_bind [OF job_error_response [OF assms]]) (rule close_turned [OF assms(2)])
    with False j show ?thesis by (simp add: finishCgiJob_def Let_def)
  next
    case True
    have end_chunk: "ends_in f ?E st (if req_method (request c) \<noteq> ''HEAD'' then append_to f last_chunk st else Inr st)
        (\<lambda>st'. job_here f rfd st' \<and> lp_jobs st' = lp_jobs st)"
      using ends_in_weaken [OF job_append [OF assms(2), of last_chunk]] job_here_wrote [OF assms(2)] assms(2)
      by (auto simp: wrote_def same_regs_def)
    have "ends_in f ?E st (rbind (if req_method (request c) \<noteq> ''HEAD'' then append_to f last_chunk st else Inr st)
        (\<lambda>st. rbind (closeCgiJob e rfd st) (\<lambda>st. use_conn f (\<lambda>_. write_and_rearm e f) st))) (answered f rfd st)"
    proof (rule ends_in_bind [OF end_chunk], elim conjE, rule ends_in_bind [OF close_job_here], assumption)
      fix st1 st2 assume "job_here f rfd st1" "closed_job f rfd st1 st2" "lp_jobs st1 = lp_jobs st"
      then have jobs: "lp_jobs st2 = omap_erase rfd (lp_jobs st)" and here: "conn_here f st2"
        by (auto simp: closed_job_def conn_here_def job_here_def get_conn_def)
      from here obtain c2 where "get_conn st2 f = Some c2" by (rule conn_hereE)
      with ends_in_weaken [OF write_and_rearm_ends [OF assms(1) here, of ?E]]
      show "ends_in f ?E st2 (use_conn f (\<lambda>_. write_and_rearm e f) st2) (answered f rfd st)"
        using jobs by (simp add: turned_def answered_def)
    qed
    with True j show ?thesis by (simp add: finishCgiJob_def Let_def)
  qed
qed

lemma put_job_ok:
  assumes "core st" "omap_get (lp_jobs st) rfd = Some j" "j_client_fd j' = j_client_fd j" "j_stdin_fd j' = j_stdin_fd j"
    and "\<not> j_headers_sent j' \<Longrightarrow> buf_ok (j_buffer j')"
  shows "core (put_job rfd j' st)" "live (put_job rfd j' st) g = live st g" "others f st (put_job rfd j' st)"
proof -
  let ?st = "put_job rfd j' st"
  have ref: "ref_at ?st g k = ref_at st g k" for g k by (simp add: ref_at_def put_job_def)
  have ok: "job_ok st rfd j" using core_jobD [OF assms(1,2)] .
  show "core ?st"
  proof (rule coreI)
    show "\<not> lp_stopped ?st" "refs_ok ?st" "servers_ok ?st" "omap_ok (lp_conns ?st)" "omap_ok (lp_jobs ?st)"
      using assms(1) by (simp_all add: core_def refs_ok_def servers_ok_def put_job_def)
    show "fd c = g \<and> base_ok c \<and> ref_at ?st g EV_CLIENT" if "get_conn ?st g = Some c" for g c
      using that assms(1) by (simp add: ref core_def)
    show "job_ok ?st r i" if "omap_get (lp_jobs ?st) r = Some i" for r i
      using that ok assms(3-5) core_jobD [OF assms(1), of r i] by (auto simp: job_ok_def ref split: if_splits)
    have old: "\<exists>i. omap_get (lp_jobs st) r = Some i \<and> j_client_fd i = j_client_fd k"
      if "omap_get (lp_jobs ?st) r = Some k" for r k
      using that assms(2,3) by (cases "r = rfd") auto
    show "r1 = r2" if "omap_get (lp_jobs ?st) r1 = Some j1" "omap_get (lp_jobs ?st) r2 = Some j2"
        "j_client_fd j1 = j_client_fd j2" for r1 r2 j1 j2
      using old [OF that(1)] old [OF that(2)] that(3) one_job [OF assms(1)] by metis
  qed
  have "has_job ?st g = has_job st g" for g
    unfolding has_job_def conns_simps omap_get_put using assms(2,3) by (metis option.inject)
  then show "live ?st g = live st g" by (intro live_cong) simp_all
  show "others f st ?st" by (simp add: others_def keeps_same put_job_def get_conn_def)
qed

end
