(* ===== verification/Loop_Reading.thy ===== *)
theory Loop_Reading
  imports Loop_Release
begin

text \<open>
  Reading from a client keeps the invariant of the event loop: spooling, the launch of a
  script (\<open>_ApiStartCgi\<close>), the answer to a complete request (\<open>_tryDispatchComplete\<close>) and the
  loop of \<open>_handleRead\<close>.
\<close>

section \<open>What the environment does\<close>

definition pipe_ok :: "loop_env \<Rightarrow> event_loop \<Rightarrow> bool" where
  \<comment> \<open>\<open>pipe\<close> returns descriptors that are not in use\<close>
  "pipe_ok e st \<longleftrightarrow>
     (case le_pipe e of
        None \<Rightarrow> True
      | Some (rfd, _) \<Rightarrow> get_conn st rfd = None \<and> omap_get (lp_jobs st) rfd = None \<and> omap_get (lp_interest st) rfd = None)"

definition tmp_ok :: "loop_env \<Rightarrow> bool" where
  \<comment> \<open>a spool file can be created and written: \<open>write\<close> may be short but takes at least one byte\<close>
  "tmp_ok e \<longleftrightarrow> (\<forall>p. 0 \<le> le_tmp_open e p)
     \<and> (\<forall>f off n. 0 \<le> f \<longrightarrow> 0 < n \<longrightarrow> 0 < le_tmp_write e f off n \<and> le_tmp_write e f off n \<le> int n)"

lemma trace_frames [simp]:
  "lp_heap (trace cs st) = lp_heap st" "keeps st (trace cs st') = keeps st st'" "others f st (trace cs st') = others f st st'"
  "has_job (trace cs st) f = has_job st f" "live (trace cs st) f = live st f" "pipe_ok e (trace cs st) = pipe_ok e st"
  "core (trace cs st) = core st" "inv_except f (trace cs st) = inv_except f st" "loop_inv (trace cs st) = loop_inv st"
proof -
  show h: "lp_heap (trace cs st) = lp_heap st" for st cs by (simp add: trace_def)
  show k: "keeps st (trace cs st') = keeps st st'" by (simp add: keeps_def armed_def h)
  show "others f st (trace cs st') = others f st st'" by (simp add: others_def k)
  show j: "has_job (trace cs st) f = has_job st f" for f by (simp add: has_job_def)
  show l: "live (trace cs st) f = live st f" for f by (rule live_cong) (simp_all add: j)
  show "pipe_ok e (trace cs st) = pipe_ok e st" by (simp add: pipe_ok_def split: option.splits)
  show c: "core (trace cs st) = core st" by (rule pending_core)
  show "inv_except f (trace cs st) = inv_except f st" "loop_inv (trace cs st) = loop_inv st"
    by (simp_all add: inv_except_def loop_inv_def c l)
qed

section \<open>A connection that is being read\<close>

definition fed :: "connection \<Rightarrow> bool" where
  \<comment> \<open>what the parser leaves, but for an error\<close>
  "fed c \<longleftrightarrow>
     (let r = request c in
      conn_ok c \<and> parse_state r \<noteq> PSTATE_ERROR \<and> body_file_written r = spooled r
      \<and> written r \<le> max_body_size r \<and> written r < 2 ^ 61 \<and> (opened r \<longrightarrow> 0 \<le> opened_file r))"

lemma reading_fed:
  "reading_ok c \<longleftrightarrow> fed c \<and> buf_ok (read_buffer c) \<and> (parse_state (request c) = PSTATE_COMPLETE \<longrightarrow> chunked (request c))"
  by (auto simp: reading_ok_def fed_def Let_def)

lemma fed_reading:
  assumes "fed c" "parse_state (request c) = PSTATE_COMPLETE \<Longrightarrow> chunked (request c)"
  shows "reading_ok c"
  using assms unfolding reading_fed
  by (cases "parse_state (request c)") (auto simp: fed_def Let_def conn_ok_def received_def)

definition midway :: "loop_env \<Rightarrow> int \<Rightarrow> connection \<Rightarrow> event_loop \<Rightarrow> bool" where
  \<comment> \<open>inside the handler that reads from \<open>f\<close>\<close>
  "midway e f c st \<longleftrightarrow>
     inv_except f st \<and> get_conn st f = Some c \<and> state c = CSTATE_READING \<and> \<not> has_job st f
     \<and> (\<exists>a fl. omap_get (lp_interest st) f = Some (a, fl) \<and> set fl = set (buildEpollEvent c)) \<and> pipe_ok e st"

lemma midway_loop: "midway e f c st \<Longrightarrow> reading_ok c \<Longrightarrow> loop_inv st"
  by (auto simp: midway_def loop_inv_iff [of st f] live_def)

lemma loop_midway:
  assumes "loop_inv st" "get_conn st f = Some c" "state c = CSTATE_READING" "pipe_ok e st"
  shows "midway e f c st" "reading_ok c"
proof -
  have "live st f" using assms(1) by (simp add: loop_inv_def)
  with assms(2,3) have "\<not> has_job st f" "reading_ok c"
      "\<exists>a fl. omap_get (lp_interest st) f = Some (a, fl) \<and> set fl = set (buildEpollEvent c)"
    by (auto simp: live_def split: if_splits)
  with assms show "midway e f c st" "reading_ok c" by (simp_all add: midway_def loop_inv_except)
qed

lemma midway_here: "midway e f c st \<Longrightarrow> conn_here f st"
  by (simp add: midway_def conn_here_def)

lemma midway_conn: "midway e f c st \<Longrightarrow> get_conn st f = Some c"
  by (simp add: midway_def)

lemma midway_base: "midway e f c st \<Longrightarrow> fd c = f \<and> base_ok c"
  using midway_here [of e f c st] by (auto simp: midway_def elim: conn_hereE)

lemma midway_put:
  assumes "midway e f c st" "same_regs st st'" "lp_conns st' = omap_put f c' (lp_conns st)"
    and "fd c' = fd c" "base_ok c'" "state c' = state c"
  shows "midway e f c' st' \<and> others f st st'"
proof -
  have s: "inv_except f st' \<and> others f st st' \<and> get_conn st' f = Some c'"
    using assms midway_base [OF assms(1)] by (intro conn_step [of f st]) (simp_all add: midway_def)
  have regs: "lp_jobs st' = lp_jobs st" "lp_interest st' = lp_interest st" using assms(2) by (simp_all add: same_regs_def)
  have "buildEpollEvent c' = buildEpollEvent c" using assms(6) by (simp add: buildEpollEvent_def)
  moreover have "pipe_ok e st'"
    using assms(1) s regs by (auto simp: pipe_ok_def midway_def others_def split: option.splits; metis option.distinct(1))
  ultimately show ?thesis using assms(1,6) s regs by (simp add: midway_def has_job_def)
qed

section \<open>Spooling\<close>

lemma fed_body:
  assumes "fed c"
  shows "buf_ok (body (request c))" "length (content (body (request c))) \<le> written (request c)"
    "body_file_written (request c) + length (content (body (request c))) = written (request c)"
proof -
  show "buf_ok (body (request c))" and le: "length (content (body (request c))) \<le> written (request c)"
    using assms by (cases "parse_state (request c)";
        simp add: fed_def Let_def conn_ok_def received_def receiving_def fresh_body_def)+
  show "body_file_written (request c) + length (content (body (request c))) = written (request c)"
    using assms le by (simp add: fed_def Let_def spooled_def)
qed

lemma tmp_write_all:
  assumes "tmp_ok e" "0 \<le> f"
  shows "off \<le> len \<Longrightarrow> tmp_write_loop e f off len = (True, len)"
proof (induction "len - off" arbitrary: off rule: less_induct)
  case less
  show ?case
  proof (cases "off < len")
    case True
    let ?n = "le_tmp_write e f off (len - off)"
    have "0 < ?n \<and> ?n \<le> int (len - off)" using assms True unfolding tmp_ok_def by (metis zero_less_diff)
    then have n: "0 < ?n" "?n \<le> int (len - off)" by blast+
    then have "len - (off + nat ?n) < len - off" "off + nat ?n \<le> len" using True by linarith+
    from less.hyps [OF this] have "tmp_write_loop e f (off + nat ?n) len = (True, len)" .
    with n True show ?thesis by (subst tmp_write_loop.simps) (simp add: Let_def)
  next
    case False
    with less.prems show ?thesis by (subst tmp_write_loop.simps) simp
  qed
qed

definition flushed :: "http_request \<Rightarrow> http_request \<Rightarrow> bool" where
  \<comment> \<open>the buffered part of the body has moved to the file\<close>
  "flushed r r' \<longleftrightarrow>
     content (body r') = [] \<and> buf_ok (body r') \<and> body_file_written r' = written r \<and> (opened r' \<longrightarrow> 0 \<le> opened_file r')
     \<and> r' = r\<lparr>opened := opened r', opened_file := opened_file r', tmp_body_path := tmp_body_path r',
               body_file_written := body_file_written r', body := body r'\<rparr>"

lemma flushed_fed:
  assumes "fed c" "flushed (request c) r'"
  shows "fed (c\<lparr>request := r'\<rparr>)"
proof -
  obtain o1 o2 p w b where r': "r' = (request c)\<lparr>opened := o1, opened_file := o2, tmp_body_path := p, body_file_written := w, body := b\<rparr>"
    "content b = []" "buf_ok b" "w = written (request c)" "o1 \<longrightarrow> 0 \<le> o2"
    using assms(2) unfolding flushed_def by metis
  have "body_limit (c\<lparr>request := r'\<rparr>) = body_limit c" by (rule body_limit_cong) (simp_all add: r'(1))
  then have "conn_ok (c\<lparr>request := r'\<rparr>)"
    using assms(1) r' by (cases "parse_state (request c)")
      (simp_all add: fed_def Let_def conn_ok_def received_def receiving_def fresh_body_def hdrs_ok_def split: if_splits)
  then show ?thesis using assms(1) r' by (simp add: fed_def Let_def spooled_def)
qed

lemma flush_ok:
  assumes "tmp_ok e" "midway e f c st" "fed c"
  shows "\<exists>r' st'. flushRequestBodyToTmpFile e f st = Inr st' \<and> flushed (request c) r'
    \<and> midway e f (c\<lparr>request := r'\<rparr>) st' \<and> others f st st'"
proof (cases "content (body (request c)) = []")
  case True
  have "flushed (request c) (request c)"
    using True fed_body [OF assms(3)] assms(3) by (simp add: flushed_def fed_def Let_def)
  with True assms(2) fed_body [OF assms(3)] show ?thesis
    by (intro exI [of _ "request c"] exI [of _ st]) (simp add: flushRequestBodyToTmpFile_def buf_ok_empty midway_conn)
next
  case False
  let ?r = "request c"
  note b = fed_body [OF assms(3)]
  have bound: "written ?r \<le> max_body_size ?r" "written ?r < 2 ^ 61" using assms(3) by (simp_all add: fed_def Let_def)
  then have add: "sz_add (body_file_written ?r) (length (content (body ?r))) = written ?r"
    using b(3) by (simp add: sz_add_def)
  define st1 where "st1 = (if opened ?r then st else trace [TmpOpen (c_str (tmp_name e ((lp_tmp_counter st + 1) mod 2 ^ 64) c))
        (le_tmp_open e (c_str (tmp_name e ((lp_tmp_counter st + 1) mod 2 ^ 64) c)))]
      (st\<lparr>lp_tmp_counter := (lp_tmp_counter st + 1) mod 2 ^ 64\<rparr>))"
  obtain o2 p where o: "open_tmp e c st = (map_request (\<lambda>r. r\<lparr>tmp_body_path := p, opened_file := o2, opened := True\<rparr>) c, st1)"
    "0 \<le> o2"
  proof (cases "opened ?r")
    case True
    then have "c = map_request (\<lambda>r. r\<lparr>tmp_body_path := tmp_body_path ?r, opened_file := opened_file ?r, opened := True\<rparr>) c"
      by (simp add: map_request_def)
    then show thesis using that True assms(3) by (simp add: open_tmp_def st1_def fed_def Let_def)
  next
    case False
    let ?name = "tmp_name e ((lp_tmp_counter st + 1) mod 2 ^ 64) c"
    have "0 \<le> le_tmp_open e (c_str ?name)" using assms(1) by (simp add: tmp_ok_def)
    then show thesis using that [of "le_tmp_open e (c_str ?name)" ?name] False
      by (simp add: open_tmp_def st1_def Let_def not_less map_request_def)
  qed
  let ?n = "length (content (body ?r))"
  define r' where "r' = ?r\<lparr>tmp_body_path := p, opened_file := o2, opened := True, body_file_written := written ?r, body := Buffer_reset (body ?r)\<rparr>"
  define st' where "st' = put_conn f (c\<lparr>request := r'\<rparr>) (trace [TmpWrite o2 (take ?n (content (body ?r)))] st1)"
  have "tmp_write_loop e o2 0 ?n = (True, ?n)" using tmp_write_all [OF assms(1) o(2)] by simp
  then have "flushRequestBodyToTmpFile e f st = Inr st'"
    using False b(1) bound add o midway_conn [OF assms(2)]
    by (simp add: flushRequestBodyToTmpFile_def Let_def buf_ok_empty buf_ok_size buf_ok_data st'_def r'_def map_request_def)
  moreover have "flushed ?r r'" using o(2) by (auto simp: flushed_def r'_def)
  moreover have "same_regs st st1" by (simp add: st1_def)
  then have "midway e f (c\<lparr>request := r'\<rparr>) st' \<and> others f st st'"
    using midway_base [OF assms(2)] by (intro midway_put [OF assms(2)]) (simp_all add: st'_def st1_def base_ok_def)
  ultimately show ?thesis by blast
qed

section \<open>Answering\<close>

definition answering :: "loop_env \<Rightarrow> int \<Rightarrow> connection \<Rightarrow> event_loop \<Rightarrow> bool" where
  \<comment> \<open>inside \<open>_tryDispatchComplete\<close>\<close>
  "answering e f c st \<longleftrightarrow> inv_except f st \<and> get_conn st f = Some c \<and> \<not> has_job st f \<and> pipe_ok e st"

definition busy :: "int \<Rightarrow> event_loop \<Rightarrow> bool" where
  \<comment> \<open>\<open>f\<close> has its answer, or waits for its script\<close>
  "busy f st \<longleftrightarrow> loop_inv st \<and> (\<exists>c. get_conn st f = Some c \<and> state c \<noteq> CSTATE_READING)"

lemma midway_answering: "midway e f c st \<Longrightarrow> answering e f c st"
  by (simp add: midway_def answering_def)

lemma answering_here: "answering e f c st \<Longrightarrow> conn_here f st"
  by (simp add: answering_def conn_here_def)

lemma answering_conn: "answering e f c st \<Longrightarrow> get_conn st f = Some c"
  by (simp add: answering_def)

lemma answering_base: "answering e f c st \<Longrightarrow> fd c = f \<and> base_ok c"
  using answering_here [of e f c st] by (auto simp: answering_def elim: conn_hereE)

lemma answering_put:
  assumes "answering e f c st" "same_regs st st'" "lp_conns st' = omap_put f c' (lp_conns st)" "fd c' = fd c" "base_ok c'"
  shows "answering e f c' st' \<and> others f st st'"
proof -
  have s: "inv_except f st' \<and> others f st st' \<and> get_conn st' f = Some c'"
    using assms answering_base [OF assms(1)] by (intro conn_step [of f st]) (simp_all add: answering_def)
  have regs: "lp_jobs st' = lp_jobs st" "lp_interest st' = lp_interest st" using assms(2) by (simp_all add: same_regs_def)
  moreover have "pipe_ok e st'"
    using assms(1) s regs by (auto simp: pipe_ok_def answering_def others_def split: option.splits; metis option.distinct(1))
  ultimately show ?thesis using assms(1) s regs by (simp add: answering_def has_job_def)
qed

lemma turned_busy: "turned f st st' \<Longrightarrow> busy f st'"
  by (auto simp: turned_def busy_def writing_now_def)

lemma ends_from: "others f st st1 \<Longrightarrow> ends_in f E st1 r Q \<Longrightarrow> ends_in f E st r Q"
  by (cases r) (auto simp: ends_in_def unit_result_def ends_def intro: others_trans split: prod.splits)

lemma error_busy:
  assumes "mods_ok e" "conn_here f st"
  shows "ends_in f (conn_here f) st (rbind (send_error e code f st) (write_and_rearm e f)) (busy f)"
  using error_response_ends [OF assms, of "conn_here f"] by (rule ends_in_weaken) (simp_all add: turned_busy)

lemma busy_update:
  assumes "busy f st" "get_conn st f = Some c" "fd c' = fd c" "base_ok c'" "state c' = state c"
    and "same_regs st st'" "lp_conns st' = omap_put f c' (lp_conns st)"
  shows "busy f st' \<and> others f st st' \<and> get_conn st' f = Some c'"
proof -
  have l: "loop_inv st" "state c \<noteq> CSTATE_READING" using assms(1,2) by (simp_all add: busy_def)
  then have "core st" by (simp add: loop_inv_def)
  then have "fd c = f" using assms(2) by (rule core_connD)
  with conn_update [OF l(1) assms(6,7,2)] assms l show ?thesis by (simp add: busy_def)
qed

section \<open>Starting a script\<close>

lemma new_job_ends:
  assumes "answering e f c st" "le_pipe e = Some (rfd, wfd)"
  shows "ends_in f E st (new_job e f rfd st) (\<lambda>st'. job_here f rfd st' \<and> get_conn st' f = Some c)"
proof -
  have core: "core st" and conn: "get_conn st f = Some c" and no: "\<not> has_job st f"
    using assms(1) by (simp_all add: answering_def inv_except_def)
  have lv: "live st g" if "g \<noteq> f" for g using assms(1) that by (simp add: answering_def inv_except_def)
  have fresh: "get_conn st rfd = None" "omap_get (lp_jobs st) rfd = None" "omap_get (lp_interest st) rfd = None"
    using assms by (simp_all add: answering_def pipe_ok_def)
  let ?fl = "[EPOLLIN, EPOLLET, EPOLLHUP, EPOLLERR]"
  let ?j = "CgiJob_new (now e) f rfd CGI_HEADER_BUF_LIMIT (srv_timeout_seconds (config c))"
  have "refs_ok st" "servers_ok st" using core by (simp_all add: core_def)
  from register_ok [OF this fresh(3), of EV_CGI e ?fl]
  obtain st1 where reg: "refs_ok st1" "servers_ok st1" "keeps st st1"
      "\<And>g k. g \<noteq> rfd \<Longrightarrow> ref_at st1 g k = ref_at st g k"
      "le_add_ok e rfd \<Longrightarrow> registerEventFd e rfd EV_CGI ?fl st = Inr st1 \<and> ref_at st1 rfd EV_CGI
        \<and> lp_interest st1 = omap_put rfd (lp_next st, ?fl) (lp_interest st)"
      "\<not> le_add_ok e rfd \<Longrightarrow> registerEventFd e rfd EV_CGI ?fl st = Inl (RuntimeError, st1)"
      "lp_conns st1 = lp_conns st" "lp_jobs st1 = lp_jobs st" "lp_stopped st1 = lp_stopped st"
    by (cases "le_add_ok e rfd") auto
  have get: "get_conn st1 g = get_conn st g" for g using reg(7) by (simp add: get_conn_def)
  have others1: "others f st st1" using reg(3) get by (simp add: others_def)
  show ?thesis
  proof (cases "le_add_ok e rfd")
    case False
    with reg(6) conn others1 get show ?thesis
      by (simp add: new_job_def ends_in_Inl thrown_def)
  next
    case True
    note r = reg(5) [OF True]
    define st2 where "st2 = put_job rfd ?j st1"
    have st2: "lp_conns st2 = lp_conns st" "lp_jobs st2 = omap_put rfd ?j (lp_jobs st)" "lp_stopped st2 = lp_stopped st"
      "lp_interest st2 = lp_interest st1" "refs_ok st2" "servers_ok st2" "lp_heap st2 = lp_heap st1"
      using reg by (simp_all add: st2_def put_job_def refs_ok_def servers_ok_def)
    have get2: "get_conn st2 g = get_conn st g" for g using st2(1) by (simp add: get_conn_def)
    have ref2: "ref_at st2 g k = ref_at st1 g k" for g k by (simp add: ref_at_def st2_def put_job_def)
    have "core st2"
    proof (rule coreI)
      show "\<not> lp_stopped st2" "refs_ok st2" "servers_ok st2" "omap_ok (lp_conns st2)" "omap_ok (lp_jobs st2)"
        using core st2 by (simp_all add: core_def)
      show "fd d = g \<and> base_ok d \<and> ref_at st2 g EV_CLIENT" if "get_conn st2 g = Some d" for g d
      proof -
        have g: "get_conn st g = Some d" "g \<noteq> rfd" using that get2 fresh(1) by auto
        with core_connD [OF core g(1)] reg(4) [OF g(2)] ref2 show ?thesis by simp
      qed
      show "job_ok st2 x j" if "omap_get (lp_jobs st2) x = Some j" for x j
      proof (cases "x = rfd")
        case True
        then show ?thesis using that st2(2) r conn by (auto simp: job_ok_def ref2 get2 CgiJob_new_def)
      next
        case False
        then have "omap_get (lp_jobs st) x = Some j" using that st2(2) by simp
        from core_jobD [OF core this] False reg(4) ref2 show ?thesis by (simp add: job_ok_def get2)
      qed
      show "r1 = r2" if h: "omap_get (lp_jobs st2) r1 = Some j1" "omap_get (lp_jobs st2) r2 = Some j2"
          "j_client_fd j1 = j_client_fd j2" for r1 r2 j1 j2
      proof -
        have own: "j_client_fd j = f \<longleftrightarrow> x = rfd" if "omap_get (lp_jobs st2) x = Some j" for x j
          using no that st2(2) by (cases "x = rfd") (auto simp: has_job_def CgiJob_new_def)
        show ?thesis
        proof (cases "r1 = rfd \<or> r2 = rfd")
          case True
          with own [OF h(1)] own [OF h(2)] h(3) show ?thesis by auto
        next
          case False
          with h st2(2) show ?thesis using one_job [OF core, of r1 j1 r2 j2] by simp
        qed
      qed
    qed
    moreover have "live st2 g" if "g \<noteq> f" for g
    proof -
      have "has_job st2 g = has_job st g"
        unfolding has_job_def st2(2) omap_get_put using fresh(2) that
        by (metis CgiJob_new_def cgi_job.select_convs(1) option.distinct(1) option.inject)
      moreover have "omap_get (lp_interest st2) g = omap_get (lp_interest st) g" if "get_conn st g \<noteq> None"
        using that r fresh(1) st2(4) by auto
      ultimately show ?thesis using lv [OF that] live_cong [of st2 g st] get2 by simp
    qed
    moreover have "j_client_fd ?j = f" by (simp add: CgiJob_new_def)
    ultimately have "job_here f rfd st2" "get_conn st2 f = Some c"
      using st2(2) get2 conn by (auto simp: job_here_def conn_here_def inv_except_def)
    moreover have "new_job e f rfd st = Inr st2" using r conn by (simp add: new_job_def st2_def)
    moreover have "others f st st2" using others1 get get2 st2(4,7) by (simp add: others_def keeps_def armed_def)
    ultimately show ?thesis by simp
  qed
qed

lemma run_script_ends:
  assumes "mods_ok e" "busy f st" "get_conn st f = Some c" "job_here f rfd st"
  shows "ends_in f (conn_here f) st (run_script e f loc script rfd wfd st) (busy f)"
proof -
  let ?req = "request c"
  obtain ok pid where ok: "startCgi (le_os e) (le_fork e) ?req (config c) loc script (opened_file ?req) = (ok, pid)" by fastforce
  obtain calls r' where r': "release_body (opened_file ?req) ?req = (calls, r')" by fastforce
  let ?c = "c\<lparr>request := r'\<rparr>"
  define st1 where "st1 = trace (fork_trace e ?req (config c) loc script (client_ip c) (opened_file ?req) wfd @ [Sys (SysClose wfd)] @ calls)
    (put_conn f ?c st)"
  have base: "base_ok ?c" using assms(2,3) core_connD(2) [of st f c] by (simp add: base_ok_def busy_def loop_inv_def)
  have st1: "busy f st1" "others f st st1" "get_conn st1 f = Some ?c"
    using busy_update [OF assms(2,3), of ?c st1] base by (simp_all add: st1_def)
  have jobs: "lp_jobs st1 = lp_jobs st" by (simp add: st1_def)
  have here: "job_here f rfd st1"
    using assms(4) st1 jobs by (auto simp: job_here_def conn_here_def busy_def loop_inv_except)
  obtain j where j: "omap_get (lp_jobs st1) rfd = Some j" "j_client_fd j = f" using here by (auto simp: job_here_def)
  show ?thesis
  proof (cases ok)
    case True
    have inv: "loop_inv st1" "core st1" using st1(1) by (simp_all add: busy_def loop_inv_def)
    then have "\<not> j_headers_sent j \<longrightarrow> buf_ok (j_buffer j)" using core_jobD [OF inv(2) j(1)] by (simp add: job_ok_def)
    with put_job_ok [OF inv(2) j(1), of "j\<lparr>j_child_pid := pid\<rparr>"] inv
    have p: "core (put_job rfd (j\<lparr>j_child_pid := pid\<rparr>) st1)" "\<And>g. live (put_job rfd (j\<lparr>j_child_pid := pid\<rparr>) st1) g = live st1 g"
        "\<And>f. others f st1 (put_job rfd (j\<lparr>j_child_pid := pid\<rparr>) st1)" by auto
    then have "busy f (put_job rfd (j\<lparr>j_child_pid := pid\<rparr>) st1)"
      using st1(1,3) inv(1) by (simp add: busy_def loop_inv_def)
    moreover have "others f st (put_job rfd (j\<lparr>j_child_pid := pid\<rparr>) st1)" using others_trans [OF st1(2) p(3)] .
    ultimately show ?thesis
      using True assms(3) ok r' j(1) by (simp add: run_script_def Let_def st1_def)
  next
    case False
    have "ends_in f (conn_here f) st1 (rbind (closeCgiJob e rfd st1) (\<lambda>st.
            rbind (send_error e 502 f st) (write_and_rearm e f))) (busy f)"
    proof (rule ends_in_bind [OF close_job_here [OF here]])
      fix st2 assume "closed_job f rfd st1 st2"
      with st1(3) have "conn_here f st2" by (simp add: closed_job_def conn_here_def get_conn_def)
      with assms(1) show "ends_in f (conn_here f) st2 (rbind (send_error e 502 f st2) (write_and_rearm e f)) (busy f)"
        by (rule error_busy)
    qed
    from ends_from [OF st1(2) this] show ?thesis
      using False assms(3) ok r' by (simp add: run_script_def Let_def st1_def)
  qed
qed

lemma ApiStartCgi_ends:
  assumes "mods_ok e" "answering e f c st"
  shows "ends_in f (conn_here f) st (ApiStartCgi e f info st) (busy f)"
proof (cases "le_pipe e")
  case None
  then show ?thesis using error_busy [OF assms(1) answering_here [OF assms(2)]]
    by (simp add: ApiStartCgi_def pipe_failed_def)
next
  case (Some p)
  obtain rfd wfd where p: "le_pipe e = Some (rfd, wfd)" using Some by (cases p) simp
  show ?thesis
  proof (cases "\<not> le_pipe_cloexec_ok e \<or> \<not> le_pipe_nonblock_ok e")
    case True
    let ?st = "trace [Sys (SysClose rfd), Sys (SysClose wfd)] st"
    have "conn_here f ?st" using answering_here [OF assms(2)] by (simp add: conn_here_def)
    from ends_from [OF _ error_busy [OF assms(1) this, of 500], of st] True p show ?thesis
      by (simp add: ApiStartCgi_def pipe_failed_def)
  next
    case False
    have "ends_in f (conn_here f) st (rbind (new_job e f rfd st) (\<lambda>st. rbind (on_conn f setCgiRunning st) (\<lambda>st.
        rbind (rearmClient e f st) (run_script e f (fst info) (snd info) rfd wfd)))) (busy f)"
    proof (rule ends_in_bind [OF new_job_ends [OF assms(2) p]], elim conjE)
      fix st1 assume s1: "job_here f rfd st1" "get_conn st1 f = Some c"
      then have here1: "conn_here f st1" by (simp add: job_here_def)
      obtain st2 where s2: "on_conn f setCgiRunning st1 = Inr st2" "conn_here f st2" "others f st1 st2" "same_regs st1 st2"
          "get_conn st2 f = Some (setCgiRunning c)"
        using on_conn_step [OF here1 s1(2), of setCgiRunning] by auto
      have j2: "job_here f rfd st2" using job_here_same [OF s1(1) s2(2,4)] .
      then have "fits_life st2 f (setCgiRunning c)" by (auto simp: fits_life_def job_here_def has_job_def)
      moreover have "inv_except f st2" using s2(2) by (simp add: conn_here_def)
      ultimately obtain st3 where s3: "rearmClient e f st2 = Inr st3" "loop_inv st3" "others f st2 st3"
          "get_conn st3 f = Some (setCgiRunning c)" "lp_jobs st3 = lp_jobs st2"
        using rearm_ok [OF assms(1) _ s2(5)] by blast
      have "busy f st3" using s3 by (simp add: busy_def)
      moreover have "job_here f rfd st3" using j2 s3 by (auto simp: job_here_def conn_here_def loop_inv_except)
      ultimately have "ends_in f (conn_here f) st3 (run_script e f (fst info) (snd info) rfd wfd st3) (busy f)"
        using run_script_ends [OF assms(1) _ s3(4)] by blast
      from ends_from [OF others_trans [OF s2(3) s3(3)] this] s2(1) s3(1)
      show "ends_in f (conn_here f) st1 (rbind (on_conn f setCgiRunning st1) (\<lambda>st.
          rbind (rearmClient e f st) (run_script e f (fst info) (snd info) rfd wfd))) (busy f)" by simp
    qed
    with False p show ?thesis by (simp add: ApiStartCgi_def)
  qed
qed

section \<open>A complete request\<close>

lemma respond_ends:
  assumes "answering e f c st" "buf_ok (body (request c))"
  shows "ends_in f (conn_here f) st (respond e f st) (conn_here f)"
proof -
  define h where "h = \<lparr>h_req = request c, h_wb = write_buffer c, h_counter = lp_upload_counter st, h_calls = []\<rparr>"
  have base: "base_ok c" "get_conn st f = Some c" using answering_base [OF assms(1)] answering_conn [OF assms(1)] by simp_all
  then have ok: "hstate_ok h" using assms(2) by (simp add: h_def hstate_ok_def base_ok_def)
  have em: "emits h (handle (le_os e) (config c) h) (\<lambda>_. True) (target_call (config c) (served_file (config c) (h_req h)) (h_req h))"
    using handle_answers [OF ok, of "le_os e" "config c"] unfolding answers_def by (rule emits_weaken) simp
  let ?put = "\<lambda>h. trace (map Fs (h_calls h))
             (put_conn f (c\<lparr>request := h_req h, write_buffer := h_wb h\<rparr>) (st\<lparr>lp_upload_counter := h_counter h\<rparr>))"
  have put: "conn_here f (?put h') \<and> others f st (?put h')" if "hstate_ok h'" for h'
  proof -
    have "base_ok (c\<lparr>request := h_req h', write_buffer := h_wb h'\<rparr>)" using that base by (simp add: base_ok_def hstate_ok_def)
    then have "answering e f (c\<lparr>request := h_req h', write_buffer := h_wb h'\<rparr>) (?put h') \<and> others f st (?put h')"
      using answering_put [OF assms(1), of "?put h'"] by simp
    then show ?thesis using answering_here by blast
  qed
  show ?thesis
  proof (cases "handle (le_os e) (config c) h")
    case (Inl z)
    obtain x h' where z: "z = (x, h')" by (cases z)
    with Inl em have "thrown x" "hstate_ok h'" by (auto simp: emits_def step_to_def thrown_def)
    with put Inl z base show ?thesis by (simp add: respond_def Let_def ends_in_Inl h_def)
  next
    case (Inr h')
    with em have "hstate_ok h'" by (auto simp: emits_def step_to_def)
    with put Inr base show ?thesis by (simp add: respond_def Let_def h_def)
  qed
qed

lemma on_request_answering:
  assumes "answering e f c st" "op (request c) = (calls, r')"
  shows "\<exists>st'. on_request f op st = Inr st' \<and> answering e f (c\<lparr>request := r'\<rparr>) st' \<and> others f st st'"
proof -
  have "answering e f (c\<lparr>request := r'\<rparr>) (trace calls (put_conn f (c\<lparr>request := r'\<rparr>) st))
      \<and> others f st (trace calls (put_conn f (c\<lparr>request := r'\<rparr>) st))"
    using answering_base [OF assms(1)] by (intro answering_put [OF assms(1)]) (simp_all add: base_ok_def)
  then show ?thesis using assms(2) answering_conn [OF assms(1)] by (simp add: on_request_def)
qed

lemma close_body_busy:
  assumes "busy f st"
  shows "ends_in f E st (close_body_fd f st) (busy f)"
proof -
  obtain c where c: "get_conn st f = Some c" using assms by (auto simp: busy_def)
  then have base: "base_ok c" using assms core_connD(2) [of st f c] by (simp add: busy_def loop_inv_def)
  have "busy f st' \<and> others f st st'" if "st' = put_conn f (c\<lparr>request := r'\<rparr>) st \<or> (\<exists>cs. st' = trace cs (put_conn f (c\<lparr>request := r'\<rparr>) st))" for st' r'
  proof -
    have "same_regs st st'" "lp_conns st' = omap_put f (c\<lparr>request := r'\<rparr>) (lp_conns st)" using that by auto
    with busy_update [OF assms c, of "c\<lparr>request := r'\<rparr>" st'] base show ?thesis by (simp add: base_ok_def)
  qed
  then show ?thesis using c by (auto simp: close_body_fd_def Let_def)
qed

lemma finalize_body: "body (snd (finalizeBodyTmpFile e r)) = body r" "body (snd (cleanupBodyTmpFile r)) = body r"
  by (simp_all add: finalizeBodyTmpFile_def cleanupBodyTmpFile_def Let_def)

lemma dispatch_complete_ends:
  assumes "mods_ok e" "answering e f c st" "buf_ok (body (request c))"
  shows "ends_in f (conn_here f) st (dispatch_complete e f st) (busy f)"
proof -
  have base: "base_ok c" "get_conn st f = Some c" using answering_base [OF assms(2)] answering_conn [OF assms(2)] by simp_all
  define st1 where "st1 = put_conn f (setProcessing c) st"
  have s1: "on_conn f setProcessing st = Inr st1" using base by (simp add: on_conn_def with_conn_def st1_def)
  have a1: "answering e f (setProcessing c) st1" "others f st st1"
    using answering_put [OF assms(2), of st1 "setProcessing c"] base by (simp_all add: st1_def)
  have req: "request (setProcessing c) = request c" "config (setProcessing c) = config c" by (simp_all add: setProcessing_def)
  obtain c2 st2 where s2: "use_conn f (\<lambda>c. if pathRequiresCgiBodySpool (request c) (config c)
        then on_request f (finalizeBodyTmpFile e) else Inr) st1 = Inr st2"
      "answering e f c2 st2" "others f st1 st2" "body (request c2) = body (request c)"
  proof (cases "pathRequiresCgiBodySpool (request c) (config c)")
    case True
    obtain calls r' where r': "finalizeBodyTmpFile e (request c) = (calls, r')" by fastforce
    with on_request_answering [OF a1(1), of "finalizeBodyTmpFile e"] req
    obtain st2 where "on_request f (finalizeBodyTmpFile e) st1 = Inr st2" "answering e f ((setProcessing c)\<lparr>request := r'\<rparr>) st2" "others f st1 st2"
      by auto
    moreover have "body r' = body (request c)" using finalize_body(1) [of e "request c"] r' by simp
    ultimately show thesis using that True answering_conn [OF a1(1)] req by simp
  next
    case False
    then show thesis using that [OF _ a1(1)] answering_conn [OF a1(1)] req by simp
  qed
  have here2: "conn_here f st2" and c2: "get_conn st2 f = Some c2"
    using answering_here [OF s2(2)] answering_conn [OF s2(2)] by simp_all
  have "ends_in f (conn_here f) st2 (use_conn f (\<lambda>c st.
          case resolveCgiRequest (request c) (config c) of
            Some info \<Rightarrow>
              if body_file_written (request c) > 0 \<and> opened_file (request c) < 0
              then rbind (send_error e (error_code (request c)) f st) (write_and_rearm e f)
              else rbind (ApiStartCgi e f info st) (close_body_fd f)
          | None \<Rightarrow>
              rbind (on_request f cleanupBodyTmpFile st) (\<lambda>st.
              rbind (respond e f st) (write_and_rearm e f))) st2) (busy f)"
  proof (cases "resolveCgiRequest (request c2) (config c2)")
    case (Some info)
    have "ends_in f (conn_here f) st2 (rbind (ApiStartCgi e f info st2) (close_body_fd f)) (busy f)"
      by (rule ends_in_bind [OF ApiStartCgi_ends [OF assms(1) s2(2)]]) (rule close_body_busy)
    with Some c2 error_busy [OF assms(1) here2] show ?thesis by simp
  next
    case None
    obtain calls r' where r': "cleanupBodyTmpFile (request c2) = (calls, r')" by fastforce
    with on_request_answering [OF s2(2), of cleanupBodyTmpFile]
    obtain st3 where s3: "on_request f cleanupBodyTmpFile st2 = Inr st3" "answering e f (c2\<lparr>request := r'\<rparr>) st3" "others f st2 st3"
      by auto
    have "buf_ok (body (request (c2\<lparr>request := r'\<rparr>)))"
      using finalize_body(2) [of "request c2"] r' s2(4) assms(3) by simp
    from respond_ends [OF s3(2) this]
    have "ends_in f (conn_here f) st3 (rbind (respond e f st3) (write_and_rearm e f)) (busy f)"
    proof (rule ends_in_bind)
      fix st4 assume "conn_here f st4"
      from write_and_rearm_ends [OF assms(1) this] show "ends_in f (conn_here f) st4 (write_and_rearm e f st4) (busy f)"
        by (rule ends_in_weaken) (rule turned_busy)
    qed
    from ends_from [OF s3(3) this] None c2 s3(1) show ?thesis by simp
  qed
  from ends_from [OF others_trans [OF a1(2) s2(3)] this] s1 s2(1) show ?thesis
    by (simp add: dispatch_complete_def)
qed

section \<open>The loop of \<open>_handleRead\<close>\<close>

lemma spooled_all:
  assumes "fed c" "parse_state (request c) = PSTATE_COMPLETE" "\<not> chunked (request c)"
    and "pathRequiresCgiBodySpool (request c) (config c) \<Longrightarrow> content (body (request c)) = []"
  shows "isBodyFullySpooled c"
proof -
  have "conn_ok c" "body_file_written (request c) = spooled (request c)"
    using assms(1) by (simp_all add: fed_def Let_def)
  with assms(2) have r: "received c" "body_file_written (request c) = spooled (request c)"
    by (simp_all add: conn_ok_def Let_def)
  have b: "buf_ok (body (request c))" using assms(1) by (rule fed_body)
  show ?thesis
  proof (cases "content_length (request c) = 0")
    case True
    with r(1) assms(3) show ?thesis by (simp add: isBodyFullySpooled_def expectsBody_def received_def Let_def)
  next
    case False
    then have w: "written (request c) = content_length (request c)" using r(1) assms(3) by (simp add: received_def Let_def)
    show ?thesis
    proof (cases "pathRequiresCgiBodySpool (request c) (config c)")
      case True
      then have "content (body (request c)) = []" by (rule assms(4))
      moreover from this have "spooled (request c) = written (request c)" by (simp add: spooled_def)
      ultimately show ?thesis using True w r(2) b assms(2) False by (simp add: isBodyFullySpooled_def Let_def buf_ok_empty)
    next
      case False
      with w assms(3) \<open>content_length (request c) \<noteq> 0\<close> show ?thesis by (simp add: isBodyFullySpooled_def Let_def)
    qed
  qed
qed

lemma maybe_complete_idle:
  assumes "fed c"
  shows "maybeCompletePostWithoutLength c = c"
  using assms by (auto simp: maybeCompletePostWithoutLength_def fed_def Let_def conn_ok_def receiving_def)

lemma resume_idle:
  assumes "reading_ok c"
  shows "resumeBodyIfNeeded c = c"
  using assms by (auto simp: resumeBodyIfNeeded_def reading_ok_def Let_def conn_ok_def received_def)

lemma on_conn_idle:
  assumes "midway e f c st" "op c = c"
  shows "\<exists>st'. on_conn f op st = Inr st' \<and> midway e f c st' \<and> others f st st'"
  using assms midway_put [OF assms(1), of "put_conn f c st" c] midway_base [OF assms(1)] midway_conn [OF assms(1)]
  by (simp add: on_conn_def with_conn_def)

lemma maybe_complete_step:
  assumes "midway e f c st" "fed c"
  shows "\<exists>st'. on_conn f maybeCompletePostWithoutLength st = Inr st' \<and> midway e f c st' \<and> others f st st'"
  using assms(1) by (rule on_conn_idle) (rule maybe_complete_idle [OF assms(2)])

lemma try_dispatch_ends:
  assumes "mods_ok e" "midway e f c st" "fed c"
  shows "ends f (conn_here f) st (tryDispatchComplete e f st) (\<lambda>ret st'. if ret then busy f st' else st' = st
    \<and> (parse_state (request c) = PSTATE_COMPLETE \<longrightarrow> \<not> isBodyFullySpooled c))"
proof -
  have c: "get_conn st f = Some c" using assms(2) by (rule midway_conn)
  show ?thesis
  proof (cases "parse_state (request c) \<noteq> PSTATE_COMPLETE \<or> \<not> isBodyFullySpooled c")
    case True
    with c show ?thesis by (auto simp: tryDispatchComplete_def ends_def)
  next
    case False
    have "ends f (conn_here f) st (rbind (dispatch_complete e f st) (\<lambda>st. Inr (True, st))) (\<lambda>ret st'. if ret then busy f st'
        else st' = st \<and> (parse_state (request c) = PSTATE_COMPLETE \<longrightarrow> \<not> isBodyFullySpooled c))"
      by (rule ends_bind [OF dispatch_complete_ends [OF assms(1) midway_answering [OF assms(2)] fed_body(1) [OF assms(3)]]])
        (simp add: ends_def)
    with False c show ?thesis by (simp add: tryDispatchComplete_def)
  qed
qed

definition loop_head :: "loop_env \<Rightarrow> int \<Rightarrow> event_loop \<Rightarrow> bool" where
  "loop_head e f st \<longleftrightarrow> (\<exists>c. midway e f c st \<and> reading_ok c)"

lemma spool_and_dispatch:
  assumes "mods_ok e" "midway e f c st" "fed c" "pathRequiresCgiBodySpool (request c) (config c) \<longrightarrow> content (body (request c)) = []"
  shows "ends f (conn_here f) st (tryDispatchComplete e f st) (\<lambda>ret st'. if ret then busy f st' else loop_head e f st')"
proof -
  have "loop_head e f st" if "parse_state (request c) = PSTATE_COMPLETE \<longrightarrow> \<not> isBodyFullySpooled c"
  proof -
    have "chunked (request c)" if "parse_state (request c) = PSTATE_COMPLETE"
      using spooled_all [OF assms(3) that] assms(4) \<open>parse_state (request c) = PSTATE_COMPLETE \<longrightarrow> \<not> isBodyFullySpooled c\<close> that by blast
    then show ?thesis using assms(2) fed_reading [OF assms(3)] by (auto simp: loop_head_def)
  qed
  with try_dispatch_ends [OF assms(1-3)] show ?thesis
    unfolding ends_def by (cases "tryDispatchComplete e f st") (auto split: prod.splits if_splits)
qed

lemma flush_maybe:
  assumes "tmp_ok e" "midway e f c st" "fed c"
  shows "\<exists>r' st'. flushRequestBodyToTmpFile e f st = Inr st' \<and> midway e f (c\<lparr>request := r'\<rparr>) st' \<and> others f st st'
    \<and> fed (c\<lparr>request := r'\<rparr>) \<and> content (body r') = [] \<and> pathRequiresCgiBodySpool r' (config c) = pathRequiresCgiBodySpool (request c) (config c)
    \<and> parse_state r' = parse_state (request c)"
proof -
  obtain r' st' where f: "flushRequestBodyToTmpFile e f st = Inr st'" "flushed (request c) r'" "midway e f (c\<lparr>request := r'\<rparr>) st'"
    "others f st st'" using flush_ok [OF assms] by blast
  obtain o1 o2 p w b where "r' = (request c)\<lparr>opened := o1, opened_file := o2, tmp_body_path := p, body_file_written := w, body := b\<rparr>"
    using f(2) unfolding flushed_def by metis
  then have same: "path r' = path (request c)" "parse_state r' = parse_state (request c)" by simp_all
  moreover have "content (body r') = []" using f(2) by (simp add: flushed_def)
  moreover have "pathRequiresCgiBodySpool r' (config c) = pathRequiresCgiBodySpool (request c) (config c)"
    unfolding pathRequiresCgiBodySpool_def same by (rule refl)
  ultimately show ?thesis using f flushed_fed [OF assms(3) f(2)] by blast
qed

lemma loop_head_inv: "loop_head e f st \<Longrightarrow> loop_inv st"
  by (auto simp: loop_head_def intro: midway_loop)

lemma after_feed_ends:
  assumes "mods_ok e" "tmp_ok e" "midway e f c st" "parse_state (request c) \<noteq> PSTATE_ERROR \<Longrightarrow> fed c"
  shows "ends f (conn_here f) st (after_feed e f st) (\<lambda>ret st'. if ret then busy f st' else loop_head e f st')"
proof (cases "parse_state (request c) = PSTATE_ERROR")
  case True
  have c: "get_conn st f = Some c" using assms(3) by (rule midway_conn)
  have "ends f (conn_here f) st (rbind (parse_error e f st) (\<lambda>st. Inr (True, st))) (\<lambda>ret st'. if ret then busy f st' else loop_head e f st')"
  proof (rule ends_bind)
    show "ends_in f (conn_here f) st (parse_error e f st) (busy f)"
      using error_busy [OF assms(1) midway_here [OF assms(3)]] c by (simp add: parse_error_def)
  qed (simp add: ends_def)
  with True c show ?thesis by (simp add: after_feed_def)
next
  case False
  have fed: "fed c" using assms(4) False .
  have c: "get_conn st f = Some c" using assms(3) by (rule midway_conn)
  let ?spool = "(parse_state (request c) = PSTATE_BODY \<or> parse_state (request c) = PSTATE_COMPLETE) \<and> pathRequiresCgiBodySpool (request c) (config c)"
  obtain c1 st1 where s1: "(if ?spool then flushRequestBodyToTmpFile e f st else Inr st) = Inr st1" "midway e f c1 st1" "others f st st1"
    "fed c1" "parse_state (request c1) = PSTATE_COMPLETE \<longrightarrow> pathRequiresCgiBodySpool (request c1) (config c1) \<longrightarrow> content (body (request c1)) = []"
  proof (cases ?spool)
    case True
    with flush_maybe [OF assms(2,3) fed] that show thesis by (metis connection.select_convs connection.surjective connection.update_convs(7))
  next
    case False
    then show thesis using that [of st c] assms(3) fed by auto
  qed
  obtain st2 where s2: "on_conn f maybeCompletePostWithoutLength st1 = Inr st2" "midway e f c1 st2" "others f st1 st2"
    using maybe_complete_step [OF s1(2,4)] by blast
  have "ends f (conn_here f) st2 (tryDispatchComplete e f st2) (\<lambda>ret st'. if ret then busy f st' else loop_head e f st')"
  proof (cases "parse_state (request c1) = PSTATE_COMPLETE")
    case True
    with s1(5) spool_and_dispatch [OF assms(1) s2(2) s1(4)] show ?thesis by blast
  next
    case False
    then have "loop_head e f st2" using s2(2) fed_reading [OF s1(4)] by (auto simp: loop_head_def)
    with False midway_conn [OF s2(2)] show ?thesis by (simp add: tryDispatchComplete_def ends_def)
  qed
  moreover have "after_feed e f st = tryDispatchComplete e f st2"
    using False c s1(1) s2(1) by (simp add: after_feed_def)
  moreover have "others f st st2" using others_trans [OF s1(3) s2(3)] .
  ultimately show ?thesis by (auto simp: ends_def intro: others_trans split: sum.splits)
qed

lemma read_end_ends:
  assumes "loop_head e f st"
  shows "ends_in f E st (read_end e f st) loop_inv"
proof -
  obtain c where c: "midway e f c st" "reading_ok c" using assms by (auto simp: loop_head_def)
  have idle: "\<not> (parse_state (request c) = PSTATE_BODY \<and> \<not> chunked (request c) \<and> content_length (request c) = 0)"
    using c(2) by (auto simp: reading_ok_def Let_def conn_ok_def receiving_def split: if_splits)
  have "ends_in f E st (closeClient e f st) loop_inv"
    using closeClient_ends [OF midway_here [OF c(1)]] by (rule ends_in_weaken) (simp add: gone_def)
  with idle midway_conn [OF c(1)] show ?thesis by (auto simp: read_end_def Let_def)
qed

lemma read_drained_ends:
  assumes "mods_ok e" "tmp_ok e" "loop_head e f st"
  shows "ends_in f (conn_here f) st (read_drained e f st) loop_inv"
proof -
  obtain c where c: "midway e f c st" "reading_ok c" using assms(3) by (auto simp: loop_head_def)
  have fed: "fed c" using c(2) by (simp add: reading_fed)
  obtain st1 where s1: "on_conn f maybeCompletePostWithoutLength st = Inr st1" "midway e f c st1" "others f st st1"
    using maybe_complete_step [OF c(1) fed] by blast
  let ?spool = "pathRequiresCgiBodySpool (request c) (config c)"
  obtain c2 st2 where s2: "(if ?spool then flushRequestBodyToTmpFile e f st1 else Inr st1) = Inr st2" "midway e f c2 st2" "others f st1 st2"
    "fed c2" "pathRequiresCgiBodySpool (request c2) (config c2) \<longrightarrow> content (body (request c2)) = []"
  proof (cases ?spool)
    case True
    with flush_maybe [OF assms(2) s1(2) fed] that show thesis by (metis connection.select_convs connection.surjective connection.update_convs(7))
  next
    case False
    then show thesis using that [of st1 c] s1(2) fed by auto
  qed
  have "use_conn f (\<lambda>c. if pathRequiresCgiBodySpool (request c) (config c) then flushRequestBodyToTmpFile e f else Inr) st1 = Inr st2"
    using s2(1) midway_conn [OF s1(2)] by (simp split: if_splits)
  then have run: "read_drained e f st = rbind (tryDispatchComplete e f st2) (\<lambda>(_, st). Inr st)"
    using s1(1) by (simp add: read_drained_def)
  have "ends_in f (conn_here f) st2 (rbind (tryDispatchComplete e f st2) (\<lambda>(_, st). Inr st)) loop_inv"
    by (rule ends_in_bind_val [OF spool_and_dispatch [OF assms(1) s2(2,4,5)]])
      (auto simp: busy_def loop_head_inv split: if_splits)
  from ends_from [OF others_trans [OF s1(3) s2(3)] this] run show ?thesis by simp
qed

lemma recv_ends:
  assumes "loop_head e f st"
  shows "ends_in f (conn_here f) st (with_conn f (\<lambda>c. with_state c (Connection_recv (now e) (RecvData bytes) c)) st) (loop_head e f)"
proof -
  obtain c where c: "midway e f c st" "reading_ok c" using assms by (auto simp: loop_head_def)
  have rb: "buf_ok (read_buffer c)" using c(2) by (simp add: reading_ok_def Let_def)
  let ?op = "with_state c (Connection_recv (now e) (RecvData bytes) c)"
  show ?thesis
  proof (cases "Buffer_append (read_buffer c) bytes")
    case (Inl x)
    then have "thrown x" using append_thrown rb by blast
    moreover have "midway e f c (put_conn f c st) \<and> others f st (put_conn f c st)"
      using midway_put [OF c(1), of "put_conn f c st" c] midway_base [OF c(1)] by simp
    ultimately show ?thesis
      using Inl midway_conn [OF c(1)] midway_here by (auto simp: with_conn_def Connection_recv_def ends_in_Inl)
  next
    case (Inr b)
    define c' where "c' = touchActive (now e) (c\<lparr>read_buffer := b\<rparr>)"
    have b: "buf_ok b" using append_InrD [OF rb Inr] by simp
    have "body_limit c' = body_limit c" by (rule body_limit_cong) (simp_all add: c'_def touchActive_def)
    moreover have same: "request c' = request c" "config c' = config c" "configuration c' = configuration c" "read_buffer c' = b"
      "state c' = state c" "fd c' = fd c" "write_buffer c' = write_buffer c"
      by (simp_all add: c'_def touchActive_def)
    ultimately have "conn_ok c'"
      using c(2) b by (cases "parse_state (request c)") (simp_all add: reading_ok_def Let_def conn_ok_def receiving_def received_def split: if_splits)
    then have "reading_ok c'" using c(2) b same by (simp add: reading_ok_def Let_def)
    moreover have "midway e f c' (put_conn f c' st) \<and> others f st (put_conn f c' st)"
      using midway_put [OF c(1), of "put_conn f c' st" c'] midway_base [OF c(1)] same by (simp add: base_ok_def)
    ultimately show ?thesis
      using Inr midway_conn [OF c(1)] by (auto simp: with_conn_def Connection_recv_def loop_head_def c'_def)
  qed
qed

lemma idle_turn:
  assumes "loop_head e f st"
  shows "ends_in f E st (on_conn f resumeBodyIfNeeded st) (loop_head e f)"
proof -
  obtain c where c: "midway e f c st" "reading_ok c" using assms by (auto simp: loop_head_def)
  have "\<exists>st'. on_conn f resumeBodyIfNeeded st = Inr st' \<and> midway e f c st' \<and> others f st st'"
    using c(1) by (rule on_conn_idle) (rule resume_idle [OF c(2)])
  with c(2) show ?thesis by (auto simp: loop_head_def)
qed

definition parsed :: "loop_env \<Rightarrow> int \<Rightarrow> event_loop \<Rightarrow> bool" where
  "parsed e f st \<longleftrightarrow> (\<exists>c. midway e f c st \<and> (parse_state (request c) \<noteq> PSTATE_ERROR \<longrightarrow> fed c))"

lemma feed_fed:
  assumes "reading_ok c" "base_ok c" "feed w c = Inr c'"
  shows "fd c' = fd c" "state c' = state c" "base_ok c'" "parse_state (request c') \<noteq> PSTATE_ERROR \<Longrightarrow> fed c'"
proof -
  have ok: "conn_ok c" using assms(1) by (simp add: reading_ok_def Let_def)
  have o: "outer_same c c'" using outer_feed [OF ok assms(3)] .
  then show "fd c' = fd c" "state c' = state c" by (simp_all add: outer_same_def Let_def)
  obtain d where d: "feed w c = Inr d" "conn_ok d"
    "parse_state (request d) \<noteq> PSTATE_ERROR \<longrightarrow> spooled (request d) = spooled (request c)
      \<and> (parse_state (request c) \<noteq> PSTATE_COMPLETE \<longrightarrow> written (request d) \<le> max_body_size (request d) \<and> written (request d) < 2 ^ 61)"
    using feed_ok [OF ok, of w] by blast
  then have d': "d = c'" using assms(3) by simp
  have "cfg_ok (config c')" using d(2) d' by (simp add: conn_ok_def Let_def)
  then show "base_ok c'" using o assms(2) by (simp add: base_ok_def outer_same_def Let_def)
  assume p: "parse_state (request c') \<noteq> PSTATE_ERROR"
  show "fed c'"
  proof (cases "parse_state (request c) = PSTATE_COMPLETE")
    case True
    then have "c' = c" using assms(3) by (simp add: feed_def)
    with assms(1) show ?thesis by (simp add: reading_fed)
  next
    case False
    then show ?thesis using d d' p o assms(1) by (simp add: fed_def reading_ok_def outer_same_def Let_def)
  qed
qed

lemma feed_ends:
  assumes "loop_head e f st"
  shows "ends_in f E st (with_conn f (feed w) st) (parsed e f)"
proof -
  obtain c where c: "midway e f c st" "reading_ok c" using assms by (auto simp: loop_head_def)
  have "conn_ok c" using c(2) by (simp add: reading_ok_def Let_def)
  then obtain c' where c': "feed w c = Inr c'" using feed_ok by blast
  note f = feed_fed [OF c(2) _ c']
  have base: "base_ok c" using midway_base [OF c(1)] by simp
  have "midway e f c' (put_conn f c' st) \<and> others f st (put_conn f c' st)"
    using midway_put [OF c(1), of "put_conn f c' st" c'] f [OF base] by simp
  then show ?thesis using c' midway_conn [OF c(1)] f(4) [OF base] by (auto simp: with_conn_def parsed_def)
qed

lemma read_loop_ends:
  assumes "mods_ok e" "tmp_ok e"
  shows "loop_head e f st \<Longrightarrow> ends_in f (conn_here f) st (read_loop e f rs st) loop_inv"
proof (induction rs arbitrary: st)
  case Nil
  then show ?case using read_drained_ends [OF assms] by simp
next
  case (Cons r rs)
  show ?case
  proof (cases r)
    case (RecvData bytes)
    show ?thesis
    proof (cases "bytes = []")
      case True
      then show ?thesis using RecvData read_end_ends [OF Cons.prems] by simp
    next
      case False
      have "ends_in f (conn_here f) st
        (rbind (with_conn f (\<lambda>c. with_state c (Connection_recv (now e) (RecvData bytes) c)) st) (\<lambda>st.
        rbind (on_conn f resumeBodyIfNeeded st) (\<lambda>st.
        rbind (with_conn f (feed (le_os e)) st) (\<lambda>st.
        rbind (after_feed e f st) (\<lambda>(returned, st). if returned then Inr st else read_loop e f rs st))))) loop_inv"
      proof (rule ends_in_bind [OF recv_ends [OF Cons.prems]], rule ends_in_bind [OF idle_turn], assumption,
          rule ends_in_bind [OF feed_ends], assumption)
        fix st1 assume "parsed e f st1"
        then obtain c where c: "midway e f c st1" "parse_state (request c) \<noteq> PSTATE_ERROR \<Longrightarrow> fed c" by (auto simp: parsed_def)
        show "ends_in f (conn_here f) st1
          (rbind (after_feed e f st1) (\<lambda>(returned, st). if returned then Inr st else read_loop e f rs st)) loop_inv"
        proof (rule ends_in_bind_val [OF after_feed_ends [OF assms c]])
          fix ret st2 assume "if ret then busy f st2 else loop_head e f st2"
          then show "ends_in f (conn_here f) st2 (case (ret, st2) of (returned, st) \<Rightarrow>
              if returned then Inr st else read_loop e f rs st) loop_inv"
            using Cons.IH by (cases ret) (simp_all add: busy_def)
        qed
      qed
      with False RecvData show ?thesis by simp
    qed
  qed (use Cons.prems read_drained_ends [OF assms] read_end_ends in simp_all)
qed

lemma too_much_read_ends:
  assumes "mods_ok e" "conn_here f st"
  shows "ends_in f (conn_here f) st (too_much_read e f st) loop_inv"
proof -
  let ?close = "map_request (set_header ''connection'' ''close'')"
  obtain c where c: "get_conn st f = Some c" using assms(2) by (auto simp: conn_here_def)
  have "fd (?close c) = fd c" "base_ok c \<Longrightarrow> base_ok (?close c)" by simp_all
  from on_conn_step [of f st c ?close, OF assms(2) c this]
  obtain st1 where s: "on_conn f ?close st = Inr st1" "conn_here f st1" "others f st st1" by blast
  have "ends_in f (conn_here f) st1 (rbind (send_error e 413 f st1) (write_and_rearm e f)) loop_inv"
    using error_busy [OF assms(1) s(2)] by (rule ends_in_weaken) (simp add: busy_def)
  from ends_from [OF s(3) this] s(1) show ?thesis by (simp add: too_much_read_def)
qed

lemma handleRead_ends:
  assumes "mods_ok e" "tmp_ok e" "pipe_ok e st" "loop_inv st" "get_conn st f = Some c" "state c = CSTATE_READING"
  shows "ends_in f (conn_here f) st (handleRead e f st) loop_inv"
proof -
  have "loop_head e f st" using loop_midway [OF assms(4-6,3)] by (auto simp: loop_head_def)
  then have "ends_in f (conn_here f) st (catch_limit (read_loop e f (le_recv e) st) (too_much_read e f)) loop_inv"
    by (rule ends_in_caught [OF read_loop_ends [OF assms(1,2)]]) (rule too_much_read_ends [OF assms(1)])
  with assms(5,6) show ?thesis by (simp add: handleRead_def)
qed

end
