(* ===== verification/Loop_Safety.thy ===== *)
theory Loop_Safety
  imports Loop_Reading
begin

text \<open>
  The event loop is safe: no event makes it touch a deleted connection or \<open>EventRef\<close>, run
  off a buffer or hang, and every turn of \<open>run\<close> restores the invariant.
\<close>

section \<open>Output of a script\<close>

lemma writeChunk_safe:
  assumes "buf_ok wb"
  shows "case writeChunk wb d of Inl (x, wb') \<Rightarrow> thrown x \<and> buf_ok wb' | Inr wb' \<Rightarrow> buf_ok wb'"
proof -
  have step: "(\<exists>x. Buffer_append b s = Inl x \<and> thrown x) \<or> (\<exists>b'. Buffer_append b s = Inr b' \<and> buf_ok b')" if "buf_ok b" for b s
    using append_thrown [OF that] append_InrD [OF that] by (cases "Buffer_append b s") blast+
  have "case rbind (with_state b (Buffer_append b s)) k of Inl (x, wb') \<Rightarrow> thrown x \<and> buf_ok wb' | Inr wb' \<Rightarrow> buf_ok wb'"
    if "buf_ok b" "\<And>b'. buf_ok b' \<Longrightarrow> case k b' of Inl (x, wb') \<Rightarrow> thrown x \<and> buf_ok wb' | Inr wb' \<Rightarrow> buf_ok wb'" for b s k
    using step [OF that(1), of s] that by auto
  moreover have "case with_state b (Buffer_append b s) of Inl (x, wb') \<Rightarrow> thrown x \<and> buf_ok wb' | Inr wb' \<Rightarrow> buf_ok wb'"
    if "buf_ok b" for b s using step [OF that, of s] that by auto
  ultimately show ?thesis using assms by (simp add: writeChunk_def)
qed

definition job_kept :: "cgi_job \<Rightarrow> cgi_job \<Rightarrow> bool" where
  "job_kept job job' \<longleftrightarrow> j_client_fd job' = j_client_fd job \<and> j_stdin_fd job' = j_stdin_fd job
     \<and> (\<not> j_headers_sent job' \<longrightarrow> buf_ok (j_buffer job'))"

definition block_safe :: "cgi_job \<Rightarrow> (failure \<times> cgi_job \<times> buffer) + cgi_turn \<times> cgi_job \<times> buffer \<Rightarrow> bool" where
  "block_safe job r \<longleftrightarrow>
     (case r of Inl (x, job', wb') \<Rightarrow> thrown x \<and> job_kept job job' \<and> buf_ok wb'
      | Inr (_, job', wb') \<Rightarrow> job_kept job job' \<and> buf_ok wb')"

lemma chunk_safe:
  assumes "buf_ok wb" "job_kept job0 job" "\<And>wb'. buf_ok wb' \<Longrightarrow> block_safe job0 (k wb')"
  shows "block_safe job0 (rbind (chunk_for job (writeChunk wb d)) k)"
  using writeChunk_safe [OF assms(1), of d] assms(2,3)
  by (cases "writeChunk wb d") (auto simp: block_safe_def)

lemma cgi_block_safe:
  assumes "buf_ok wb" "\<not> j_headers_sent job \<longrightarrow> buf_ok (j_buffer job)"
  shows "block_safe job (cgi_block req job wb bytes)"
proof (cases "j_headers_sent job")
  case True
  let ?job = "job\<lparr>j_parent_request := j_parent_request job + 1\<rparr>"
  have "job_kept job ?job" using True by (simp add: job_kept_def)
  then have "block_safe job (cgi_body_block ?job wb bytes)"
    unfolding cgi_body_block_def by (rule chunk_safe [OF assms(1)]) (use True in \<open>simp add: block_safe_def job_kept_def\<close>)
  with True show ?thesis by (simp add: cgi_block_def Let_def)
next
  case False
  let ?job = "job\<lparr>j_parent_request := j_parent_request job + 1\<rparr>"
  have ok: "buf_ok (j_buffer ?job)" using False assms(2) by simp
  show ?thesis
  proof (cases "Buffer_append_result (j_buffer ?job) bytes")
    case (Inl x)
    then have "thrown x" using append_upto_InlD [OF ok] by (auto simp: Buffer_append_result_def thrown_def)
    then show ?thesis using Inl False ok assms(1)
      by (simp add: cgi_block_def cgi_headers_block_def block_safe_def job_kept_def)
  next
    case (Inr rb)
    then have rb: "buf_ok rb" using append_upto_InrD [OF ok] by (auto simp: Buffer_append_result_def)
    show ?thesis
    proof (cases "findHeaderEnd (content rb)")
      case None
      then show ?thesis using Inr False rb assms(1)
        by (simp add: cgi_block_def cgi_headers_block_def block_safe_def job_kept_def buf_ok_data Let_def)
    next
      case (Some n)
      let ?job1 = "?job\<lparr>j_buffer := rb\<rparr>"
      have "block_safe job (rbind (with_state (?job1, wb) (flushCgiHeaders (take n (content rb)) req wb)) (\<lambda>wb.
             let job = ?job1\<lparr>j_headers_sent := True\<rparr>; rest = drop n (content rb) in
           rbind (chunk_for job (writeChunk wb rest)) (\<lambda>wb.
             Inr (CgiMore, job\<lparr>j_body_written := j_body_written job + length rest,
                               j_buffer := Buffer_earase rb\<rparr>, wb))))"
      proof (cases "flushCgiHeaders (take n (content rb)) req wb")
        case (Inl x)
        then have "thrown x" using append_thrown [OF assms(1)] by (simp add: flushCgiHeaders_def)
        then show ?thesis using Inl rb assms(1) by (simp add: block_safe_def job_kept_def)
      next
        case (Inr wb1)
        then have "buf_ok wb1" using append_InrD [OF assms(1)] by (simp add: flushCgiHeaders_def)
        moreover have "job_kept job (?job1\<lparr>j_headers_sent := True\<rparr>)" by (simp add: job_kept_def)
        ultimately have "block_safe job (rbind (chunk_for (?job1\<lparr>j_headers_sent := True\<rparr>) (writeChunk wb1 (drop n (content rb)))) (\<lambda>wb.
             Inr (CgiMore, ?job1\<lparr>j_headers_sent := True,
               j_body_written := j_body_written (?job1\<lparr>j_headers_sent := True\<rparr>) + length (drop n (content rb)),
               j_buffer := Buffer_earase rb\<rparr>, wb)))"
          by (rule chunk_safe) (simp add: block_safe_def job_kept_def)
        with Inr show ?thesis by (simp add: Let_def)
      qed
      with Inr False rb Some show ?thesis
        by (simp add: cgi_block_def cgi_headers_block_def buf_ok_data Let_def)
    qed
  qed
qed

definition alive :: "int \<Rightarrow> event_loop \<Rightarrow> bool" where
  "alive f st \<longleftrightarrow> loop_inv st \<and> get_conn st f \<noteq> None"

lemma cgi_wrote_ends:
  assumes "mods_ok e" "conn_here f st"
  shows "ends_in f E st (cgi_wrote e f st) (alive f)"
  unfolding cgi_wrote_def
proof (rule ends_in_bind [OF write_and_rearm_ends [OF assms]])
  fix st' assume "turned f st st'"
  then show "ends_in f E st' (use_conn f (\<lambda>_. Inr) st') (alive f)" by (auto simp: turned_def writing_now_def alive_def)
qed

lemma job_here_loop: "loop_inv st \<Longrightarrow> omap_get (lp_jobs st) rfd = Some j \<Longrightarrow> job_here (j_client_fd j) rfd st"
  using core_jobD [of st rfd j] by (auto simp: job_here_def conn_here_def loop_inv_def inv_except_def job_ok_def)

lemma job_not_reading: "loop_inv st \<Longrightarrow> has_job st f \<Longrightarrow> get_conn st f = Some c \<Longrightarrow> state c \<noteq> CSTATE_READING"
  unfolding loop_inv_def live_def by (metis ConnectionState.distinct insertE singletonD)

lemma put_job_loop:
  assumes "loop_inv st" "omap_get (lp_jobs st) rfd = Some j" "job_kept j j'"
  shows "loop_inv (put_job rfd j' st)" "others f st (put_job rfd j' st)" "job_here (j_client_fd j) rfd (put_job rfd j' st)"
proof -
  have core: "core st" using assms(1) by (simp add: loop_inv_def)
  note p = put_job_ok [OF core assms(2), of j']
  show inv: "loop_inv (put_job rfd j' st)" using p assms(1,3) by (simp add: loop_inv_def job_kept_def)
  show "others f st (put_job rfd j' st)" using p assms(3) by (simp add: job_kept_def)
  show "job_here (j_client_fd j) rfd (put_job rfd j' st)"
    using job_here_loop [OF inv, of rfd j'] assms(3) by (simp add: job_kept_def)
qed

lemma fail_loop:
  assumes "mods_ok e" "job_here f rfd st"
  shows "ends_in f (job_here f rfd) st (failCgiJob e rfd code st) (alive f)"
  using failCgiJob_ends [OF assms] by (rule ends_in_weaken) (auto simp: answered_def writing_now_def alive_def)

lemma cgi_data_ends:
  assumes "mods_ok e" "loop_inv st" "omap_get (lp_jobs st) rfd = Some j" "j_client_fd j = f"
  shows "ends_in f (job_here f rfd) st (cgi_data e rfd j bytes st) (alive f)"
proof -
  have here: "job_here f rfd st" using job_here_loop [OF assms(2,3)] assms(4) by simp
  then obtain c where c: "get_conn st f = Some c" "base_ok c" "fd c = f"
    by (auto simp: job_here_def elim: conn_hereE)
  have core: "core st" using assms(2) by (simp add: loop_inv_def)
  have "has_job st f" using assms(3,4) by (auto simp: has_job_def)
  then have nr: "state c \<noteq> CSTATE_READING" using job_not_reading assms(2) c(1) by blast
  have step: "loop_inv st' \<and> others f st st' \<and> job_here f rfd st'"
    if "job_kept j j'" "buf_ok wb" "st' = put_conn f (c\<lparr>write_buffer := wb\<rparr>) (put_job rfd j' st)" for j' wb st'
  proof -
    note p = put_job_loop [OF assms(2,3) that(1)]
    have u: "loop_inv st' \<and> others f (put_job rfd j' st) st' \<and> get_conn st' f = Some (c\<lparr>write_buffer := wb\<rparr>)"
      unfolding that(3) by (rule conn_update [where c = c]) (use p(1) c nr that(2) in \<open>simp_all add: base_ok_def\<close>)
    moreover have "omap_get (lp_jobs st') rfd = Some j'" "j_client_fd j' = f"
      using that(1,3) assms(4) by (simp_all add: job_kept_def)
    ultimately show ?thesis
      using others_trans [OF p(2)] by (auto simp: job_here_def conn_here_def loop_inv_except)
  qed
  have "\<not> j_headers_sent j \<longrightarrow> buf_ok (j_buffer j)" using core_jobD [OF core assms(3)] by (simp add: job_ok_def)
  then have safe: "block_safe j (cgi_block (request c) j (write_buffer c) bytes)"
    using c(2) by (intro cgi_block_safe) (simp_all add: base_ok_def)
  show ?thesis
  proof (cases "cgi_block (request c) j (write_buffer c) bytes")
    case (Inl z)
    obtain x j' wb where z: "z = (x, j', wb)" by (cases z)
    with safe Inl have "thrown x" "job_kept j j'" "buf_ok wb" by (simp_all add: block_safe_def)
    with step [OF this(2,3) refl] show ?thesis
      using Inl z c(1) assms(4) by (simp add: cgi_data_def ends_in_Inl Let_def)
  next
    case (Inr z)
    obtain turn j' wb where z: "z = (turn, j', wb)" by (cases z)
    with safe Inr have k: "job_kept j j'" "buf_ok wb" by (simp_all add: block_safe_def)
    define st' where "st' = put_conn f (c\<lparr>write_buffer := wb\<rparr>) (put_job rfd j' st)"
    note s = step [OF k st'_def]
    have "ends_in f (job_here f rfd) st' (failCgiJob e rfd 502 st') (alive f)"
      using s by (blast intro: fail_loop [OF assms(1)])
    moreover have "conn_here f st'" using s by (simp add: job_here_def)
    ultimately have all: "ends_in f (job_here f rfd) st' (if turn = CgiBadHead then failCgiJob e rfd 502 st'
        else if j_headers_sent j' then cgi_wrote e f st' else Inr st') (alive f)"
      using cgi_wrote_ends [OF assms(1)] s by (simp add: alive_def conn_here_def)
    have run: "cgi_data e rfd j bytes st = (if turn = CgiBadHead then failCgiJob e rfd 502 st'
        else if j_headers_sent j' then cgi_wrote e f st' else Inr st')"
      using Inr z c(1) assms(4) by (simp add: cgi_data_def Let_def st'_def)
    have "others f st st'" using s by blast
    from ends_from [OF this all] show ?thesis unfolding run .
  qed
qed

lemma handleCgiEvent_ends:
  assumes "mods_ok e" "loop_inv st" "omap_get (lp_jobs st) rfd = Some j" "j_client_fd j = f"
  shows "ends_in f (job_here f rfd) st (handleCgiEvent e rfd st) (alive f)"
proof -
  have core: "core st" using assms(2) by (simp add: loop_inv_def)
  have here: "job_here f rfd st" using job_here_loop [OF assms(2,3)] assms(4) by simp
  then obtain c where c: "get_conn st f = Some c" by (auto simp: job_here_def conn_here_def)
  have "job_kept j (j\<lparr>j_parent_request := 0\<rparr>)" using core_jobD [OF core assms(3)] by (simp add: job_kept_def job_ok_def)
  note p = put_job_loop [OF assms(2,3) this, unfolded assms(4)]
  have fin: "ends_in f (job_here f rfd) st (finishCgiJob e rfd (put_job rfd (j\<lparr>j_parent_request := 0\<rparr>) st)) (alive f)"
    by (rule ends_from [OF p(2)], rule ends_in_weaken [OF finishCgiJob_ends [OF assms(1) p(3)]]) (auto simp: answered_def writing_now_def alive_def)
  have "ends_in f (job_here f rfd) st (case le_read e rfd of
             ReadData bytes \<Rightarrow> cgi_data e rfd j bytes st
           | ReadEnd \<Rightarrow> finishCgiJob e rfd (put_job rfd (j\<lparr>j_parent_request := 0\<rparr>) st)
           | ReadFail \<Rightarrow> Inr st) (alive f)"
    using cgi_data_ends [OF assms] fin assms(2) c by (cases "le_read e rfd") (simp_all add: alive_def)
  then have "ends_in f (job_here f rfd) st (catch_limit (case le_read e rfd of
             ReadData bytes \<Rightarrow> cgi_data e rfd j bytes st
           | ReadEnd \<Rightarrow> finishCgiJob e rfd (put_job rfd (j\<lparr>j_parent_request := 0\<rparr>) st)
           | ReadFail \<Rightarrow> Inr st) (\<lambda>st. if lp_stopped st then Inr st else failCgiJob e rfd 413 st)) (alive f)"
  proof (rule ends_in_caught)
    fix st' assume h: "job_here f rfd st'"
    then have "\<not> lp_stopped st'" by (simp add: job_here_def conn_here_def inv_except_def core_def)
    with fail_loop [OF assms(1) h] show "ends_in f (job_here f rfd) st'
        (if lp_stopped st' then Inr st' else failCgiJob e rfd 413 st') (alive f)" by simp
  qed
  moreover have "\<not> lp_stopped st" using core by (simp add: core_def)
  ultimately show ?thesis
    using assms(2-4) c fail_loop [OF assms(1) here] by (simp add: handleCgiEvent_def alive_def)
qed

section \<open>Writing to a client\<close>

lemma reading_ok_cong:
  assumes "request c' = request c" "config c' = config c" "configuration c' = configuration c" "read_buffer c' = read_buffer c"
  shows "reading_ok c' = reading_ok c"
proof -
  have "body_limit c' = body_limit c" using assms by (intro body_limit_cong) simp_all
  then show ?thesis using assms
    by (cases "parse_state (request c)") (simp_all add: reading_ok_def Let_def conn_ok_def receiving_def received_def)
qed

definition closable :: "int \<Rightarrow> event_loop \<Rightarrow> bool" where
  \<comment> \<open>\<open>_closeClient\<close> can be called\<close>
  "closable f st \<longleftrightarrow> alive f st \<or> gone f st"

definition sent :: "int \<Rightarrow> event_loop \<Rightarrow> event_loop \<Rightarrow> bool" where
  "sent f st st' \<longleftrightarrow> loop_inv st' \<and> get_conn st' f \<noteq> None \<and> lp_jobs st' = lp_jobs st"

lemma send_loop_ends:
  "loop_inv st \<Longrightarrow> get_conn st f \<noteq> None \<Longrightarrow> ends_in f E st (send_loop e f rs st) (sent f st)"
proof (induction rs arbitrary: st)
  case Nil
  then show ?case by (subst send_loop.simps) (auto simp: sent_def)
next
  case (Cons r rs)
  obtain c where c: "get_conn st f = Some c" using Cons.prems(2) by auto
  have ok: "base_ok c" "fd c = f" using Cons.prems(1) c core_connD by (auto simp: loop_inv_def)
  show ?case
  proof (cases "Buffer_empty (write_buffer c) \<or> r = None")
    case True
    with c Cons.prems show ?thesis by (subst send_loop.simps) (auto simp: sent_def)
  next
    case False
    then obtain n where r: "r = Some n" by auto
    obtain c' where c': "Connection_send (now e) (Some n) c = Inr c'" "base_ok c'" "fd c' = fd c" "state c' = state c"
      "request c' = request c" "config c' = config c" "configuration c' = configuration c" "read_buffer c' = read_buffer c"
    proof (cases "n > 0")
      case True
      obtain wb where "Buffer_consume (write_buffer c) n = Inr wb" "buf_ok wb"
        using consume_ok [of "write_buffer c" n] ok(1) by (auto simp: base_ok_def)
      with that [of "touchActive (now e) (c\<lparr>write_buffer := wb\<rparr>)"] False True ok(1) show thesis
        by (simp add: Connection_send_def touchActive_def base_ok_def)
    next
      case n0: False
      with that [of c] False ok(1) show thesis by (simp add: Connection_send_def)
    qed
    define st1 where "st1 = put_conn f c' st"
    have u: "loop_inv st1 \<and> others f st st1 \<and> get_conn st1 f = Some c'"
    proof (rule conn_update [OF Cons.prems(1) _ _ c])
      assume "state c = CSTATE_READING"
      then have "reading_ok c" using Cons.prems(1) c unfolding loop_inv_def live_def by metis
      then show "reading_ok c'" using reading_ok_cong [of c' c] c' by simp
    qed (use c' ok in \<open>simp_all add: st1_def\<close>)
    then have "ends_in f E st1 (send_loop e f rs st1) (sent f st)"
      using ends_in_weaken [OF Cons.IH [of st1]] by (auto simp: sent_def st1_def)
    from ends_from [OF _ this, of st] u False r c c'(1) show ?thesis
      by (subst send_loop.simps) (simp add: with_conn_def st1_def)
  qed
qed

lemma setReading_reading:
  assumes "base_ok c"
  shows "reading_ok (snd (setReading t c))" "base_ok (snd (setReading t c))" "fd (snd (setReading t c)) = fd c"
    "state (snd (setReading t c)) = CSTATE_READING"
proof -
  have "conn_ok (snd (setReading t c))" using assms by (intro setReading_ok) (simp_all add: base_ok_def)
  then show "reading_ok (snd (setReading t c))"
    by (simp add: reading_ok_def Let_def spooled_def)
      (simp add: setReading_def Connection_reset_def HttpRequest_reset_def Let_def touchActive_def)
  show "base_ok (snd (setReading t c))" "fd (snd (setReading t c)) = fd c"
    "state (snd (setReading t c)) = CSTATE_READING"
    using assms by (simp_all add: base_ok_def setReading_def Connection_reset_def HttpRequest_reset_def Let_def touchActive_def)
qed

lemma keep_or_close_ends:
  assumes "mods_ok e" "loop_inv st" "\<not> has_job st f" "get_conn st f = Some c"
  shows "ends_in f E st (keep_or_close e f st) (closable f)"
proof -
  have base: "base_ok c" "fd c = f" using assms(2,4) core_connD by (auto simp: loop_inv_def)
  have here: "conn_here f st" using assms(2,4) by (simp add: conn_here_def loop_inv_except)
  obtain calls c' where r: "setReading (now e) c = (calls, c')" by fastforce
  note sr = setReading_reading [OF base(1), of "now e", unfolded r snd_conv]
  define st1 where "st1 = trace (map Sys calls) (put_conn f c' st)"
  have s: "inv_except f st1 \<and> others f st st1 \<and> get_conn st1 f = Some c'"
    by (rule conn_step) (use loop_inv_except [OF assms(2)] assms(4) base sr in \<open>simp_all add: st1_def\<close>)
  have "has_job st1 f = has_job st f" by (simp add: st1_def has_job_def)
  then have "fits_life st1 f c'" using assms(3) sr by (simp add: fits_life_def)
  then obtain st2 where "rearmClient e f st1 = Inr st2" "loop_inv st2" "others f st1 st2" "get_conn st2 f = Some c'"
    using rearm_ok [OF assms(1), of f st1 c'] s by blast
  then have "ends_in f E st1 (rearmClient e f st1) (closable f)" by (simp add: closable_def alive_def)
  from ends_from [OF _ this, of st] s
  have keep: "ends_in f E st (rearmClient e f st1) (closable f)" by blast
  have close: "ends_in f E st (closeClient e f st) (closable f)"
    by (rule ends_in_weaken [OF closeClient_ends [OF here]]) (simp add: closable_def)
  have wr: "ends_in f E st (write_and_rearm e f st) (closable f)"
    by (rule ends_in_weaken [OF write_and_rearm_ends [OF assms(1) here]]) (auto simp: turned_def writing_now_def closable_def alive_def)
  show ?thesis
    using keep close wr assms(4) r by (simp add: keep_or_close_def st1_def)
qed

lemma modify_loop:
  assumes "mods_ok e" "loop_inv st" "omap_get (lp_jobs st) rfd = Some j"
  shows "\<exists>st'. modifyEventFd e rfd fl st = Inr st' \<and> loop_inv st' \<and> others f st st' \<and> lp_jobs st' = lp_jobs st \<and> lp_conns st' = lp_conns st"
proof -
  have core: "core st" using assms(2) by (simp add: loop_inv_def)
  have "ref_at st rfd EV_CGI" using core_jobD [OF core assms(3)] by (simp add: job_ok_def)
  moreover have "le_mod_ok e rfd" using assms(1) by (simp add: mods_ok_def)
  ultimately obtain a st' where m: "modifyEventFd e rfd fl st = Inr st'"
      "st' = st\<lparr>lp_interest := omap_put rfd (a, fl) (lp_interest st)\<rparr>" "core st'" "\<forall>h. h \<noteq> rfd \<longrightarrow> live st' h = live st h" "keeps st st'"
    using modify_ok [OF core, of rfd EV_CGI e fl] by auto
  have same: "lp_jobs st' = lp_jobs st" "lp_conns st' = lp_conns st" by (simp_all add: m(2))
  then have get: "get_conn st' g = get_conn st g" for g by (simp add: get_conn_def)
  have "live st' g" for g
  proof (cases "g = rfd")
    case True
    then show ?thesis using get job_not_conn [OF core assms(3)] by simp
  next
    case False
    then show ?thesis using m(4) assms(2) by (simp add: loop_inv_def)
  qed
  then have "loop_inv st'" using m(3) by (simp add: loop_inv_def)
  moreover have "others f st st'" using m(5) get by (simp add: others_def)
  ultimately show ?thesis using m(1) same by blast
qed

lemma pull_cgi_ends:
  assumes "mods_ok e" "loop_inv st" "omap_get (lp_jobs st) rfd = Some j" "j_client_fd j = f"
  shows "ends_in f (\<lambda>_. True) st (pull_cgi e f rfd st) (alive f)"
proof -
  let ?T = "\<lambda>_ :: event_loop. True"
  have "job_here f rfd st" using job_here_loop [OF assms(2,3)] assms(4) by simp
  then obtain c where c: "get_conn st f = Some c" and here: "conn_here f st" by (auto simp: job_here_def conn_here_def)
  have wr: "ends_in f ?T st (write_and_rearm e f st) (alive f)" if "conn_here f st" for st
    by (rule ends_in_weaken [OF write_and_rearm_ends [OF assms(1) that]]) (auto simp: turned_def writing_now_def alive_def)
  obtain st1 where s1: "modifyEventFd e rfd [EPOLLIN, EPOLLET, EPOLLHUP, EPOLLERR] st = Inr st1" "loop_inv st1" "others f st st1"
    "lp_jobs st1 = lp_jobs st" using modify_loop [OF assms(1-3)] by blast
  have "ends_in f ?T st1 (handleCgiEvent e rfd st1) (alive f)"
    using handleCgiEvent_ends [OF assms(1) s1(2), of rfd j f] s1(4) assms(3,4)
    by (auto simp: ends_in_def ends_def split: sum.splits)
  then have "ends_in f ?T st1 (rbind (handleCgiEvent e rfd st1) (\<lambda>st. if get_conn st f = None then Inr st else write_and_rearm e f st)) (alive f)"
  proof (rule ends_in_bind)
    fix st2 assume "alive f st2"
    then show "ends_in f ?T st2 (if get_conn st2 f = None then Inr st2 else write_and_rearm e f st2) (alive f)"
      using wr [of st2] by (simp add: conn_here_def loop_inv_except alive_def)
  qed
  from ends_from [OF s1(3) this] wr [OF here] s1(1) c show ?thesis by (simp add: pull_cgi_def)
qed

lemma handleWrite_ends:
  assumes "mods_ok e" "loop_inv st" "get_conn st f \<noteq> None"
  shows "ends_in f (\<lambda>_. True) st (handleWrite e f st) (closable f)"
  unfolding handleWrite_def
proof (rule ends_in_bind [OF send_loop_ends [OF assms(2,3)]])
  fix st1 assume s: "sent f st st1"
  then have inv: "loop_inv st1" "core st1" by (simp_all add: sent_def loop_inv_def)
  obtain c where c: "get_conn st1 f = Some c" using s by (auto simp: sent_def)
  from jobs_of_client_cases [OF inv(2), of f]
  show "ends_in f (\<lambda>_. True) st1 (case active_cgi f st1 of Some rfd \<Rightarrow> pull_cgi e f rfd st1 | None \<Rightarrow> keep_or_close e f st1) (closable f)"
  proof (elim disjE exE conjE)
    assume "jobs_of_client f st1 = []" "\<not> has_job st1 f"
    then show ?thesis
      using keep_or_close_ends [OF assms(1) inv(1) _ c] by (simp add: active_cgi_def)
  next
    fix rfd j assume "jobs_of_client f st1 = [rfd]" "omap_get (lp_jobs st1) rfd = Some j" "j_client_fd j = f"
    then show ?thesis using ends_in_weaken [OF pull_cgi_ends [OF assms(1) inv(1)]] by (simp add: active_cgi_def closable_def)
  qed
qed

section \<open>Accepting\<close>

lemma config_for_some:
  "f \<in> set (map fst rest) \<or> conf \<noteq> None \<Longrightarrow> set rest \<subseteq> set all \<Longrightarrow> (\<And>cfg. conf = Some cfg \<Longrightarrow> cfg \<in> snd ` set all) \<Longrightarrow>
    \<exists>cfg. config_for all i rest f conf = Some cfg \<and> cfg \<in> snd ` set all"
proof (induction all i rest f conf rule: config_for.induct)
  case (1 all i f conf)
  then show ?case by auto
next
  case (2 all i sfd cfg rest f conf)
  let ?same = "filter (\<lambda>(_, cfg'). srv_host cfg' = srv_host cfg) (take i all)"
  let ?conf = "if sfd = f then (case ?same of [] \<Rightarrow> Some cfg | same \<Rightarrow> Some (snd (last same))) else conf"
  have "last ?same \<in> set all" if "?same \<noteq> []"
    using last_in_set [OF that] by (auto dest: in_set_takeD)
  then have "x \<in> snd ` set all" if "?conf = Some x" for x
    using that "2.prems"(2,3) by (cases ?same) (force split: if_splits)+
  moreover have "f \<in> set (map fst rest) \<or> ?conf \<noteq> None" using "2.prems"(1) by (auto split: list.splits)
  ultimately have "\<exists>x. config_for all (i + 1) rest f ?conf = Some x \<and> x \<in> snd ` set all"
    using "2.prems"(2) by (intro "2.IH") auto
  then show ?case by simp
qed

lemma configForServer_some:
  assumes "servers_ok st" "f \<in> set (lp_server_fds st)"
  shows "\<exists>cfg. configForServer f st = Some cfg \<and> cfg_ok cfg"
proof -
  let ?all = "zip (lp_server_fds st) (lp_server_configs st)"
  have "length (lp_server_fds st) = length (lp_server_configs st)" using assms(1) by (simp add: servers_ok_def)
  then have "f \<in> set (map fst ?all)" "snd ` set ?all = set (lp_server_configs st)"
    using assms(2) by (simp_all flip: set_map)
  then show ?thesis
    using config_for_some [of f ?all None ?all 0] assms(1) by (auto simp: configForServer_def servers_ok_def)
qed

definition unused :: "event_loop \<Rightarrow> int \<Rightarrow> bool" where
  \<comment> \<open>the kernel can return this descriptor\<close>
  "unused st x \<longleftrightarrow> get_conn st x = None \<and> omap_get (lp_jobs st) x = None \<and> omap_get (lp_interest st) x = None"

definition accepts_ok :: "loop_env \<Rightarrow> event_loop \<Rightarrow> bool" where
  \<comment> \<open>\<open>accept\<close> returns different descriptors that are not in use\<close>
  "accepts_ok e st \<longleftrightarrow> distinct (map ac_fd (le_accepts e)) \<and> (\<forall>x \<in> set (le_accepts e). unused st (ac_fd x))"

definition only :: "int \<Rightarrow> event_loop \<Rightarrow> event_loop \<Rightarrow> bool" where
  \<comment> \<open>nothing but the descriptor \<open>x\<close> has changed\<close>
  "only x st st' \<longleftrightarrow> others x st st' \<and> lp_jobs st' = lp_jobs st \<and> lp_server_fds st' = lp_server_fds st
     \<and> lp_server_configs st' = lp_server_configs st
     \<and> (\<forall>g. g \<noteq> x \<longrightarrow> omap_get (lp_interest st') g = omap_get (lp_interest st) g)"

lemma counter_inv: "loop_inv (st\<lparr>lp_conn_counter := n\<rparr>) = loop_inv st"
proof -
  have "core (st\<lparr>lp_conn_counter := n\<rparr>) = core st"
    by (simp add: core_def refs_ok_def servers_ok_def job_ok_def ref_at_def get_conn_def)
  moreover have "live (st\<lparr>lp_conn_counter := n\<rparr>) g = live st g" for g
    by (rule live_cong) (simp_all add: get_conn_def has_job_def)
  ultimately show ?thesis by (simp add: loop_inv_def)
qed

lemma only_inv:
  assumes "loop_inv st" "unused st x" "refs_ok st'" "servers_ok st'" "lp_jobs st' = lp_jobs st" "lp_stopped st' = lp_stopped st"
    and ref: "\<And>g k. g \<noteq> x \<Longrightarrow> ref_at st' g k = ref_at st g k" and "omap_ok (lp_conns st')"
    and get: "\<And>g. g \<noteq> x \<Longrightarrow> get_conn st' g = get_conn st g"
    and int: "\<And>g. g \<noteq> x \<Longrightarrow> omap_get (lp_interest st') g = omap_get (lp_interest st) g"
    and new: "\<And>c. get_conn st' x = Some c \<Longrightarrow> fd c = x \<and> base_ok c \<and> ref_at st' x EV_CLIENT \<and> state c = CSTATE_READING \<and> reading_ok c
      \<and> (\<exists>a. omap_get (lp_interest st') x = Some (a, [EPOLLIN, EPOLLET, EPOLLRDHUP]))"
  shows "loop_inv st'"
proof -
  have core: "core st" and lv: "live st g" for g using assms(1) by (simp_all add: loop_inv_def)
  have fresh: "get_conn st x = None" "omap_get (lp_jobs st) x = None" using assms(2) by (simp_all add: unused_def)
  have client: "j_client_fd j \<noteq> x" if "omap_get (lp_jobs st) r = Some j" for r j
    using core_jobD [OF core that] fresh(1) by (auto simp: job_ok_def)
  have "core st'"
  proof (rule coreI)
    show "\<not> lp_stopped st'" "refs_ok st'" "servers_ok st'" "omap_ok (lp_conns st')" "omap_ok (lp_jobs st')"
      using assms core by (simp_all add: core_def)
    show "fd d = g \<and> base_ok d \<and> ref_at st' g EV_CLIENT" if "get_conn st' g = Some d" for g d
    proof (cases "g = x")
      case True
      then show ?thesis using new that by blast
    next
      case False
      then show ?thesis using core_connD [OF core, of g d] that get ref by simp
    qed
    show "job_ok st' r j" if "omap_get (lp_jobs st') r = Some j" for r j
    proof -
      have r: "omap_get (lp_jobs st) r = Some j" using that assms(5) by simp
      then have "r \<noteq> x" using fresh(2) by auto
      with core_jobD [OF core r] client [OF r] show ?thesis by (simp add: job_ok_def ref get)
    qed
    show "r1 = r2" if "omap_get (lp_jobs st') r1 = Some j1" "omap_get (lp_jobs st') r2 = Some j2"
        "j_client_fd j1 = j_client_fd j2" for r1 r2 j1 j2
      using one_job [OF core, of r1 j1 r2 j2] that assms(5) by simp
  qed
  moreover have "live st' g" for g
  proof (cases "g = x")
    case True
    have "\<not> has_job st' x" using client assms(5) by (auto simp: has_job_def)
    then show ?thesis using True new by (auto simp: live_def buildEpollEvent_def)
  next
    case False
    have "has_job st' g = has_job st g" using assms(5) by (simp add: has_job_def)
    then show ?thesis using lv [of g] live_cong [of st' g st] get int False by simp
  qed
  ultimately show ?thesis by (simp add: loop_inv_def)
qed

lemma accepted_client:
  assumes "loop_inv st" "unused st x" "fd c = x" "base_ok c" "reading_ok c" "state c = CSTATE_READING" "opened_file (request c) = -1"
  shows "\<exists>st'. (registerEventFd e x EV_CLIENT [EPOLLIN, EPOLLET, EPOLLRDHUP] (put_conn x c st) = Inr st'
      \<or> (\<exists>st0. registerEventFd e x EV_CLIENT [EPOLLIN, EPOLLET, EPOLLRDHUP] (put_conn x c st) = Inl (RuntimeError, st0)
          \<and> closeConnection x st0 = st')) \<and> loop_inv st' \<and> only x st st'"
proof -
  let ?fl = "[EPOLLIN, EPOLLET, EPOLLRDHUP]" and ?st = "put_conn x c st"
  have core: "core st" and lv: "live st g" for g using assms(1) by (simp_all add: loop_inv_def)
  have fresh: "get_conn st x = None" "omap_get (lp_jobs st) x = None" "omap_get (lp_interest st) x = None"
    using assms(2) by (simp_all add: unused_def)
  have "refs_ok ?st" "servers_ok ?st" using core by (simp_all add: core_def refs_ok_def servers_ok_def put_conn_def)
  from register_ok [OF this, of x EV_CLIENT e ?fl] fresh(3)
  obtain st1 where reg: "refs_ok st1" "servers_ok st1" "keeps ?st st1"
      "\<And>g k. g \<noteq> x \<Longrightarrow> ref_at st1 g k = ref_at ?st g k"
      "le_add_ok e x \<Longrightarrow> registerEventFd e x EV_CLIENT ?fl ?st = Inr st1 \<and> ref_at st1 x EV_CLIENT
        \<and> lp_interest st1 = omap_put x (lp_next ?st, ?fl) (lp_interest ?st)"
      "\<not> le_add_ok e x \<Longrightarrow> registerEventFd e x EV_CLIENT ?fl ?st = Inl (RuntimeError, st1) \<and> lp_interest st1 = lp_interest ?st"
      "lp_conns st1 = lp_conns ?st" "lp_jobs st1 = lp_jobs ?st" "lp_stopped st1 = lp_stopped ?st"
      "lp_server_fds st1 = lp_server_fds ?st" "lp_server_configs st1 = lp_server_configs ?st"
    by (cases "le_add_ok e x") auto
  have ref0: "ref_at ?st g k = ref_at st g k" for g k by (simp add: ref_at_def put_conn_def)
  have keep: "keeps st st1" using reg(3) by (simp add: keeps_def armed_def put_conn_def)
  have same: "lp_jobs st1 = lp_jobs st" "lp_stopped st1 = lp_stopped st" "lp_server_fds st1 = lp_server_fds st"
      "lp_server_configs st1 = lp_server_configs st" "lp_conns st1 = omap_put x c (lp_conns st)"
    using reg(7-11) by (simp_all add: put_conn_def)
  show ?thesis
  proof (cases "le_add_ok e x")
    case True
    have int: "lp_interest st1 = omap_put x (lp_next ?st, ?fl) (lp_interest st)" and at: "ref_at st1 x EV_CLIENT"
      using reg(5) [OF True] by (simp_all add: put_conn_def)
    have "loop_inv st1"
    proof (rule only_inv [OF assms(1,2) reg(1,2)])
      show "ref_at st1 g k = ref_at st g k" if "g \<noteq> x" for g k using reg(4) [OF that] ref0 by simp
    qed (use assms(3-6) same core int at in \<open>auto simp: get_conn_def core_def\<close>)
    moreover have "only x st st1" using keep same int by (simp add: only_def others_def get_conn_def)
    ultimately show ?thesis using reg(5) [OF True] by blast
  next
    case False
    define st2 where "st2 = closeConnection x st1"
    have "get_conn st1 x = Some c" using same(5) by (simp add: get_conn_def)
    then have c2: "st2 = trace [Sys (SysClose x)] (st1\<lparr>lp_interest := omap_erase x (lp_interest st1), lp_conns := omap_erase x (lp_conns st1)\<rparr>)"
      using assms(7) by (simp add: st2_def closeConnection_def)
    have i: "lp_interest st1 = lp_interest st" using reg(6) [OF False] by (simp add: put_conn_def)
    then have i2: "lp_interest st2 = lp_interest st" using fresh(3) by (simp add: c2 omap_erase_None)
    have "loop_inv st2"
    proof (rule only_inv [OF assms(1,2)])
      show "refs_ok st2" "servers_ok st2" using reg(1,2) i i2 by (simp_all add: refs_ok_def servers_ok_def c2 trace_def)
      show "ref_at st2 g k = ref_at st g k" if "g \<noteq> x" for g k
        using reg(4) [OF that] ref0 i i2 by (simp add: ref_at_def c2 trace_def)
    qed (use same i2 core in \<open>simp_all add: c2 trace_def get_conn_def core_def\<close>)
    moreover have "keeps st st2" using keep i i2 by (simp add: keeps_def armed_def c2)
    then have "only x st st2" using same i2 by (simp add: only_def others_def c2 trace_def get_conn_def)
    ultimately show ?thesis using reg(6) [OF False] by (auto simp: st2_def)
  qed
qed

definition spares :: "nat \<Rightarrow> event_loop \<Rightarrow> event_loop \<Rightarrow> bool" where
  \<comment> \<open>the handler of the event of \<open>a\<close> leaves the clients alone that other events may read from\<close>
  "spares a st st' \<longleftrightarrow> keeps st st'
     \<and> (\<forall>g a'. a' \<noteq> a \<longrightarrow> armed st a' g \<longrightarrow> (\<forall>c. get_conn st g = Some c \<longrightarrow> state c = CSTATE_READING)
          \<longrightarrow> get_conn st' g = get_conn st g)"

lemma keeps_refl [simp]: "keeps st st"
  by (simp add: keeps_same)

lemma spares_others:
  assumes "others f st st'" "armed st a f \<or> (\<exists>c. get_conn st f = Some c \<and> state c \<noteq> CSTATE_READING)"
  shows "spares a st st'"
proof -
  have "g \<noteq> f" if "a' \<noteq> a" "armed st a' g" "\<forall>c. get_conn st g = Some c \<longrightarrow> state c = CSTATE_READING" for g a'
    using that assms(2) by (auto simp: armed_def)
  with assms(1) show ?thesis unfolding spares_def others_def by blast
qed

lemma omap_put_put: "omap_put k v (omap_put k w m) = omap_put k v m"
  by (induction k w m rule: omap_put.induct) auto

lemma accept_loop_safe:
  assumes "cfg_ok cfg"
  shows "loop_inv st \<Longrightarrow> distinct (map ac_fd xs) \<Longrightarrow> \<forall>x \<in> set xs. unused st (ac_fd x) \<Longrightarrow>
    \<exists>st'. accept_loop e cfg xs st = Inr st' \<and> loop_inv st' \<and> keeps st st'
      \<and> (\<forall>g. g \<notin> ac_fd ` set xs \<longrightarrow> get_conn st' g = get_conn st g)"
proof (induction xs arbitrary: st)
  case Nil
  then show ?case by (subst accept_loop.simps) (simp add: addConnection_def)
next
  case (Cons x xs)
  let ?f = "ac_fd x"
  show ?case
  proof (cases "int (length (lp_conns st)) \<ge> lp_max_connections st \<or> \<not> ac_nonblock_ok x")
    case True
    then show ?thesis using Cons.prems
      by (subst accept_loop.simps) (auto simp: addConnection_def)
  next
    case False
    define st1 where "st1 = st\<lparr>lp_conn_counter := lp_conn_counter st + 1\<rparr>"
    have inv1: "loop_inv st1" using Cons.prems(1) counter_inv by (simp add: st1_def)
    define c where "c = hold_cofiguration (lp_server_configs st) ((Connection_new (now e) ?f cfg)\<lparr>conn_num := lp_conn_counter st\<rparr>)"
    have same: "get_conn st1 g = get_conn st g" "unused st1 g = unused st g" "keeps st st1" for g
      by (simp_all add: st1_def get_conn_def unused_def keeps_same)
    have fresh: "unused st1 ?f" using Cons.prems(3) same by simp
    have cfgs: "\<forall>s \<in> set (lp_server_configs st). cfg_ok s" using Cons.prems(1) by (simp add: loop_inv_def core_def servers_ok_def)
    have sel: "fd c = ?f" "state c = CSTATE_READING" "opened_file (request c) = -1" "config c = cfg" "configuration c = lp_server_configs st"
        "buf_ok (write_buffer c)" "request c = HttpRequest_new (getMaxBody cfg)" "buf_ok (read_buffer c)"
      by (simp_all add: c_def hold_cofiguration_def Connection_new_def HttpRequest_new_def)
    then have "base_ok c" using assms cfgs by (simp add: base_ok_def)
    moreover have "reading_ok c"
      using sel assms cfgs by (simp add: reading_ok_def Let_def conn_ok_def HttpRequest_new_def fresh_body_def hdrs_ok_def spooled_def)
    ultimately obtain st2 where s2: "registerEventFd e ?f EV_CLIENT [EPOLLIN, EPOLLET, EPOLLRDHUP] (put_conn ?f c st1) = Inr st2
      \<or> (\<exists>st0. registerEventFd e ?f EV_CLIENT [EPOLLIN, EPOLLET, EPOLLRDHUP] (put_conn ?f c st1) = Inl (RuntimeError, st0)
          \<and> closeConnection ?f st0 = st2)" "loop_inv st2" "only ?f st1 st2"
      using accepted_client [OF inv1 fresh sel(1) _ _ sel(2,3), of e] by blast
    have "unused st2 (ac_fd y)" if "y \<in> set xs" for y
    proof -
      have "ac_fd y \<noteq> ?f" "unused st1 (ac_fd y)" using that Cons.prems(2,3) same by (auto simp: rev_image_eqI)
      then show ?thesis using s2(3) by (simp add: unused_def only_def others_def)
    qed
    then obtain st3 where s3: "accept_loop e cfg xs st2 = Inr st3" "loop_inv st3" "keeps st2 st3"
        "\<forall>g. g \<notin> ac_fd ` set xs \<longrightarrow> get_conn st3 g = get_conn st2 g"
      using Cons.IH [OF s2(2)] Cons.prems(2) by auto
    have run: "on_conn ?f (hold_cofiguration (lp_server_configs st)) (put_conn ?f ((Connection_new (now e) ?f cfg)\<lparr>conn_num := lp_conn_counter st\<rparr>) st1)
        = Inr (put_conn ?f c (put_conn ?f ((Connection_new (now e) ?f cfg)\<lparr>conn_num := lp_conn_counter st\<rparr>) st1))"
      by (simp add: on_conn_def with_conn_def c_def)
    have twice: "put_conn ?f c (put_conn ?f d st1) = put_conn ?f c st1" for d
      by (simp add: put_conn_def omap_put_put)
    have "get_conn st ?f = None" using Cons.prems(3) by (simp add: unused_def)
    then have add: "addConnection e cfg (Some x) st = Tracked ?f (put_conn ?f ((Connection_new (now e) ?f cfg)\<lparr>conn_num := lp_conn_counter st\<rparr>) st1)"
      using False by (simp add: addConnection_def st1_def Let_def get_conn_def)
    have configs: "lp_server_configs (put_conn ?f d st1) = lp_server_configs st" for d by (simp add: put_conn_def st1_def)
    have "accept_loop e cfg (x # xs) st = accept_loop e cfg xs st2"
      using s2(1) by (subst accept_loop.simps) (auto simp: add run twice configs)
    moreover have "keeps st st3" using same(3) s2(3) s3(3) by (auto simp: only_def others_def intro: keeps_trans)
    ultimately show ?thesis using s3 s2(3) same by (auto simp: only_def others_def)
  qed
qed

lemma handleAccept_safe:
  assumes "loop_inv st" "accepts_ok e st" "sfd \<in> set (lp_server_fds st)"
  shows "\<exists>st'. handleAccept e sfd st = Inr st' \<and> loop_inv st' \<and> spares a st st'"
proof -
  have "servers_ok st" using assms(1) by (simp add: loop_inv_def core_def)
  then obtain cfg where cfg: "configForServer sfd st = Some cfg" "cfg_ok cfg" using configForServer_some assms(3) by blast
  from accept_loop_safe [OF cfg(2) assms(1), of "le_accepts e" e] assms(2)
  obtain st' where s: "accept_loop e cfg (le_accepts e) st = Inr st'" "loop_inv st'" "keeps st st'"
    "\<forall>g. g \<notin> ac_fd ` set (le_accepts e) \<longrightarrow> get_conn st' g = get_conn st g" by (auto simp: accepts_ok_def)
  have "g \<notin> ac_fd ` set (le_accepts e)" if "armed st a' g" for a' g
    using that assms(2) by (auto simp: accepts_ok_def unused_def armed_def)
  then have "spares a st st'" using s(3,4) by (auto simp: spares_def)
  with s cfg(1) show ?thesis by (simp add: handleAccept_def)
qed

section \<open>Dispatching\<close>

definition env_ok :: "loop_env \<Rightarrow> event_loop \<Rightarrow> bool" where
  \<comment> \<open>what an event may rely on: new descriptors are unused, a registered descriptor can be
    re-armed, and a spool file can be created and written\<close>
  "env_ok e st \<longleftrightarrow> mods_ok e \<and> tmp_ok e \<and> pipe_ok e st \<and> accepts_ok e st"

definition event_ok :: "event_loop \<Rightarrow> nat \<times> epoll_flag list \<Rightarrow> bool" where
  \<comment> \<open>an event \<open>epoll_wait\<close> has returned: its \<open>EventRef\<close> was registered, and has been invalidated if it is not any more\<close>
  "event_ok st = (\<lambda>(a, fl). \<exists>r. omap_get (lp_heap st) a = Some r \<and> (er_kind r \<noteq> EV_INVALID \<longrightarrow> armed st a (er_fd r)
      \<and> (er_kind r = EV_CLIENT \<longrightarrow> EPOLLIN \<in> set fl \<longrightarrow>
           (\<forall>c. get_conn st (er_fd r) = Some c \<longrightarrow> state c = CSTATE_READING))))"

lemma event_ok_spared:
  assumes "event_ok st (a', fl)" "a' \<noteq> a" "spares a st st'"
  shows "event_ok st' (a', fl)"
proof -
  obtain r where r: "omap_get (lp_heap st) a' = Some r"
      "er_kind r \<noteq> EV_INVALID \<longrightarrow> armed st a' (er_fd r) \<and> (er_kind r = EV_CLIENT \<longrightarrow> EPOLLIN \<in> set fl \<longrightarrow>
           (\<forall>c. get_conn st (er_fd r) = Some c \<longrightarrow> state c = CSTATE_READING))"
    using assms(1) by (auto simp: event_ok_def)
  obtain r' where r': "omap_get (lp_heap st') a' = Some r'" "er_kind r' = EV_INVALID \<or> r' = r \<and> (armed st a' (er_fd r) \<longrightarrow> armed st' a' (er_fd r))"
    using assms(3) r(1) unfolding spares_def keeps_def by blast
  show ?thesis
  proof (cases "er_kind r' = EV_INVALID")
    case True
    with r'(1) show ?thesis by (auto simp: event_ok_def)
  next
    case False
    with r' r have k: "r' = r" "armed st a' (er_fd r)" "armed st' a' (er_fd r)" by auto
    have "state c = CSTATE_READING" if "er_kind r = EV_CLIENT" "EPOLLIN \<in> set fl" "get_conn st' (er_fd r) = Some c" for c
    proof -
      have rd: "\<forall>c. get_conn st (er_fd r) = Some c \<longrightarrow> state c = CSTATE_READING" using r(2) False k(1) that(1,2) by auto
      then have "get_conn st' (er_fd r) = get_conn st (er_fd r)" using assms(2,3) k(2) unfolding spares_def by blast
      with rd that(3) show ?thesis by simp
    qed
    with r'(1) k show ?thesis by (auto simp: event_ok_def)
  qed
qed

definition safe_result :: "nat \<Rightarrow> event_loop \<Rightarrow> loop_result \<Rightarrow> bool" where
  "safe_result a st r \<longleftrightarrow> (case r of Inr st' \<Rightarrow> loop_inv st' \<and> spares a st st' | Inl (x, _) \<Rightarrow> thrown x)"

lemma safe_ends:
  assumes "ends_in f E st r Q" "\<And>st'. Q st' \<Longrightarrow> loop_inv st'"
    and "armed st a f \<or> (\<exists>c. get_conn st f = Some c \<and> state c \<noteq> CSTATE_READING)"
  shows "safe_result a st r"
  using assms(1,2) spares_others [OF _ assms(3)] by (cases r) (auto simp: safe_result_def ends_in_Inl)

lemma handleClientEvent_safe:
  assumes "env_ok e st" "loop_inv st" "armed st a f"
    and "\<And>c. get_conn st f = Some c \<Longrightarrow> EPOLLIN \<in> set fl \<Longrightarrow> state c = CSTATE_READING"
  shows "safe_result a st (handleClientEvent e f fl st)"
proof (cases "get_conn st f")
  case None
  then show ?thesis using assms(2) by (simp add: handleClientEvent_def safe_result_def spares_def)
next
  case (Some c)
  note env = assms(1) [unfolded env_ok_def]
  have here: "conn_here f st" using Some assms(2) by (simp add: conn_here_def loop_inv_except)
  have close: "safe_result a st (closeClient e f st)"
    by (rule safe_ends [OF closeClient_ends [OF here]]) (use assms(3) in \<open>simp_all add: gone_def\<close>)
  have wr: "safe_result a st (handleWrite e f st)"
    by (rule safe_ends [OF handleWrite_ends]) (use env Some assms(2,3) in \<open>auto simp: closable_def alive_def gone_def\<close>)
  have rd: "safe_result a st (handleRead e f st)" if "EPOLLIN \<in> set fl"
    by (rule safe_ends [OF handleRead_ends]) (use env Some assms(2,3) assms(4) [OF Some that] in auto)
  have half: "safe_result a st (on_conn f setPeerHalfClosed st)"
  proof -
    let ?c = "setPeerHalfClosed c"
    have base: "base_ok c" "fd c = f" using assms(2) Some core_connD by (auto simp: loop_inv_def)
    have sel: "state ?c = state c" by (simp add: setPeerHalfClosed_def)
    have u: "loop_inv (put_conn f ?c st) \<and> others f st (put_conn f ?c st) \<and> get_conn (put_conn f ?c st) f = Some ?c"
    proof (rule conn_update [OF assms(2) _ _ Some])
      assume "state c = CSTATE_READING"
      then have "reading_ok c" using assms(2) Some unfolding loop_inv_def live_def by metis
      then show "reading_ok ?c" using reading_ok_cong [of ?c c] by (simp add: setPeerHalfClosed_def)
    qed (use base sel in simp_all)
    then have "spares a st (put_conn f ?c st)" using spares_others assms(3) by blast
    with u Some show ?thesis by (simp add: safe_result_def on_conn_def with_conn_def)
  qed
  have "safe_result a st (Inr st)" using assms(2) by (simp add: safe_result_def spares_def)
  then show ?thesis
    using Some close wr rd half by (simp add: handleClientEvent_def)
qed

theorem dispatch_safe:
  assumes "env_ok e st" "loop_inv st" "event_ok st ev"
  shows "safe_result (fst ev) st (dispatch e ev st)"
proof -
  obtain a fl where ev: "ev = (a, fl)" by (cases ev)
  obtain r where r: "omap_get (lp_heap st) a = Some r"
      "er_kind r \<noteq> EV_INVALID \<longrightarrow> armed st a (er_fd r) \<and> (er_kind r = EV_CLIENT \<longrightarrow> EPOLLIN \<in> set fl \<longrightarrow>
           (\<forall>c. get_conn st (er_fd r) = Some c \<longrightarrow> state c = CSTATE_READING))"
    using assms(3) by (auto simp: event_ok_def ev)
  have core: "core st" using assms(2) by (simp add: loop_inv_def)
  have idle: "safe_result a st (Inr st)" using assms(2) by (simp add: safe_result_def spares_def)
  have "safe_result a st (case er_kind r of
             EV_SERVER \<Rightarrow> handleAccept e (er_fd r) st
           | EV_CGI \<Rightarrow> handleCgiEvent e (er_fd r) st
           | EV_CLIENT \<Rightarrow> handleClientEvent e (er_fd r) fl st
           | EV_INVALID \<Rightarrow> Inr st
           | EV_CGI_STDIN \<Rightarrow> Inr st)"
  proof (cases "er_kind r")
    case EV_SERVER
    have "er_fd r \<in> set (lp_server_fds st)" using core r(1) EV_SERVER unfolding core_def servers_ok_def by blast
    then show ?thesis using handleAccept_safe [OF assms(2), of e "er_fd r" a] assms(1) EV_SERVER
      by (auto simp: env_ok_def safe_result_def)
  next
    case EV_CLIENT
    then show ?thesis using handleClientEvent_safe [OF assms(1,2)] r(2) by simp
  next
    case EV_CGI
    show ?thesis
    proof (cases "omap_get (lp_jobs st) (er_fd r)")
      case None
      with EV_CGI idle show ?thesis by (simp add: handleCgiEvent_def)
    next
      case (Some j)
      have "job_here (j_client_fd j) (er_fd r) st" using job_here_loop [OF assms(2) Some] .
      then obtain c where c: "get_conn st (j_client_fd j) = Some c" by (auto simp: job_here_def conn_here_def)
      moreover have "has_job st (j_client_fd j)" using Some by (auto simp: has_job_def)
      ultimately have "state c \<noteq> CSTATE_READING" using job_not_reading assms(2) by blast
      with c have "safe_result a st (handleCgiEvent e (er_fd r) st)"
        by (intro safe_ends [OF handleCgiEvent_ends [OF _ assms(2) Some refl]]) (use assms(1) in \<open>auto simp: env_ok_def alive_def\<close>)
      with EV_CGI show ?thesis by simp
    qed
  qed (simp_all add: idle)
  moreover have "\<not> lp_stopped st" using core by (simp add: core_def)
  then have "dispatch e ev st = (case er_kind r of
             EV_SERVER \<Rightarrow> handleAccept e (er_fd r) st
           | EV_CGI \<Rightarrow> handleCgiEvent e (er_fd r) st
           | EV_CLIENT \<Rightarrow> handleClientEvent e (er_fd r) fl st
           | EV_INVALID \<Rightarrow> Inr st
           | EV_CGI_STDIN \<Rightarrow> Inr st)"
    using r(1) unfolding dispatch_def ev fst_conv snd_conv by simp
  ultimately show ?thesis by (simp add: ev)
qed

end
