(* ===== verification/Loop_Turns.thy ===== *)
theory Loop_Turns
  imports Loop_Safety
begin

text \<open>
  Turns of \<open>run\<close>: a batch of events, the deletion of stale \<open>EventRef\<close>s, the time-outs and the
  reaping; the states the server can reach; and what a turn achieves.
\<close>

section \<open>A batch of events\<close>

definition delivered :: "event_loop \<Rightarrow> (loop_env \<times> nat \<times> epoll_flag list) list \<Rightarrow> bool" where
  \<comment> \<open>what \<open>epoll_wait\<close> returns: one event at most for each registered descriptor, with flags it asked for, an error or a hang-up\<close>
  "delivered st evs \<longleftrightarrow> distinct (map (fst \<circ> snd) evs)
     \<and> (\<forall>(_, a, fl) \<in> set evs. \<exists>f fl0. omap_get (lp_interest st) f = Some (a, fl0) \<and> set fl \<subseteq> set fl0 \<union> {EPOLLERR, EPOLLHUP})"

fun envs_ok :: "(loop_env \<times> nat \<times> epoll_flag list) list \<Rightarrow> event_loop \<Rightarrow> bool" where
  \<comment> \<open>every event meets an operating system that behaves, in the state it is dispatched in\<close>
  "envs_ok [] st = True"
| "envs_ok ((e, ev) # evs) st \<longleftrightarrow> env_ok e st \<and> (case dispatch e ev st of Inr st' \<Rightarrow> envs_ok evs st' | Inl _ \<Rightarrow> True)"

definition fine :: "(failure \<times> event_loop) + 'a \<Rightarrow> ('a \<Rightarrow> bool) \<Rightarrow> bool" where
  \<comment> \<open>ends well or with an exception of the program: no fault, no hang\<close>
  "fine r Q \<longleftrightarrow> (case r of Inr x \<Rightarrow> Q x | Inl (x, _) \<Rightarrow> thrown x)"

lemma fine_Inr [simp]: "fine (Inr x) Q = Q x"
  by (simp add: fine_def)

lemma fine_bind: "fine r P \<Longrightarrow> (\<And>x. P x \<Longrightarrow> fine (k x) Q) \<Longrightarrow> fine (rbind r k) Q"
  by (cases r) (auto simp: fine_def)

lemma fine_weaken: "fine r P \<Longrightarrow> (\<And>x. P x \<Longrightarrow> Q x) \<Longrightarrow> fine r Q"
  by (auto simp: fine_def split: sum.splits)

lemma ends_fine: "ends_in f E st r Q \<Longrightarrow> (\<And>st'. Q st' \<Longrightarrow> others f st st' \<Longrightarrow> P st') \<Longrightarrow> fine r P"
  by (cases r) (auto simp: fine_def ends_in_Inl)

lemma delivered_ok:
  assumes "loop_inv st" "omap_get (lp_interest st) f = Some (a, fl0)" "set fl \<subseteq> set fl0 \<union> {EPOLLERR, EPOLLHUP}"
  shows "event_ok st (a, fl)"
proof -
  have refs: "refs_ok st" using assms(1) by (simp add: loop_inv_def core_def)
  then have "omap_get (lp_refs st) f = Some a" using assms(2) unfolding refs_ok_def by blast
  then obtain r where r: "omap_get (lp_heap st) a = Some r" "er_fd r = f" using refs unfolding refs_ok_def by blast
  have "state c = CSTATE_READING" if "get_conn st f = Some c" "EPOLLIN \<in> set fl" for c
  proof -
    have "\<exists>b fl'. omap_get (lp_interest st) f = Some (b, fl') \<and> set fl' = set (buildEpollEvent c)"
      using assms(1) that(1) unfolding loop_inv_def live_def by blast
    then have "EPOLLIN \<in> set (buildEpollEvent c)" using assms(2,3) that(2) by auto
    then show ?thesis by (auto simp: buildEpollEvent_def split: ConnectionState.splits)
  qed
  with r assms(2) show ?thesis by (auto simp: event_ok_def armed_def)
qed

lemma dispatch_all_fine:
  "loop_inv st \<Longrightarrow> distinct (map (fst \<circ> snd) evs) \<Longrightarrow> \<forall>(_, ev) \<in> set evs. event_ok st ev \<Longrightarrow> envs_ok evs st \<Longrightarrow>
    fine (dispatch_all evs st) loop_inv"
proof (induction evs arbitrary: st)
  case (Cons x evs)
  obtain e a fl where x: "x = (e, a, fl)" by (cases x)
  have safe: "safe_result a st (dispatch e (a, fl) st)"
    using dispatch_safe [of e st "(a, fl)"] Cons.prems x by simp
  show ?case
  proof (cases "dispatch e (a, fl) st")
    case (Inl z)
    with safe x show ?thesis by (cases z) (simp add: fine_def safe_result_def)
  next
    case (Inr st')
    then have s: "loop_inv st'" "spares a st st'" using safe by (simp_all add: safe_result_def)
    have "event_ok st' ev" if "(e', ev) \<in> set evs" for e' ev
    proof -
      obtain a' fl' where ev: "ev = (a', fl')" by (cases ev)
      have "a' \<noteq> a" using Cons.prems(2) that x ev by force
      moreover have "event_ok st (a', fl')" using Cons.prems(3) that ev by auto
      ultimately show ?thesis using event_ok_spared [OF _ _ s(2)] ev by blast
    qed
    then have "fine (dispatch_all evs st') loop_inv"
      using Cons.prems s(1) x Inr by (intro Cons.IH) auto
    with x Inr show ?thesis by simp
  qed
qed simp

section \<open>Deleting stale references\<close>

lemma get_filter: "omap_get (filter (\<lambda>(a, _). a \<notin> S) m) k = (if k \<in> S then None else omap_get m k)"
  by (induction m) (auto simp: omap_get_def)

lemma delete_stale_ok:
  assumes "loop_inv st"
  shows "\<exists>st'. delete_stale st = Inr st' \<and> loop_inv st' \<and> lp_conns st' = lp_conns st \<and> lp_stale st' = []"
proof -
  let ?S = "set (lp_stale st)"
  have refs: "refs_ok st" using assms by (simp add: loop_inv_def core_def)
  have core: "core st" and lv: "live st g" for g using assms by (simp_all add: loop_inv_def)
  define st' where "st' = st\<lparr>lp_heap := filter (\<lambda>(a, _). a \<notin> ?S) (lp_heap st), lp_stale := []\<rparr>"
  have heap: "omap_get (lp_heap st') a = (if a \<in> ?S then None else omap_get (lp_heap st) a)" for a
    by (simp add: st'_def get_filter)
  have "a \<in> fst ` set (lp_heap st)" if "a \<in> ?S" for a
    using refs that unfolding refs_ok_def by (metis omap_get_None_iff option.distinct(1))
  moreover have "distinct (lp_stale st)" using refs by (simp add: refs_ok_def)
  ultimately have run: "delete_stale st = Inr st'" by (auto simp: delete_stale_def st'_def)
  have same: "lp_refs st' = lp_refs st" "lp_interest st' = lp_interest st" "lp_conns st' = lp_conns st" "lp_jobs st' = lp_jobs st"
    "lp_stale st' = []" "lp_next st' = lp_next st" "lp_server_fds st' = lp_server_fds st"
    "lp_server_configs st' = lp_server_configs st" "lp_stopped st' = lp_stopped st"
    by (simp_all add: st'_def)
  have get: "get_conn st' g = get_conn st g" for g by (simp add: get_conn_def same)
  have nstale: "a \<notin> ?S" if "omap_get (lp_refs st) f = Some a" for f a using refs that unfolding refs_ok_def by blast
  have ref: "ref_at st' g k = ref_at st g k" for g k
    using nstale by (auto simp: ref_at_def same heap)
  have "omap_ok (lp_heap st')"
    using refs unfolding refs_ok_def omap_ok_def st'_def by (auto simp: sorted_wrt_map intro: sorted_wrt_filter)
  then have "refs_ok st'"
    using refs nstale unfolding refs_ok_def same by (auto simp: heap split: if_splits)
  moreover have "servers_ok st'" using core unfolding core_def servers_ok_def by (auto simp: same heap split: if_splits)
  ultimately have "core st'" using core unfolding core_def job_ok_def ref get same by simp
  moreover have "live st' g" for g
    using lv [of g] live_cong [of st' g st] get same by (simp add: has_job_def)
  ultimately show ?thesis using run same by (auto simp: loop_inv_def)
qed

section \<open>Time-outs\<close>

lemma wrote_alive:
  assumes "loop_inv st" "wrote f st st'"
  shows "alive f st'"
proof -
  obtain c wb where c: "get_conn st f = Some c" "get_conn st' f = Some (c\<lparr>write_buffer := wb\<rparr>)" "conn_here f st'" "same_regs st st'"
    using assms(2) by (auto simp: wrote_def)
  have "live st f" using assms(1) by (simp add: loop_inv_def)
  moreover have "has_job st' f = has_job st f" "lp_interest st' = lp_interest st" using c(4) by (simp_all add: same_regs_def has_job_def)
  moreover have "reading_ok (c\<lparr>write_buffer := wb\<rparr>) = reading_ok c" by (rule reading_ok_cong) simp_all
  moreover have "buildEpollEvent (c\<lparr>write_buffer := wb\<rparr>) = buildEpollEvent c" by (simp add: buildEpollEvent_def)
  ultimately have "live st' f" using c(1,2) by (cases "has_job st f") (simp_all add: live_def)
  then show ?thesis using c by (simp add: alive_def loop_inv_iff [of _ f] conn_here_def)
qed

definition closed_all :: "int list \<Rightarrow> event_loop \<Rightarrow> event_loop \<Rightarrow> bool" where
  "closed_all fs st st' \<longleftrightarrow>
     loop_inv st' \<and> (\<forall>g. get_conn st' g = (if g \<in> set fs then None else get_conn st g))"

lemma closeTimedOut_fine:
  "loop_inv st \<Longrightarrow> mods_ok e \<Longrightarrow> distinct fs \<Longrightarrow> \<forall>f \<in> set fs. get_conn st f \<noteq> None \<Longrightarrow>
    fine (closeTimedOut e fs st) (closed_all fs st)"
proof (induction fs arbitrary: st)
  case Nil
  then show ?case by (simp add: closed_all_def)
next
  case (Cons f fs)
  let ?T = "\<lambda>_ :: event_loop. True"
  have here: "conn_here f st" using Cons.prems by (simp add: conn_here_def loop_inv_except)
  have "ends_in f ?T st (rbind (send_error e 408 f st) (\<lambda>st. rbind (handleWrite e f st) (closeClient e f))) (gone f)"
  proof (rule ends_in_bind [OF send_error_ends [OF here]])
    fix st1 assume "wrote f st st1"
    then have a: "alive f st1" using wrote_alive Cons.prems(1) by blast
    show "ends_in f ?T st1 (rbind (handleWrite e f st1) (closeClient e f)) (gone f)"
    proof (rule ends_in_bind [OF handleWrite_ends [OF Cons.prems(2)]])
      show "loop_inv st1" "get_conn st1 f \<noteq> None" using a by (simp_all add: alive_def)
      fix st2 assume "closable f st2"
      then show "ends_in f ?T st2 (closeClient e f st2) (gone f)"
        using closeClient_ends [of f st2] closeClient_gone [of f st2]
        by (auto simp: closable_def alive_def conn_here_def loop_inv_except)
    qed
  qed simp
  then have "fine (rbind (send_error e 408 f st) (\<lambda>st. rbind (handleWrite e f st) (closeClient e f))) (closed_all [f] st)"
    by (rule ends_fine) (simp add: gone_def others_def closed_all_def)
  then have "fine (rbind (rbind (send_error e 408 f st) (\<lambda>st. rbind (handleWrite e f st) (closeClient e f))) (closeTimedOut e fs))
      (closed_all (f # fs) st)"
  proof (rule fine_bind)
    fix st1 assume one: "closed_all [f] st st1"
    then have "fine (closeTimedOut e fs st1) (closed_all fs st1)"
      using Cons.prems by (intro Cons.IH) (auto simp: closed_all_def)
    then show "fine (closeTimedOut e fs st1) (closed_all (f # fs) st)"
      by (rule fine_weaken) (use one in \<open>simp add: closed_all_def\<close>)
  qed
  moreover have "rbind (rbind r g) h = rbind r (\<lambda>x. rbind (g x) h)" for r :: loop_result and g :: "event_loop \<Rightarrow> loop_result" and h :: "event_loop \<Rightarrow> loop_result"
    by (cases r) simp_all
  ultimately show ?case by simp
qed

lemma timed_out_iff:
  assumes "loop_inv st"
  shows "f \<in> set (getTimedOutFds e st) \<longleftrightarrow>
    (\<exists>c. get_conn st f = Some c \<and> state c \<noteq> CSTATE_CGI_RUNNING \<and> isTimedOut (now e) (srv_timeout_seconds (config c)) c)"
proof -
  have "omap_ok (lp_conns st)" using assms by (simp add: loop_inv_def core_def)
  from omap_get_Some_iff [OF this] show ?thesis
    by (force simp: getTimedOutFds_def get_conn_def)
qed

definition punctual :: "loop_env \<Rightarrow> event_loop \<Rightarrow> bool" where
  \<comment> \<open>no client that is being read from is idle beyond its time-out\<close>
  "punctual e st \<longleftrightarrow>
     (\<forall>f c. get_conn st f = Some c \<longrightarrow> state c = CSTATE_READING \<longrightarrow> now e - last_active c \<le> srv_timeout_seconds (config c))"

lemma closeTimedOutClients_fine:
  assumes "loop_inv st" "mods_ok e"
  shows "fine (closeTimedOutClients e st) (\<lambda>st'. loop_inv st' \<and> punctual e st')"
proof -
  have "omap_ok (lp_conns st)" using assms(1) by (simp add: loop_inv_def core_def)
  then have "distinct (map fst (lp_conns st))" by (simp add: omap_ok_def strict_sorted_iff)
  then have "distinct (getTimedOutFds e st)" unfolding getTimedOutFds_def by (rule distinct_map_filter)
  moreover have "\<forall>f \<in> set (getTimedOutFds e st). get_conn st f \<noteq> None" using timed_out_iff [OF assms(1)] by fastforce
  ultimately have "fine (closeTimedOutClients e st) (closed_all (getTimedOutFds e st) st)"
    unfolding closeTimedOutClients_def using closeTimedOut_fine [OF assms] by blast
  then show ?thesis
  proof (rule fine_weaken)
    fix st' assume a: "closed_all (getTimedOutFds e st) st st'"
    have "now e - last_active c \<le> srv_timeout_seconds (config c)"
      if "get_conn st' f = Some c" "state c = CSTATE_READING" for f c
      using that a timed_out_iff [OF assms(1), of f e] by (simp add: closed_all_def isTimedOut_def split: if_splits)
    with a show "loop_inv st' \<and> punctual e st'" by (simp add: closed_all_def punctual_def)
  qed
qed

definition failed_all :: "loop_env \<Rightarrow> int list \<Rightarrow> event_loop \<Rightarrow> event_loop \<Rightarrow> bool" where
  "failed_all e fs st st' \<longleftrightarrow>
     loop_inv st' \<and> lp_jobs st' = filter (\<lambda>(r, _). r \<notin> set fs) (lp_jobs st) \<and> (punctual e st \<longrightarrow> punctual e st')"

lemma failCgiJob_fine:
  assumes "mods_ok e" "loop_inv st"
  shows "fine (failCgiJob e rfd code st) (failed_all e' [rfd] st)"
proof (cases "omap_get (lp_jobs st) rfd")
  case None
  then have "rfd \<notin> fst ` set (lp_jobs st)" by (simp add: omap_get_None_iff)
  then have "filter (\<lambda>(r, _). r \<noteq> rfd) (lp_jobs st) = lp_jobs st" by (intro filter_True) force
  with None assms show ?thesis by (simp add: failCgiJob_def failed_all_def)
next
  case (Some j)
  have omap: "omap_erase rfd m = filter (\<lambda>(r, _). r \<noteq> rfd) m" for m :: "(int, cgi_job) omap"
    by (simp add: omap_erase_def case_prod_unfold)
  from failCgiJob_ends [OF assms(1) job_here_loop [OF assms(2) Some]] show ?thesis
  proof (rule ends_fine)
    fix st' assume "answered (j_client_fd j) rfd st st'" "others (j_client_fd j) st st'"
    then show "failed_all e' [rfd] st st'"
      by (auto simp: answered_def writing_now_def others_def failed_all_def omap punctual_def)
         (metis ConnectionState.distinct(5) option.inject)
  qed
qed

lemma failCgiJobs_fine:
  "mods_ok e \<Longrightarrow> loop_inv st \<Longrightarrow> fine (failCgiJobs e fs code st) (failed_all e' fs st)"
proof (induction fs arbitrary: st)
  case Nil
  then show ?case by (simp add: failed_all_def)
next
  case (Cons f fs)
  show ?case unfolding failCgiJobs.simps
  proof (rule fine_bind [OF failCgiJob_fine [OF Cons.prems]])
    fix st1 assume one: "failed_all e' [f] st st1"
    then have "loop_inv st1" by (simp only: failed_all_def)
    then have "fine (failCgiJobs e fs code st1) (failed_all e' fs st1)" by (rule Cons.IH [OF Cons.prems(1)])
    then show "fine (failCgiJobs e fs code st1) (failed_all e' (f # fs) st)"
      by (rule fine_weaken) (use one in \<open>auto simp: failed_all_def case_prod_unfold\<close>)
  qed
qed

definition on_time :: "loop_env \<Rightarrow> event_loop \<Rightarrow> bool" where
  \<comment> \<open>no script has run longer than its time-out\<close>
  "on_time e st \<longleftrightarrow> (\<forall>r j. omap_get (lp_jobs st) r = Some j \<longrightarrow> now e - j_start_time j \<le> j_timeout_seconds j)"

lemma closeTimedOutCgiJobs_fine:
  assumes "mods_ok e" "loop_inv st" "punctual e st"
  shows "fine (closeTimedOutCgiJobs e st) (\<lambda>st'. loop_inv st' \<and> punctual e st' \<and> on_time e st')"
  unfolding closeTimedOutCgiJobs_def
proof (rule fine_weaken [OF failCgiJobs_fine [OF assms(1,2), where e' = e]])
  fix st' assume a: "failed_all e (timedOutJobs e st) st st'"
  have inv: "loop_inv st'" using a by (simp only: failed_all_def)
  then have ok: "omap_ok (lp_jobs st')" by (simp add: loop_inv_def core_def)
  have "now e - j_start_time j \<le> j_timeout_seconds j" if "omap_get (lp_jobs st') r = Some j" for r j
  proof -
    have "(r, j) \<in> set (lp_jobs st')" using that omap_get_Some_iff [OF ok] by blast
    then show ?thesis using a by (force simp: failed_all_def timedOutJobs_def)
  qed
  with a inv assms(3) show "loop_inv st' \<and> punctual e st' \<and> on_time e st'" by (simp add: failed_all_def on_time_def)
qed

lemma reap_due: "punctual e' (reapPending e st) = punctual e' st" "on_time e' (reapPending e st) = on_time e' st"
  by (simp_all add: punctual_def on_time_def reapPending_def get_conn_def)

lemma reap_inv: "loop_inv (reapPending e st) = loop_inv st"
proof -
  have "core (reapPending e st) = core st" by (simp add: reapPending_def pending_core)
  moreover have "live (reapPending e st) g = live st g" for g
    by (rule live_cong) (simp_all add: reapPending_def get_conn_def has_job_def)
  ultimately show ?thesis by (simp add: loop_inv_def)
qed

section \<open>A turn\<close>

definition wait_ok :: "loop_env \<Rightarrow> wait_result \<Rightarrow> event_loop \<Rightarrow> bool" where
  \<comment> \<open>what a turn may rely on: \<open>epoll_wait\<close> returned registered descriptors, and every handler meets an
    operating system that behaves\<close>
  "wait_ok e w st \<longleftrightarrow> mods_ok e \<and> (case w of WaitEvents evs \<Rightarrow> delivered st evs \<and> envs_ok evs st | _ \<Rightarrow> True)"

lemma run_turn_fine:
  assumes "loop_inv st" "wait_ok e w st"
  shows "fine (run_turn e w st) (\<lambda>(more, st'). loop_inv st'
    \<and> (more \<longrightarrow> (case w of WaitEvents _ \<Rightarrow> punctual e st' \<and> on_time e st' | _ \<Rightarrow> st' = st)))"
proof (cases w)
  case (WaitEvents evs)
  have mods: "mods_ok e" and del: "delivered st evs" "envs_ok evs st" using assms(2) WaitEvents by (simp_all add: wait_ok_def)
  have nstop: "\<not> lp_stopped st" using assms(1) by (simp add: loop_inv_def core_def)
  have "event_ok st ev" if "(e', ev) \<in> set evs" for e' ev
  proof -
    obtain a fl where ev: "ev = (a, fl)" by (cases ev)
    have "\<forall>(_, a, fl) \<in> set evs. \<exists>f fl0. omap_get (lp_interest st) f = Some (a, fl0) \<and> set fl \<subseteq> set fl0 \<union> {EPOLLERR, EPOLLHUP}"
      using del(1) by (simp add: delivered_def)
    from bspec [OF this that] ev obtain f fl0 where "omap_get (lp_interest st) f = Some (a, fl0)" "set fl \<subseteq> set fl0 \<union> {EPOLLERR, EPOLLHUP}"
      by auto
    with delivered_ok [OF assms(1)] ev show ?thesis by blast
  qed
  then have all: "fine (dispatch_all evs st) loop_inv"
    using del assms(1) by (intro dispatch_all_fine) (auto simp: delivered_def)
  have "fine (rbind (dispatch_all evs st) (\<lambda>st. rbind (delete_stale st) (\<lambda>st. rbind (closeTimedOutClients e st)
      (\<lambda>st. rbind (closeTimedOutCgiJobs e st) (\<lambda>st. Inr (True, reapPending e st))))))
      (\<lambda>(more, st'). loop_inv st' \<and> punctual e st' \<and> on_time e st')"
  proof (rule fine_bind [OF all])
    fix st1 assume "loop_inv st1"
    from delete_stale_ok [OF this] obtain st2 where s2: "delete_stale st1 = Inr st2" "loop_inv st2" by blast
    have "fine (rbind (closeTimedOutClients e st2) (\<lambda>st. rbind (closeTimedOutCgiJobs e st) (\<lambda>st. Inr (True, reapPending e st))))
      (\<lambda>(more, st'). loop_inv st' \<and> punctual e st' \<and> on_time e st')"
    proof (rule fine_bind [OF closeTimedOutClients_fine [OF s2(2) mods]])
      fix st3 assume s3: "loop_inv st3 \<and> punctual e st3"
      show "fine (rbind (closeTimedOutCgiJobs e st3) (\<lambda>st. Inr (True, reapPending e st)))
        (\<lambda>(more, st'). loop_inv st' \<and> punctual e st' \<and> on_time e st')"
        by (rule fine_bind [OF closeTimedOutCgiJobs_fine [OF mods]]) (use s3 in \<open>simp_all add: reap_inv reap_due\<close>)
    qed
    with s2(1) show "fine (rbind (delete_stale st1) (\<lambda>st. rbind (closeTimedOutClients e st)
      (\<lambda>st. rbind (closeTimedOutCgiJobs e st) (\<lambda>st. Inr (True, reapPending e st)))))
      (\<lambda>(more, st'). loop_inv st' \<and> punctual e st' \<and> on_time e st')" by simp
  qed
  then show ?thesis using WaitEvents assms(1) nstop by (cases "lp_running st") (auto simp: run_turn_def elim: fine_weaken)
qed (use assms in \<open>auto simp: run_turn_def\<close>)

section \<open>The states of the server\<close>

definition listening :: "event_loop \<Rightarrow> bool" where
  \<comment> \<open>only listeners are registered\<close>
  "listening st \<longleftrightarrow> loop_inv st \<and> lp_conns st = [] \<and> lp_jobs st = []"

lemma listening_new: "listening (EventLoop_new n)"
  by (simp add: listening_def loop_inv_def core_def EventLoop_new_def refs_ok_def servers_ok_def get_conn_def omap_ok_def)

lemma addServerSocket_listening:
  assumes "listening st" "cfg_ok srv" "omap_get (lp_interest st) lfd = None" "addServerSocket e lfd srv st = Inr st'"
  shows "listening st' \<and> (\<forall>g. g \<noteq> lfd \<longrightarrow> omap_get (lp_interest st') g = omap_get (lp_interest st) g)"
proof -
  define st1 where "st1 = st\<lparr>lp_server_fds := lp_server_fds st @ [lfd], lp_server_configs := lp_server_configs st @ [srv]\<rparr>"
  have core: "core st" and none: "lp_conns st = []" "lp_jobs st = []" using assms(1) by (simp_all add: listening_def loop_inv_def)
  have inv1: "loop_inv st1"
    using core none assms(2)
    by (auto simp: loop_inv_def core_def st1_def refs_ok_def servers_ok_def get_conn_def live_def)
  then have regs: "refs_ok st1" "servers_ok st1" by (simp_all add: loop_inv_def core_def)
  have free: "omap_get (lp_interest st1) lfd = None" "unused st1 lfd" using assms(3) none by (simp_all add: st1_def unused_def get_conn_def)
  have run: "registerEventFd e lfd EV_SERVER [EPOLLIN, EPOLLET] st1 = Inr st'"
    using assms(4) by (simp add: addServerSocket_def st1_def)
  have "lfd \<in> set (lp_server_fds st1)" by (simp add: st1_def)
  then obtain n h rf where s: "refs_ok st'" "servers_ok st'" "\<forall>g k'. g \<noteq> lfd \<longrightarrow> ref_at st' g k' = ref_at st1 g k'"
      "st' = st1\<lparr>lp_next := n, lp_heap := h, lp_refs := rf, lp_interest := omap_put lfd (lp_next st1, [EPOLLIN, EPOLLET]) (lp_interest st1)\<rparr>"
    using register_ok [OF regs free(1), of EV_SERVER e "[EPOLLIN, EPOLLET]"] run by (auto split: if_splits)
  have same: "lp_conns st' = []" "lp_jobs st' = []" "lp_stopped st' = lp_stopped st1" "lp_jobs st1 = []"
      "\<And>g. g \<noteq> lfd \<Longrightarrow> omap_get (lp_interest st') g = omap_get (lp_interest st1) g"
    unfolding s(4) using none by (simp_all add: st1_def)
  have get: "get_conn st' g = None" "get_conn st1 g = None" for g using same(1) none by (simp_all add: get_conn_def st1_def)
  have "loop_inv st'"
    by (rule only_inv [OF inv1 free(2) s(1,2)]) (use same s(3) get in simp_all)
  then show ?thesis using same by (simp add: listening_def st1_def)
qed

lemma start_listeners_listening:
  "listening st \<Longrightarrow> distinct (map fst ls) \<Longrightarrow> \<forall>x \<in> set ls. cfg_ok (snd x) \<and> omap_get (lp_interest st) (fst x) = None \<Longrightarrow>
    start_listeners e ls st = Some st' \<Longrightarrow> listening st'"
proof (induction ls arbitrary: st)
  case (Cons x ls)
  obtain lfd srv where x: "x = (lfd, srv)" by (cases x)
  with Cons.prems(4) obtain st1 where s1: "addServerSocket e lfd srv st = Inr st1" "start_listeners e ls st1 = Some st'"
    by (auto split: if_splits sum.splits)
  have keep: "listening st1 \<and> (\<forall>g. g \<noteq> lfd \<longrightarrow> omap_get (lp_interest st1) g = omap_get (lp_interest st) g)"
    using addServerSocket_listening [OF Cons.prems(1) _ _ s1(1)] Cons.prems(3) x by simp
  have "cfg_ok (snd y) \<and> omap_get (lp_interest st1) (fst y) = None" if "y \<in> set ls" for y
  proof -
    have "fst y \<noteq> lfd" using Cons.prems(2) that x by (auto simp: rev_image_eqI)
    with Cons.prems(3) keep that show ?thesis by simp
  qed
  with Cons.IH [of st1] keep s1(2) Cons.prems(2) show ?case by simp
qed simp

lemma start_inv: "listening st \<Longrightarrow> loop_inv (run_start st)"
  by (auto simp: listening_def run_start_def loop_inv_def core_def refs_ok_def servers_ok_def get_conn_def live_def)

inductive reachable :: "event_loop \<Rightarrow> bool" where
  \<comment> \<open>from \<open>main\<close> with the listening sockets \<open>ls\<close>, through turns in any environment\<close>
  start: "distinct (map fst ls) \<Longrightarrow> list_all cfg_ok (map snd ls) \<Longrightarrow> start_listeners e ls (EventLoop_new n) = Some st \<Longrightarrow>
    reachable (run_start st)"
| turn: "reachable st \<Longrightarrow> wait_ok e w st \<Longrightarrow> run_turn e w st = Inr (True, st') \<Longrightarrow> reachable st'"

lemma reachable_inv: "reachable st \<Longrightarrow> loop_inv st"
proof (induction rule: reachable.induct)
  case (start ls e n st)
  have "listening st"
    using start_listeners_listening [OF listening_new start(1) _ start(3)] start(2)
    by (simp add: list_all_iff EventLoop_new_def)
  then show ?case by (rule start_inv)
next
  case (turn st e w st')
  from run_turn_fine [OF turn(4,2)] turn(3) show ?case by (simp add: fine_def split: prod.splits)
qed

end
