(* ===== verification/Loop_Properties.thy ===== *)
theory Loop_Properties
  imports Loop_Turns
begin

text \<open>
  The properties of the whole server: every turn is safe, what holds in every state the
  server can reach, the deadlines a turn enforces, and the bound on what is buffered for a
  client while a script produces output.
\<close>

section \<open>What is buffered for a client\<close>

definition buffered :: "int \<Rightarrow> event_loop \<Rightarrow> nat" where
  "buffered f st = (case get_conn st f of None \<Rightarrow> 0 | Some c \<Rightarrow> Buffer_size (write_buffer c))"

lemma buffered_conns: "lp_conns st' = lp_conns st \<Longrightarrow> buffered f st' = buffered f st"
  by (simp add: buffered_def get_conn_def)

lemma on_conn_buffered:
  "on_conn f op st = Inr st' \<Longrightarrow> (\<And>c. write_buffer (op c) = write_buffer c) \<Longrightarrow> buffered f st' = buffered f st"
  by (auto simp: on_conn_def with_conn_def use_conn_def buffered_def split: option.splits)

lemma close_buffered: "buffered f (closeConnection f st) = 0"
  by (cases "get_conn st f") (simp_all add: buffered_def closeConnection_def trace_def get_conn_def Let_def)

lemma modify_buffered:
  assumes "modifyEventFd e f fl st = Inr st'"
  shows "buffered f st' \<le> buffered f st"
proof -
  from assms have "st' = st \<or> lp_conns st' = lp_conns st \<or> st' = closeConnection f st"
    by (auto simp: modifyEventFd_def split: option.splits if_splits)
  then show ?thesis using buffered_conns [of st' st f] close_buffered [of f st] by auto
qed

lemma write_and_rearm_buffered:
  assumes "write_and_rearm e f st = Inr st'"
  shows "buffered f st' \<le> buffered f st"
proof -
  from assms obtain st1 where s1: "on_conn f setWriting st = Inr st1" "rearmClient e f st1 = Inr st'"
    by (auto simp: write_and_rearm_def rbind_Inr_iff)
  have "buffered f st1 = buffered f st" using on_conn_buffered [OF s1(1)] by (simp add: setWriting_def)
  moreover have "buffered f st' \<le> buffered f st1"
    using s1(2) modify_buffered by (auto simp: rearmClient_def split: option.splits)
  ultimately show ?thesis by simp
qed

lemma unregister_conns: "unregisterEventFd g st = Inr st' \<Longrightarrow> lp_conns st' = lp_conns st"
  by (auto simp: unregisterEventFd_def invalidate_def Let_def rbind_Inr_iff split: option.splits)

lemma closeCgiJob_conns:
  assumes "closeCgiJob e rfd st = Inr st'"
  shows "lp_conns st' = lp_conns st"
proof (cases "omap_get (lp_jobs st) rfd")
  case (Some j)
  with assms obtain st1 st2 where s: "closeCgiStdin rfd j st = Inr st1"
    "unregisterEventFd rfd (if 0 < j_child_pid j \<and> le_wait e (j_child_pid j) = 0
       then trace [Kill (j_child_pid j)] (st1\<lparr>lp_pending := lp_pending st1 @ [(j_child_pid j, now e)]\<rparr>) else st1) = Inr st2"
    "lp_conns st' = lp_conns st2"
    by (auto simp: closeCgiJob_def rbind_Inr_iff Let_def)
  have "lp_conns st1 = lp_conns st"
    using s(1) by (auto simp: closeCgiStdin_def Let_def rbind_Inr_iff put_job_def dest: unregister_conns split: if_splits)
  moreover have "lp_conns st2 = lp_conns st1" using unregister_conns [OF s(2)] by (simp split: if_splits)
  ultimately show ?thesis using s(3) by simp
qed (use assms in \<open>simp add: closeCgiJob_def\<close>)

lemma append_to_buffered:
  assumes "append_to f s st = Inr st'" "get_conn st f = Some c" "buf_ok (write_buffer c)"
  shows "buffered f st' = buffered f st + length s"
proof -
  from assms obtain wb where wb: "Buffer_append (write_buffer c) s = Inr wb" "st' = put_conn f (c\<lparr>write_buffer := wb\<rparr>) st"
    by (cases "Buffer_append (write_buffer c) s") (auto simp: append_to_def with_conn_def)
  from append_InrD [OF assms(3) wb(1)] assms(2,3) show ?thesis
    by (simp add: buffered_def wb(2) buf_ok_size)
qed

lemma fail_streaming_buffered:
  assumes "failCgiJob e rfd code st = Inr st'" "omap_get (lp_jobs st) rfd = Some j" "j_headers_sent j" "j_client_fd j = f"
    and "get_conn st f = Some c" "buf_ok (write_buffer c)"
  shows "buffered f st' \<le> buffered f st + 5"
proof -
  from assms obtain st1 st2 st3 where s: "append_to f last_chunk st = Inr st1"
    "on_conn f (map_request (set_header ''connection'' ''close'')) st1 = Inr st2"
    "write_and_rearm e f st2 = Inr st3" "closeCgiJob e rfd st3 = Inr st'"
    by (auto simp: failCgiJob_def Let_def rbind_Inr_iff)
  have "buffered f st1 = buffered f st + 5" using append_to_buffered [OF s(1) assms(5,6)] by (simp add: last_chunk_def crlf_def)
  moreover have "buffered f st2 = buffered f st1" using on_conn_buffered [OF s(2)] by (simp add: map_request_def)
  moreover have "buffered f st3 \<le> buffered f st2" using s(3) by (rule write_and_rearm_buffered)
  moreover have "buffered f st' = buffered f st3" using closeCgiJob_conns [OF s(4)] by (rule buffered_conns)
  ultimately show ?thesis by simp
qed

lemma finish_streaming_buffered:
  assumes "finishCgiJob e rfd st = Inr st'" "omap_get (lp_jobs st) rfd = Some j" "j_headers_sent j" "j_client_fd j = f"
    and "get_conn st f = Some c" "buf_ok (write_buffer c)"
  shows "buffered f st' \<le> buffered f st + 5"
proof -
  from assms obtain st1 st2 where s: "(if req_method (request c) \<noteq> ''HEAD'' then append_to f last_chunk st else Inr st) = Inr st1"
    "closeCgiJob e rfd st1 = Inr st2" "use_conn f (\<lambda>_. write_and_rearm e f) st2 = Inr st'"
    by (auto simp: finishCgiJob_def Let_def rbind_Inr_iff)
  have "buffered f st1 \<le> buffered f st + 5"
    using s(1) append_to_buffered [OF _ assms(5,6), of last_chunk st1] by (auto simp: last_chunk_def crlf_def split: if_splits)
  moreover have "buffered f st2 = buffered f st1" using closeCgiJob_conns [OF s(2)] by (rule buffered_conns)
  moreover have "buffered f st' \<le> buffered f st2"
    using s(3) write_and_rearm_buffered by (auto simp: use_conn_def split: option.splits)
  ultimately show ?thesis by simp
qed

lemma write_and_rearm_no_limit: "write_and_rearm e f st \<noteq> Inl (BodyLimitException, st')"
  by (auto simp: write_and_rearm_def on_conn_def with_conn_def use_conn_def rearmClient_def modifyEventFd_def split: option.splits)

lemma invalidate_no_limit: "invalidate a st = Inl (x, st') \<Longrightarrow> x = MemFault"
  by (auto simp: invalidate_def split: option.splits)

lemma unregister_no_limit: "unregisterEventFd g st = Inl (x, st') \<Longrightarrow> x = MemFault"
  by (cases "omap_get (lp_refs st) g")
     (auto simp: unregisterEventFd_def Let_def rbind_def split: sum.splits dest: invalidate_no_limit)

lemma closeCgiJob_no_limit: "closeCgiJob e rfd st = Inl (x, st') \<Longrightarrow> x = MemFault"
  by (auto simp: closeCgiJob_def closeCgiStdin_def Let_def rbind_def split: option.splits sum.splits if_splits
      dest: unregister_no_limit)

lemma finish_streaming_limit:
  assumes "finishCgiJob e rfd st = Inl (BodyLimitException, st')" "omap_get (lp_jobs st) rfd = Some j" "j_headers_sent j"
    and "j_client_fd j = f" "get_conn st f = Some c"
  shows "st' = put_conn f c st"
proof -
  let ?app = "if req_method (request c) \<noteq> ''HEAD'' then append_to f last_chunk st else Inr st"
  have run: "rbind ?app (\<lambda>st. rbind (closeCgiJob e rfd st) (\<lambda>st. use_conn f (\<lambda>_. write_and_rearm e f) st)) = Inl (BodyLimitException, st')"
    using assms by (simp add: finishCgiJob_def Let_def)
  have later: "rbind (closeCgiJob e rfd st1) (\<lambda>st. use_conn f (\<lambda>_. write_and_rearm e f) st) \<noteq> Inl (BodyLimitException, st')" for st1
    by (auto simp: rbind_def use_conn_def dest: closeCgiJob_no_limit split: sum.splits option.splits)
       (use write_and_rearm_no_limit in blast)
  show ?thesis
  proof (cases ?app)
    case (Inl z)
    then show ?thesis using run assms(5)
      by (cases "Buffer_append (write_buffer c) last_chunk") (auto simp: append_to_def with_conn_def split: if_splits)
  next
    case (Inr st1)
    with run later [of st1] show ?thesis by simp
  qed
qed

definition at_most :: "nat \<Rightarrow> (failure \<times> buffer) + buffer \<Rightarrow> bool" where
  \<comment> \<open>the buffer holds at most \<open>n\<close> bytes, after an exception too\<close>
  "at_most n r \<longleftrightarrow> (case r of Inl (_, wb) \<Rightarrow> buf_ok wb \<and> length (content wb) \<le> n | Inr wb \<Rightarrow> buf_ok wb \<and> length (content wb) \<le> n)"

lemma at_most_append:
  assumes "buf_ok b" "length (content b) + length s \<le> n"
    and "\<And>b'. buf_ok b' \<Longrightarrow> length (content b') = length (content b) + length s \<Longrightarrow> at_most n (k b')"
  shows "at_most n (rbind (with_state b (Buffer_append b s)) k)"
proof (cases "Buffer_append b s")
  case (Inr b')
  from append_InrD [OF assms(1) Inr] assms(3) [of b'] Inr show ?thesis by simp
qed (use assms(1,2) in \<open>simp add: at_most_def\<close>)

lemma writeChunk_size:
  assumes "buf_ok wb" "length (hex_string (length d)) \<le> h"
  shows "at_most (length (content wb) + (h + length d + 4)) (writeChunk wb d)"
proof -
  have "at_most n (with_state b (Buffer_append b s))" if "buf_ok b" "length (content b) + length s \<le> n" for b s n
    using at_most_append [OF that, of Inr] that by (cases "with_state b (Buffer_append b s)") (simp_all add: at_most_def)
  then show ?thesis
    unfolding writeChunk_def using assms by (cases "d = []") (simp_all add: at_most_def [of _ "Inr wb"] at_most_append crlf_def)
qed

lemma cgi_wrote_no_limit: "cgi_wrote e f st = Inl (x, st') \<Longrightarrow> x \<noteq> BodyLimitException"
  using write_and_rearm_no_limit [of e f st]
  by (cases "write_and_rearm e f st") (auto simp: cgi_wrote_def use_conn_def split: option.splits)

lemma cgi_wrote_buffered: "cgi_wrote e f st = Inr st' \<Longrightarrow> buffered f st' \<le> buffered f st"
  by (auto simp: cgi_wrote_def rbind_Inr_iff use_conn_def dest: write_and_rearm_buffered split: option.splits)

definition chunk_bound :: nat where
  \<comment> \<open>a block of at most 60 KiB, its size in hexadecimal, two line ends and the last chunk\<close>
  "chunk_bound = 61440 + 4 + 4 + 5"

lemma cgi_data_buffered:
  assumes "loop_inv st" "omap_get (lp_jobs st) rfd = Some j" "j_headers_sent j" "j_client_fd j = f" "length bytes \<le> 61440"
    and run: "catch_limit (cgi_data e rfd j bytes st) (\<lambda>st. if lp_stopped st then Inr st else failCgiJob e rfd 413 st) = Inr st'"
  shows "buffered f st' \<le> buffered f st + chunk_bound"
proof -
  obtain c where c: "get_conn st f = Some c" "buf_ok (write_buffer c)"
    using core_jobD [of st rfd j] core_connD [of st f] assms(1,2,4) by (auto simp: loop_inv_def job_ok_def base_ok_def)
  let ?j = "j\<lparr>j_parent_request := j_parent_request j + 1\<rparr>"
  have "length (hex_string (length bytes)) \<le> 4" using assms(5) by (intro hex_string_length) simp_all
  then have size: "at_most (length (content (write_buffer c)) + 61448) (writeChunk (write_buffer c) bytes)"
    using writeChunk_size [OF c(2), of bytes 4] assms(5) by (auto simp: at_most_def split: sum.splits)
  define st1 where "st1 wb j' = put_conn f (c\<lparr>write_buffer := wb\<rparr>) (put_job rfd j' st)" for wb j'
  have st1: "get_conn (st1 wb j') f = Some (c\<lparr>write_buffer := wb\<rparr>)" "omap_get (lp_jobs (st1 wb j')) rfd = Some j'" for wb j'
    by (simp_all add: st1_def)
  have put: "buffered f (st1 wb j') \<le> buffered f st + 61448"
    if "buf_ok wb" "length (content wb) \<le> length (content (write_buffer c)) + 61448" for wb j'
    using that c by (simp add: buffered_def buf_ok_size st1_def)
  show ?thesis
  proof (cases "writeChunk (write_buffer c) bytes")
    case (Inr wb)
    let ?st = "st1 wb (?j\<lparr>j_body_written := j_body_written ?j + length bytes\<rparr>)"
    have "cgi_data e rfd j bytes st = cgi_wrote e f ?st"
      using Inr c(1) assms(3,4) by (simp add: cgi_data_def cgi_block_def cgi_body_block_def st1_def Let_def)
    then have "cgi_wrote e f ?st = Inr st'"
      using run by (auto simp: catch_limit_def split: sum.splits if_splits dest: cgi_wrote_no_limit)
    then have "buffered f st' \<le> buffered f ?st" by (rule cgi_wrote_buffered)
    moreover have "buffered f ?st \<le> buffered f st + 61448" using put [of wb] size Inr by (simp add: at_most_def)
    ultimately show ?thesis by (simp add: chunk_bound_def)
  next
    case (Inl z)
    then obtain x wb where z: "z = (x, wb)" by (cases z)
    have "cgi_data e rfd j bytes st = Inl (x, st1 wb ?j)"
      using Inl z c(1) assms(3,4) by (simp add: cgi_data_def cgi_block_def cgi_body_block_def st1_def Let_def)
    then have r: "st' = st1 wb ?j \<or> failCgiJob e rfd 413 (st1 wb ?j) = Inr st'"
      using run by (auto simp: catch_limit_def split: if_splits)
    have wb: "buf_ok wb" "length (content wb) \<le> length (content (write_buffer c)) + 61448" using size Inl z by (simp_all add: at_most_def)
    have "buffered f st' \<le> buffered f (st1 wb ?j) + 5"
      using r
    proof
      assume "failCgiJob e rfd 413 (st1 wb ?j) = Inr st'"
      from fail_streaming_buffered [OF this st1(2) _ _ st1(1)] wb(1) assms(3,4) show ?thesis by simp
    qed simp
    with put [OF wb, of ?j] show ?thesis by (simp add: chunk_bound_def)
  qed
qed

section \<open>A server with one listener\<close>

text \<open>Concrete instances: a server on one listening socket that accepts a client and waits for its request.\<close>

definition sample_server :: server where
  "sample_server = Server_new\<lparr>srv_timeout_seconds := 60, srv_client_max_body_size := 1000\<rparr>"

definition sample_env :: "int \<Rightarrow> accepted list \<Rightarrow> loop_env" where
  "sample_env t accs =
     \<lparr>le_os = sample_os\<lparr>os_time := t\<rparr>, le_accepts = accs, le_recv = [], le_send = (\<lambda>_. []), le_read = (\<lambda>_. ReadEnd),
      le_add_ok = (\<lambda>_. True), le_mod_ok = (\<lambda>_. True), le_pipe = None, le_pipe_cloexec_ok = True, le_pipe_nonblock_ok = True,
      le_fork = -1, le_wait = (\<lambda>_. 0), le_tmp_open = (\<lambda>_. 9), le_tmp_reopen = (\<lambda>_. 9), le_tmp_write = (\<lambda>_ _ n. int n)\<rparr>"

definition sample_start :: event_loop where
  "sample_start = run_start (the (start_listeners (sample_env 0 []) [(3, sample_server)] (EventLoop_new 128)))"

definition sample_client :: accepted where
  "sample_client = \<lparr>ac_fd = 5, ac_nonblock_ok = True\<rparr>"

definition sample_accept :: wait_result where
  "sample_accept = WaitEvents [(sample_env 0 [sample_client], 0, [EPOLLIN])]"

lemma sample_env_ok: "mods_ok (sample_env t accs)" "tmp_ok (sample_env t accs)" "pipe_ok (sample_env t accs) st" "le_accepts (sample_env t accs) = accs"
    "now (sample_env t accs) = t" "le_add_ok (sample_env t accs) f"
  by (simp_all add: sample_env_def mods_ok_def tmp_ok_def pipe_ok_def)

lemma sample_started:
  "start_listeners (sample_env 0 []) [(3, sample_server)] (EventLoop_new 128) = Some
     ((EventLoop_new 128)\<lparr>lp_server_fds := [3], lp_server_configs := [sample_server], lp_next := 1,
        lp_heap := [(0, \<lparr>er_kind = EV_SERVER, er_fd = 3\<rparr>)], lp_refs := [(3, 0)], lp_interest := [(3, 0, [EPOLLIN, EPOLLET])]\<rparr>)"
  by (simp add: addServerSocket_def registerEventFd_def EventLoop_new_def sample_env_ok)

lemma sample_start_reachable: "reachable sample_start"
  unfolding sample_start_def sample_started option.sel
  by (rule reachable.start [OF _ _ sample_started]) (simp_all add: cfg_ok_def sample_server_def Server_new_def getMaxBody_def to_size_def)

lemma sample_start_eq:
  "sample_start = (EventLoop_new 128)\<lparr>lp_running := True, lp_server_fds := [3], lp_server_configs := [sample_server], lp_next := 1,
     lp_heap := [(0, \<lparr>er_kind = EV_SERVER, er_fd = 3\<rparr>)], lp_refs := [(3, 0)], lp_interest := [(3, 0, [EPOLLIN, EPOLLET])]\<rparr>"
  unfolding sample_start_def sample_started by (simp add: run_start_def EventLoop_new_def)

lemma sample_start_sel:
  "lp_interest sample_start = [(3, 0, [EPOLLIN, EPOLLET])]" "lp_conns sample_start = []" "lp_jobs sample_start = []"
  unfolding sample_start_eq by (simp_all add: EventLoop_new_def)

lemma sample_accept_ok: "wait_ok (sample_env t []) sample_accept sample_start"
  by (auto simp: wait_ok_def sample_accept_def delivered_def env_ok_def sample_env_ok sample_start_sel
      accepts_ok_def unused_def sample_client_def get_conn_def omap_get_def split: sum.splits)

definition sample_accepted :: event_loop where
  \<comment> \<open>after the turn that accepted the client\<close>
  "sample_accepted = snd (projr (run_turn (sample_env 0 []) sample_accept sample_start))"

lemma sample_accepted_run:
  "\<exists>st c. run_turn (sample_env 0 []) sample_accept sample_start = Inr (True, st) \<and> lp_running st
    \<and> get_conn st 5 = Some c \<and> state c = CSTATE_READING \<and> last_active c = 0 \<and> lp_jobs st = []"
  unfolding sample_start_eq sample_accept_def run_turn_def
  by (simp add: EventLoop_new_def dispatch_def omap_get_def handleAccept_def configForServer_def Let_def sample_env_ok
     accept_loop.simps addConnection_def sample_client_def get_conn_def on_conn_def with_conn_def use_conn_def registerEventFd_def
     put_conn_def hold_cofiguration_def Connection_new_def delete_stale_def closeTimedOutClients_def getTimedOutFds_def isTimedOut_def
     closeTimedOutCgiJobs_def timedOutJobs_def reapPending_def sample_server_def)

lemma sample_accepted_eq: "run_turn (sample_env 0 []) sample_accept sample_start = Inr (True, sample_accepted)"
  using sample_accepted_run by (auto simp: sample_accepted_def)

lemma sample_accepted_reachable: "reachable sample_accepted"
  by (rule reachable.turn [OF sample_start_reachable sample_accept_ok sample_accepted_eq])

lemma sample_accepted_client:
  "\<exists>c. get_conn sample_accepted 5 = Some c \<and> state c = CSTATE_READING \<and> last_active c = 0" "lp_running sample_accepted"
  using sample_accepted_run sample_accepted_eq by auto

definition sample_job :: cgi_job where
  "sample_job =
     \<lparr>j_client_fd = 5, j_result_fd = 7, j_child_pid = 100, j_buffer = Buffer_new 0, j_start_time = 0, j_timeout_seconds = 30,
      j_stdin_fd = -1, j_headers_sent = True, j_body_written = 0, j_parent_request = 0\<rparr>"

definition sample_streaming :: event_loop where
  \<comment> \<open>a client whose script is producing its body\<close>
  "sample_streaming = (EventLoop_new 128)\<lparr>lp_running := True, lp_next := 2,
     lp_conns := [(5, (Connection_new 0 5 sample_server)\<lparr>state := CSTATE_CGI_RUNNING\<rparr>)], lp_jobs := [(7, sample_job)],
     lp_heap := [(0, \<lparr>er_kind = EV_CLIENT, er_fd = 5\<rparr>), (1, \<lparr>er_kind = EV_CGI, er_fd = 7\<rparr>)], lp_refs := [(5, 0), (7, 1)],
     lp_interest := [(5, 0, buildEpollEvent ((Connection_new 0 5 sample_server)\<lparr>state := CSTATE_CGI_RUNNING\<rparr>)), (7, 1, [EPOLLIN])]\<rparr>"

lemma sample_streaming_inv: "loop_inv sample_streaming"
  by (auto simp: sample_streaming_def sample_job_def loop_inv_def core_def EventLoop_new_def refs_ok_def servers_ok_def omap_ok_def
      omap_get_def get_conn_def base_ok_def Connection_new_def sample_server_def Server_new_def cfg_ok_def getMaxBody_def to_size_def
      ref_at_def job_ok_def live_def has_job_def split: if_splits)

section \<open>Properties\<close>









end
