(* ===== verification/Conf_Numbers.thy ===== *)
theory Conf_Numbers
  imports Config_Data "HOL-Library.Log_Nat"
begin

text \<open>
  The numbers and addresses of a configuration file: \<open>safe_strtol\<close> (\<open>conf/httpConfig.cpp\<close>),
  \<open>ft_strtod\<close> and \<open>parse_cl_mx_bd_sz\<close> (\<open>conf/parserConf.cpp\<close>), \<open>is_valid_octet\<close> and
  \<open>is_valid_host\<close> (\<open>conf/server_parser.cpp\<close>).  A \<open>double\<close> is the rational number it stands for, every
  operation rounds to the nearest one, ties to even; \<open>None\<close> is infinity.  A conversion of a
  \<open>double\<close> that does not fit \<open>long long\<close> is undefined behaviour and the value \<open>None\<close> of its function.
\<close>

section \<open>\<open>long\<close> and \<open>int\<close>\<close>

definition LONG_MAX :: nat where "LONG_MAX = 2 ^ 63 - 1"

fun strtol_loop :: "nat \<Rightarrow> string \<Rightarrow> nat option" where
  "strtol_loop result [] = Some result"
| "strtol_loop result (c # cs) =
     (let digit = digit_val c in
      if result > (LONG_MAX - digit) div 10 then None else strtol_loop (result * 10 + digit) cs)"

definition safe_strtol :: "string \<Rightarrow> int option" where
  "safe_strtol s =
     (if s = [] then None
      else if \<not> list_all is_digit s then None
      else map_option int (strtol_loop 0 s))"

definition to_int32 :: "int \<Rightarrow> int" where
  \<comment> \<open>\<open>static_cast<int>\<close>\<close>
  "to_int32 n = (n + 2 ^ 31) mod 2 ^ 32 - 2 ^ 31"

section \<open>\<open>double\<close>\<close>

type_synonym udouble = "rat option"

definition pow2 :: "int \<Rightarrow> rat" where
  "pow2 e = (if 0 \<le> e then 2 ^ nat e else 1 / 2 ^ nat (- e))"

definition log2_floor :: "rat \<Rightarrow> int" where
  \<comment> \<open>the binary exponent of a positive number\<close>
  "log2_floor q =
     (case quotient_of q of (a, b) \<Rightarrow>
        let k = int (floorlog 2 (nat a)) - int (floorlog 2 (nat b)) in
        if pow2 k \<le> q then k else k - 1)"

definition half_even :: "rat \<Rightarrow> int" where
  "half_even q =
     (let f = \<lfloor>q\<rfloor>; r = q - of_int f in
      if r < 1 / 2 \<or> (r = 1 / 2 \<and> even f) then f else f + 1)"

definition fl :: "rat \<Rightarrow> udouble" where
  \<comment> \<open>the \<open>double\<close> nearest to a number that is not negative\<close>
  "fl q =
     (if q = 0 then Some 0
      else
        let e = max (log2_floor q - 52) (-1074);
            r = of_int (half_even (q / pow2 e)) * pow2 e
        in if r < 2 ^ 1024 then Some r else None)"

definition times10 :: "udouble \<Rightarrow> udouble" where
  "times10 x = (case x of None \<Rightarrow> None | Some q \<Rightarrow> fl (q * 10))"

definition plus_double :: "udouble \<Rightarrow> udouble \<Rightarrow> udouble" where
  "plus_double x y = (case (x, y) of (Some p, Some q) \<Rightarrow> fl (p + q) | _ \<Rightarrow> None)"

definition digit_over :: "char \<Rightarrow> udouble \<Rightarrow> udouble" where
  \<comment> \<open>\<open>(str[i] - '0') / divisor\<close>\<close>
  "digit_over c divisor = (case divisor of None \<Rightarrow> Some 0 | Some q \<Rightarrow> fl (of_nat (digit_val c) / q))"

fun whole_part :: "udouble \<Rightarrow> string \<Rightarrow> udouble \<times> string" where
  "whole_part w [] = (w, [])"
| "whole_part w (c # cs) =
     (if is_digit c then whole_part (plus_double (times10 w) (Some (of_nat (digit_val c)))) cs else (w, c # cs))"

fun frac_part :: "udouble \<Rightarrow> udouble \<Rightarrow> string \<Rightarrow> udouble \<times> string" where
  "frac_part f divisor [] = (f, [])"
| "frac_part f divisor (c # cs) =
     (if is_digit c then frac_part (plus_double f (digit_over c divisor)) (times10 divisor) cs else (f, c # cs))"

definition ft_strtod :: "string \<Rightarrow> (bool \<times> udouble \<times> string) option" where
  \<comment> \<open>sign, value and the text from \<open>endptr\<close> on; \<open>None\<close>: \<open>endptr\<close> is the start\<close>
  "ft_strtod str =
     (let neg = (str \<noteq> [] \<and> hd str = CHR ''-'');
          s = (if str \<noteq> [] \<and> (hd str = CHR ''-'' \<or> hd str = CHR ''+'') then tl str else str);
          (whole, s1) = whole_part (Some 0) s;
          has_digits = length s1 < length s;
          dot_present = (s1 \<noteq> [] \<and> hd s1 = CHR ''.'');
          (frac, s2) = (if dot_present then frac_part (Some 0) (Some 10) (tl s1) else (Some 0, s1));
          has_frac_digits = (dot_present \<and> length s2 < length (tl s1))
      in if (dot_present \<and> \<not> has_digits) \<or> (dot_present \<and> \<not> has_frac_digits) \<or> (\<not> has_digits \<and> \<not> has_frac_digits)
         then None
         else Some (neg, plus_double whole frac, s2))"

section \<open>\<open>client_max_body_size\<close>\<close>

definition unit_multiplier :: "string \<Rightarrow> int option" where
  "unit_multiplier u =
     (if u = [] then Some 1
      else if u = ''K'' \<or> u = ''k'' then Some 1024
      else if u = ''M'' \<or> u = ''m'' then Some (1024 * 1024)
      else if u = ''G'' \<or> u = ''g'' then Some (1024 * 1024 * 1024)
      else None)"

definition parse_cl_mx_bd_sz :: "string \<Rightarrow> int option" where
  \<comment> \<open>the multiplier is a power of two, so the quotient and the product with it are not rounded; \<open>None\<close>:
    a conversion to \<open>long long\<close> that is undefined\<close>
  "parse_cl_mx_bd_sz token =
     (if token = [] then Some (-1)
      else case ft_strtod (c_str token) of
        None \<Rightarrow> Some (-1)
      | Some (neg, value, unit) \<Rightarrow>
          (case unit_multiplier unit of
             None \<Rightarrow> Some (-1)
           | Some multiplier \<Rightarrow>
               if neg \<or> value = Some 0 then Some (-1)
               else case value of
                 None \<Rightarrow> if multiplier = 1 then None else Some (-1)
               | Some v \<Rightarrow>
                   if multiplier = 1 \<and> v \<ge> 2 ^ 63 then None
                   else if multiplier = 1 \<and> v \<noteq> of_int \<lfloor>v\<rfloor> then Some (-1)
                   else if v > 2 ^ 63 / of_int multiplier then Some (-1)
                   else if v * of_int multiplier \<ge> 2 ^ 63 then None
                   else Some \<lfloor>v * of_int multiplier\<rfloor>))"

section \<open>Addresses\<close>

definition is_valid_octet :: "string \<Rightarrow> bool" where
  "is_valid_octet s \<longleftrightarrow>
     (if s = [] \<or> length s > 3 then False
      else if hd s = CHR ''0'' \<and> length s > 1 then False
      else if \<not> list_all is_digit s then False
      else case safe_strtol s of None \<Rightarrow> False | Some num \<Rightarrow> 0 \<le> num \<and> num \<le> 255)"

fun host_loop :: "string \<Rightarrow> nat \<Rightarrow> string \<Rightarrow> bool" where
  \<comment> \<open>\<open>cur\<close> is \<open>host.substr(prev, i - prev)\<close>\<close>
  "host_loop cur dots [] = (is_valid_octet cur \<and> dots = 3)"
| "host_loop cur dots (c # cs) =
     (if c = CHR ''.'' then
        (if \<not> is_valid_octet cur then False
         else if dots + 1 > 3 then False
         else host_loop [] (dots + 1) cs)
      else host_loop (cur @ [c]) dots cs)"

definition is_valid_host :: "string \<Rightarrow> bool" where
  "is_valid_host host = (if host = [] then False else host_loop [] 0 host)"

section \<open>Decimal numbers\<close>

lemma dec_val_snoc: "dec_val (s @ [c]) = dec_val s * 10 + digit_val c"
  by (simp add: dec_val_def)

lemma dec_val_mono: "foldl (\<lambda>v c. v * 10 + digit_val c) v s \<ge> v"
proof (induction s arbitrary: v)
  case (Cons c s)
  from Cons.IH [of "v * 10 + digit_val c"] show ?case by simp
qed simp

lemma strtol_loop_eq:
  "list_all is_digit s \<Longrightarrow> v \<le> LONG_MAX \<Longrightarrow>
    strtol_loop v s = (let n = foldl (\<lambda>v c. v * 10 + digit_val c) v s in if n \<le> LONG_MAX then Some n else None)"
proof (induction s arbitrary: v)
  case (Cons c s)
  have "digit_val c < 10" using Cons.prems(1) by simp
  then have small: "digit_val c \<le> LONG_MAX" by (simp add: LONG_MAX_def)
  have "v > (LONG_MAX - digit_val c) div 10 \<longleftrightarrow> v * 10 + digit_val c > LONG_MAX"
  proof -
    have "v \<le> (LONG_MAX - digit_val c) div 10 \<longleftrightarrow> v * 10 \<le> LONG_MAX - digit_val c"
      by (simp add: less_eq_div_iff_mult_less_eq)
    with small show ?thesis by linarith
  qed
  moreover have "foldl (\<lambda>v c. v * 10 + digit_val c) (v * 10 + digit_val c) s \<ge> v * 10 + digit_val c" by (rule dec_val_mono)
  ultimately show ?case using Cons by (auto simp: Let_def not_less)
qed simp

lemma safe_strtol_eq:
  "safe_strtol s = (if s \<noteq> [] \<and> list_all is_digit s \<and> dec_val s < 2 ^ 63 then Some (int (dec_val s)) else None)"
  using strtol_loop_eq [of s 0] by (auto simp: safe_strtol_def dec_val_def Let_def LONG_MAX_def)

lemma dec_string_all_digits [simp]: "list_all is_digit (dec_string n)"
  using dec_string_digits by (auto simp: list_all_iff)

lemma to_int32_id [simp]: "- (2 ^ 31) \<le> n \<Longrightarrow> n < 2 ^ 31 \<Longrightarrow> to_int32 n = n"
  unfolding to_int32_def by (subst mod_pos_pos_trivial) auto

lemma to_int32_range: "- (2 ^ 31) \<le> to_int32 n \<and> to_int32 n < 2 ^ 31"
proof -
  have "0 \<le> (n + 2 ^ 31) mod 2 ^ 32" "(n + 2 ^ 31) mod 2 ^ 32 < 2 ^ 32" by simp_all
  then show ?thesis unfolding to_int32_def by simp
qed

lemma to_int32_cong: "to_int32 n = m \<Longrightarrow> \<exists>k. n = m + k * 2 ^ 32"
  unfolding to_int32_def by (rule exI [of _ "(n + 2 ^ 31) div 2 ^ 32"]) (auto simp: minus_div_mult_eq_mod [symmetric] algebra_simps)

section \<open>Small integers are not rounded\<close>

lemma pow2_pos [simp]: "0 < pow2 e"
  by (simp add: pow2_def)

lemma pow2_nat: "pow2 (int n) = 2 ^ n"
  by (simp add: pow2_def)

lemma half_even_int [simp]: "half_even (of_int n) = n"
  by (simp add: half_even_def Let_def)

lemma floorlog_pos: "0 < n \<Longrightarrow> 0 < floorlog 2 n"
  by (cases "floorlog 2 n") (auto simp: floorlog_eq_zero_iff)

lemma log2_floor_nat:
  assumes "0 < n"
  shows "log2_floor (of_nat n) = int (floorlog 2 n) - 1"
proof -
  have q: "quotient_of (of_nat n) = (int n, 1)"
    using quotient_of_int [of "int n"] by simp
  have b: "2 ^ (floorlog 2 n - 1) \<le> n" "0 < floorlog 2 n"
    using floorlog_bounds [of n 2] floorlog_pos assms by simp_all
  then have "int (floorlog 2 n) - 1 = int (floorlog 2 n - 1)" by simp
  then have "pow2 (int (floorlog 2 n) - 1) = 2 ^ (floorlog 2 n - 1)" by (simp only: pow2_nat)
  also have "\<dots> \<le> of_nat n" using b(1) by (metis of_nat_le_iff of_nat_numeral of_nat_power)
  moreover have "floorlog 2 (Suc 0) = 1" using floorlog_power [of 1 2 0] floorlog_bounds [of 1 2]
    by (simp add: floorlog_def)
  ultimately show ?thesis by (simp add: log2_floor_def q Let_def)
qed

lemma fl_nat [simp]:
  assumes "n \<le> 2 ^ 53"
  shows "fl (of_nat n) = Some (of_nat n)"
proof (cases "n = 0")
  case False
  let ?k = "floorlog 2 n"
  have small: "(of_nat n :: rat) < 2 ^ 1024"
  proof -
    have "(of_nat n :: rat) \<le> of_nat (2 ^ 53)" using assms by (simp only: of_nat_le_iff)
    also have "\<dots> < 2 ^ 1024" by simp
    finally show ?thesis .
  qed
  have k: "?k \<le> 54" "0 < ?k"
    using assms False floorlog_leI [of n 2 54] floorlog_pos by simp_all
  have e: "max (log2_floor (of_nat n) - 52) (-1074) = int ?k - 53" using log2_floor_nat [of n] False k by simp
  have "\<exists>m :: int. of_nat n / pow2 (int ?k - 53) = of_int m"
  proof (cases "?k = 54")
    case True
    then have "2 ^ 53 \<le> n" using floorlog_bounds [of n 2] False by simp
    with assms have "n = 2 ^ 53" by simp
    with True show ?thesis by (intro exI [of _ "2 ^ 52"]) (simp add: pow2_def)
  next
    case False
    with k have "nat (- (int ?k - 53)) = 53 - ?k" "int ?k - 53 \<le> 0" by simp_all
    then show ?thesis
      by (intro exI [of _ "int n * 2 ^ (53 - ?k)"]) (auto simp: pow2_def)
  qed
  then obtain m :: int where m: "of_nat n / pow2 (int ?k - 53) = of_int m" by blast
  then have "of_int m * pow2 (int ?k - 53) = of_nat n" by (metis less_irrefl nonzero_divide_eq_eq pow2_pos)
  then show ?thesis using False m e small by (simp add: fl_def Let_def)
qed (simp add: fl_def)

section \<open>Sizes\<close>

lemma plus_double_nat [simp]: "m + n \<le> 2 ^ 53 \<Longrightarrow> plus_double (Some (of_nat m)) (Some (of_nat n)) = Some (of_nat (m + n))"
  using fl_nat [of "m + n"] by (simp add: plus_double_def)

lemma times10_nat [simp]: "10 * n \<le> 2 ^ 53 \<Longrightarrow> times10 (Some (of_nat n)) = Some (of_nat (10 * n))"
  using fl_nat [of "10 * n"] by (simp add: times10_def mult.commute)

lemma whole_part_digits:
  "list_all is_digit s \<Longrightarrow> (u \<noteq> [] \<Longrightarrow> \<not> is_digit (hd u)) \<Longrightarrow> foldl (\<lambda>v c. v * 10 + digit_val c) v s \<le> 2 ^ 53 \<Longrightarrow>
    whole_part (Some (of_nat v)) (s @ u) = (Some (of_nat (foldl (\<lambda>v c. v * 10 + digit_val c) v s)), u)"
proof (induction s arbitrary: v)
  case Nil
  then show ?case by (cases u) auto
next
  case (Cons c s)
  have "v * 10 + digit_val c \<le> 2 ^ 53" using dec_val_mono [of "v * 10 + digit_val c" s] Cons.prems(3) by simp
  then have "plus_double (times10 (Some (of_nat v))) (Some (of_nat (digit_val c))) = Some (of_nat (v * 10 + digit_val c))"
    using times10_nat [of v] plus_double_nat [of "10 * v" "digit_val c"] by (simp add: mult.commute)
  with Cons.prems Cons.IH [of "v * 10 + digit_val c"] show ?case by simp
qed

lemma ft_strtod_nat:
  assumes "n \<le> 2 ^ 53" "u \<noteq> [] \<Longrightarrow> \<not> is_digit (hd u) \<and> hd u \<noteq> CHR ''.''"
  shows "ft_strtod (dec_string n @ u) = Some (False, Some (of_nat n), u)"
proof -
  obtain d ds where d: "dec_string n = d # ds" using dec_string_nonempty by (cases "dec_string n") auto
  then have digit: "is_digit d" using dec_string_digits [of d n] by simp
  then have nsign: "d \<noteq> CHR ''-''" "d \<noteq> CHR ''+''" by (auto simp: in_range_def ord_def)
  have w: "whole_part (Some 0) (dec_string n @ u) = (Some (of_nat n), u)"
    using whole_part_digits [of "dec_string n" u 0] assms by (simp add: dec_val_def [symmetric])
  have "plus_double (Some (of_nat n)) (Some 0) = Some (of_nat n)"
    using plus_double_nat [of n 0] assms(1) by simp
  with w assms(2) show ?thesis using nsign by (cases u) (simp_all add: ft_strtod_def d)
qed

lemma unit_text: "unit_multiplier u = Some m \<Longrightarrow> u \<noteq> [] \<Longrightarrow> \<not> is_digit (hd u) \<and> hd u \<noteq> CHR ''.'' \<and> NUL \<notin> set u"
  by (auto simp: unit_multiplier_def in_range_def ord_def split: if_splits)

lemma unit_pos: "unit_multiplier u = Some m \<Longrightarrow> 1 \<le> m"
  by (auto simp: unit_multiplier_def split: if_splits)

lemma body_size_exact_aux:
  assumes "0 < n" "n \<le> 2 ^ 53" "unit_multiplier u = Some m"
  shows "parse_cl_mx_bd_sz (dec_string n @ u) = (if int n * m < 2 ^ 63 then Some (int n * m) else if int n * m = 2 ^ 63 then None else Some (-1))"
proof -
  have "NUL \<notin> set (dec_string n @ u)"
    using unit_text [OF assms(3)] dec_string_digits [of NUL n] by (cases "u = []") (auto simp: in_range_def ord_def)
  then have c: "c_str (dec_string n @ u) = dec_string n @ u" by (rule c_str_id)
  have small: "\<not> (of_nat n :: rat) \<ge> 2 ^ 63"
  proof -
    have "(of_nat n :: rat) \<le> of_nat (2 ^ 53)" using assms(2) by (simp only: of_nat_le_iff)
    then show ?thesis by simp
  qed
  have m: "1 \<le> m" using assms(3) by (rule unit_pos)
  have prod: "(of_nat n :: rat) * of_int m = of_int (int n * m)" by simp
  have div: "(of_nat n :: rat) > 2 ^ 63 / of_int m \<longleftrightarrow> int n * m > 2 ^ 63"
  proof -
    have "(of_nat n :: rat) > 2 ^ 63 / of_int m \<longleftrightarrow> (of_int (2 ^ 63) :: rat) < of_int (int n * m)"
      using m by (simp add: divide_less_eq)
    then show ?thesis by (simp only: of_int_less_iff)
  qed
  have ge: "(of_nat n :: rat) * of_int m \<ge> 2 ^ 63 \<longleftrightarrow> int n * m \<ge> 2 ^ 63"
  proof -
    have "(of_nat n :: rat) * of_int m \<ge> 2 ^ 63 \<longleftrightarrow> (of_int (2 ^ 63) :: rat) \<le> of_int (int n * m)" by simp
    then show ?thesis by (simp only: of_int_le_iff)
  qed
  have "ft_strtod (dec_string n @ u) = Some (False, Some (of_nat n), u)"
    using ft_strtod_nat [OF assms(2)] unit_text [OF assms(3)] by blast
  then have "parse_cl_mx_bd_sz (dec_string n @ u) =
      (if m = 1 \<and> (of_nat n :: rat) \<ge> 2 ^ 63 then None
       else if m = 1 \<and> (of_nat n :: rat) \<noteq> of_int \<lfloor>of_nat n :: rat\<rfloor> then Some (-1)
       else if (of_nat n :: rat) > 2 ^ 63 / of_int m then Some (-1)
       else if (of_nat n :: rat) * of_int m \<ge> 2 ^ 63 then None
       else Some \<lfloor>(of_nat n :: rat) * of_int m\<rfloor>)"
    using assms(1,3) by (simp only: parse_cl_mx_bd_sz_def c option.case prod.case option.inject) simp
  also have "\<dots> = (if int n * m > 2 ^ 63 then Some (-1) else if int n * m \<ge> 2 ^ 63 then None else Some (int n * m))"
    unfolding div ge unfolding prod floor_of_int using small by (simp only: simp_thms if_False if_True floor_of_nat of_int_of_nat_eq)
  finally show ?thesis by (simp split: if_splits)
qed

definition nonneg :: "udouble \<Rightarrow> bool" where
  "nonneg x \<longleftrightarrow> (case x of None \<Rightarrow> True | Some q \<Rightarrow> 0 \<le> q)"

lemma nonneg_fl [simp]: "0 \<le> q \<Longrightarrow> nonneg (fl q)"
proof -
  assume q: "0 \<le> q"
  have "0 \<le> half_even x" if "0 \<le> x" for x using that by (simp add: half_even_def Let_def)
  then have "0 \<le> half_even (q / pow2 e)" for e using q by (simp add: less_imp_le)
  then show ?thesis by (simp add: nonneg_def fl_def Let_def less_imp_le)
qed

lemma nonneg_simps [simp]: "nonneg None" "nonneg (Some q) = (0 \<le> q)"
  by (simp_all add: nonneg_def)

lemma nonneg_ops [simp]:
  "nonneg x \<Longrightarrow> nonneg (times10 x)" "nonneg x \<Longrightarrow> nonneg y \<Longrightarrow> nonneg (plus_double x y)" "nonneg x \<Longrightarrow> nonneg (digit_over c x)"
  by (cases x; cases y; simp add: times10_def plus_double_def digit_over_def)+

lemma whole_part_nonneg: "nonneg w \<Longrightarrow> nonneg (fst (whole_part w s))"
  by (induction w s rule: whole_part.induct) auto

lemma frac_part_nonneg: "nonneg f \<Longrightarrow> nonneg d \<Longrightarrow> nonneg (fst (frac_part f d s))"
  by (induction f d s rule: frac_part.induct) auto

lemma ft_strtod_nonneg:
  assumes "ft_strtod s = Some (neg, v, rest)"
  shows "nonneg v"
proof -
  let ?s = "if s \<noteq> [] \<and> (hd s = CHR ''-'' \<or> hd s = CHR ''+'') then tl s else s"
  obtain whole s1 where w: "whole_part (Some 0) ?s = (whole, s1)" by fastforce
  obtain frac s2 where f: "(if s1 \<noteq> [] \<and> hd s1 = CHR ''.'' then frac_part (Some 0) (Some 10) (tl s1) else (Some 0, s1)) = (frac, s2)"
    by fastforce
  have "nonneg whole" using whole_part_nonneg [of "Some 0" ?s] w by simp
  moreover have "nonneg frac"
    using frac_part_nonneg [of "Some 0" "Some 10" "tl s1"] f by (auto split: if_splits)
  moreover have "v = plus_double whole frac"
    using assms w f by (simp add: ft_strtod_def Let_def split: if_splits)
  ultimately show ?thesis by simp
qed

lemma parse_cl_mx_bd_sz_range:
  assumes "parse_cl_mx_bd_sz token = Some r"
  shows "r = - 1 \<or> 0 \<le> r \<and> r < 2 ^ 63"
proof (cases "ft_strtod (c_str token)")
  case None
  with assms show ?thesis by (auto simp: parse_cl_mx_bd_sz_def split: if_splits)
next
  case (Some z)
  obtain neg x u where z: "z = (neg, x, u)" by (cases z)
  have nn: "nonneg x" using Some z ft_strtod_nonneg by blast
  show ?thesis
  proof (cases "unit_multiplier u = None \<or> x = None")
    case True
    with assms Some z show ?thesis by (auto simp: parse_cl_mx_bd_sz_def split: if_splits option.splits)
  next
    case False
    then obtain m v where v: "unit_multiplier u = Some m" "x = Some v" by auto
    have "0 \<le> v * of_int m" using v(2) nn unit_pos [OF v(1)] by simp
    moreover have "\<lfloor>v * of_int m\<rfloor> < 2 ^ 63" if "\<not> v * of_int m \<ge> 2 ^ 63" using that by (simp add: floor_less_iff)
    ultimately have "\<not> v * of_int m \<ge> 2 ^ 63 \<Longrightarrow> 0 \<le> \<lfloor>v * of_int m\<rfloor> \<and> \<lfloor>v * of_int m\<rfloor> < 2 ^ 63" by simp
    with assms Some z v show ?thesis
      unfolding parse_cl_mx_bd_sz_def by (simp only: option.case prod.case split: if_splits) auto
  qed
qed

section \<open>Addresses in dotted form\<close>

lemma digit_chr: "is_digit c \<Longrightarrow> chr (48 + digit_val c) = c"
proof -
  assume "is_digit c"
  then have "48 + digit_val c = ord c" by (simp add: in_range_def digit_val_def ord_def)
  then show ?thesis by (metis chr_ord)
qed

lemma dec_string_snoc: "0 < v \<Longrightarrow> is_digit c \<Longrightarrow> dec_string (v * 10 + digit_val c) = dec_string v @ [c]"
  by (subst dec_string.simps) (simp add: digit_chr)

lemma chr_48: "chr 48 = CHR ''0''"
proof -
  have "ord (CHR ''0'') = 48" by (simp add: ord_def)
  then show ?thesis using chr_ord [of "CHR ''0''"] by simp
qed

lemma digit_val_pos: "is_digit c \<Longrightarrow> c \<noteq> CHR ''0'' \<Longrightarrow> 0 < digit_val c"
  using digit_chr [of c] chr_48 by (cases "digit_val c") auto

lemma dec_string_dec_val:
  "s \<noteq> [] \<Longrightarrow> list_all is_digit s \<Longrightarrow> hd s \<noteq> CHR ''0'' \<or> length s = 1 \<Longrightarrow>
    dec_string (dec_val s) = s \<and> (hd s \<noteq> CHR ''0'' \<longrightarrow> 0 < dec_val s)"
proof (induction s rule: rev_induct)
  case (snoc c s)
  show ?case
  proof (cases "s = []")
    case True
    then show ?thesis using snoc.prems digit_chr [of c] digit_val_pos [of c]
      by (simp add: dec_val_def dec_string.simps [of "digit_val c"])
  next
    case False
    with snoc.prems have "hd s \<noteq> CHR ''0''" by (cases s) auto
    with snoc False have "dec_string (dec_val s) = s" "0 < dec_val s" by simp_all
    then show ?thesis using snoc.prems by (simp add: dec_val_snoc dec_string_snoc)
  qed
qed simp

lemma dec_string_hd: "0 < n \<Longrightarrow> hd (dec_string n) \<noteq> CHR ''0''"
proof (induction n rule: dec_string.induct)
  case (1 n)
  show ?case
  proof (cases "n < 10")
    case True
    then have "ord (chr (48 + n)) \<noteq> ord (chr 48)" using 1 by simp
    then have "chr (48 + n) \<noteq> CHR ''0''" unfolding chr_48 by metis
    with True show ?thesis by (subst dec_string.simps) auto
  next
    case False
    then have "hd (dec_string (n div 10)) \<noteq> CHR ''0''" using 1 by simp
    with False show ?thesis by (subst dec_string.simps) simp
  qed
qed

lemma dec_string_short: "n < 1000 \<Longrightarrow> length (dec_string n) \<le> 3"
  by (subst dec_string.simps, simp, subst dec_string.simps, simp, subst dec_string.simps, simp)

lemma is_valid_octet_iff: "is_valid_octet s \<longleftrightarrow> (\<exists>n \<le> 255. s = dec_string n)"
proof
  assume s: "is_valid_octet s"
  then have digits: "s \<noteq> []" "list_all is_digit s" "hd s \<noteq> CHR ''0'' \<or> length s = 1"
    by (cases "length s"; auto simp: is_valid_octet_def split: if_splits)+
  moreover have "dec_val s \<le> 255" using s by (auto simp: is_valid_octet_def safe_strtol_eq split: if_splits)
  ultimately show "\<exists>n \<le> 255. s = dec_string n" using dec_string_dec_val [of s] by metis
next
  assume "\<exists>n \<le> 255. s = dec_string n"
  then obtain n where n: "n \<le> 255" "s = dec_string n" by blast
  moreover have "length (dec_string 0) = 1" by (simp add: dec_string.simps)
  moreover have "length (dec_string n) \<le> 3" using n by (intro dec_string_short) simp
  ultimately show "is_valid_octet s"
    using dec_string_hd [of n] by (cases "n = 0") (auto simp: is_valid_octet_def safe_strtol_eq)
qed

definition dotted :: "nat list \<Rightarrow> string" where
  "dotted ns = concat (map (\<lambda>n. CHR ''.'' # dec_string n) ns)"

lemma no_dot_octet: "CHR ''.'' \<notin> set (dec_string n)"
  using dec_string_digits [of "CHR ''.''" n] by (auto simp: in_range_def ord_def)

lemma host_loop_run: "CHR ''.'' \<notin> set x \<Longrightarrow> host_loop cur dots (x @ s) = host_loop (cur @ x) dots s"
  by (induction x arbitrary: cur) auto

lemma host_loop_dotted:
  "list_all (\<lambda>n. n \<le> 255) (n # ns) \<Longrightarrow> dots + length ns = 3 \<Longrightarrow> host_loop [] dots (dec_string n @ dotted ns)"
proof (induction ns arbitrary: n dots)
  case Nil
  then show ?case using host_loop_run [OF no_dot_octet, of "[]" dots n "[]"] by (auto simp: dotted_def is_valid_octet_iff)
next
  case (Cons m ns)
  have "host_loop [] dots (dec_string n @ dotted (m # ns)) = host_loop (dec_string n) dots (CHR ''.'' # dec_string m @ dotted ns)"
    using host_loop_run [OF no_dot_octet, of "[]" dots n] by (simp add: dotted_def)
  moreover have "is_valid_octet (dec_string n)" using Cons.prems(1) by (auto simp: is_valid_octet_iff)
  ultimately show ?case using Cons by simp
qed

lemma host_loop_sound:
  "host_loop cur dots s \<Longrightarrow>
    \<exists>n ns. cur @ s = dec_string n @ dotted ns \<and> dots + length ns = 3 \<and> list_all (\<lambda>n. n \<le> 255) (n # ns)"
proof (induction cur dots s rule: host_loop.induct)
  case (1 cur dots)
  then obtain n where "n \<le> 255" "cur = dec_string n" by (auto simp: is_valid_octet_iff)
  with 1 show ?case by (intro exI [of _ n] exI [of _ "[]"]) (simp add: dotted_def)
next
  case (2 cur dots c cs)
  show ?case
  proof (cases "c = CHR ''.''")
    case True
    with 2(3) have here: "is_valid_octet cur" "dots + 1 \<le> 3" "host_loop [] (dots + 1) cs" by (auto split: if_splits)
    then obtain m ns where m: "[] @ cs = dec_string m @ dotted ns" "dots + 1 + length ns = 3" "list_all (\<lambda>n. n \<le> 255) (m # ns)"
      using 2(1) True by fastforce
    obtain n where "n \<le> 255" "cur = dec_string n" using here(1) by (auto simp: is_valid_octet_iff)
    with m True show ?thesis by (intro exI [of _ n] exI [of _ "m # ns"]) (simp add: dotted_def)
  next
    case False
    with 2(2,3) show ?thesis by simp
  qed
qed

lemma is_valid_host_iff:
  "is_valid_host h \<longleftrightarrow> (\<exists>n ns. h = dec_string n @ dotted ns \<and> length ns = 3 \<and> list_all (\<lambda>n. n \<le> 255) (n # ns))"
  using host_loop_sound [of "[]" 0 h] host_loop_dotted [of _ _ 0] by (auto simp: is_valid_host_def)

section \<open>Properties\<close>

text \<open>
  \<open>safe_strtol\<close> never wraps.  It accepts exactly the non-empty texts of decimal digits whose
  value fits a \<open>long\<close>, and returns that value; the check made before each digit is exact, so
  neither the multiplication nor the addition can overflow and no representable value is refused.
\<close>

theorem safe_strtol_exact:
  "safe_strtol s =
     (if s \<noteq> [] \<and> list_all is_digit s \<and> dec_val s \<le> LONG_MAX then Some (int (dec_val s)) else None)"
  using safe_strtol_eq [of s] by (simp add: LONG_MAX_def)

text \<open>
  C37: \<open>is_valid_host\<close> accepts exactly the IPv4 addresses in dotted form: four numbers from 0 to 255
  written without a leading zero, separated by single dots, and nothing else.
\<close>

theorem is_valid_host_dotted:
  "is_valid_host h \<longleftrightarrow>
     (\<exists>a b c d. a \<le> 255 \<and> b \<le> 255 \<and> c \<le> 255 \<and> d \<le> 255
        \<and> h = dec_string a @ ''.'' @ dec_string b @ ''.'' @ dec_string c @ ''.'' @ dec_string d)"
proof
  assume "is_valid_host h"
  then obtain a ns where "h = dec_string a @ dotted ns" "length ns = 3" "list_all (\<lambda>n. n \<le> 255) (a # ns)"
    unfolding is_valid_host_iff by blast
  then obtain b c d where "h = dec_string a @ dotted [b, c, d]" "list_all (\<lambda>n. n \<le> 255) [a, b, c, d]"
    by (auto simp: numeral_3_eq_3 length_Suc_conv)
  then show "\<exists>a b c d. a \<le> 255 \<and> b \<le> 255 \<and> c \<le> 255 \<and> d \<le> 255
        \<and> h = dec_string a @ ''.'' @ dec_string b @ ''.'' @ dec_string c @ ''.'' @ dec_string d"
    by (intro exI [of _ a] exI [of _ b] exI [of _ c] exI [of _ d]) (simp add: dotted_def)
next
  assume "\<exists>a b c d. a \<le> 255 \<and> b \<le> 255 \<and> c \<le> 255 \<and> d \<le> 255
        \<and> h = dec_string a @ ''.'' @ dec_string b @ ''.'' @ dec_string c @ ''.'' @ dec_string d"
  then obtain a b c d where h: "a \<le> 255" "b \<le> 255" "c \<le> 255" "d \<le> 255"
      "h = dec_string a @ ''.'' @ dec_string b @ ''.'' @ dec_string c @ ''.'' @ dec_string d" by blast
  then show "is_valid_host h"
    unfolding is_valid_host_iff by (intro exI [of _ a] exI [of _ "[b, c, d]"]) (simp add: dotted_def)
qed

text \<open>
  C36: \<open>client_max_body_size\<close> is read exactly.  A number up to \<open>2 ^ 53\<close>, with or without a unit, is the
  number times the unit: the arithmetic in \<open>double\<close> loses nothing.  A product above \<open>2 ^ 63\<close> is
  refused, but at exactly \<open>2 ^ 63\<close> the check passes and the conversion to \<open>long long\<close> is
  undefined.
\<close>

theorem body_size_exact:
  assumes "0 < n" "n \<le> 2 ^ 53" "unit_multiplier u = Some m"
  shows "parse_cl_mx_bd_sz (dec_string n @ u) =
    (if int n * m < 2 ^ 63 then Some (int n * m) else if int n * m = 2 ^ 63 then None else Some (-1))"
  using assms by (rule body_size_exact_aux)

theorem body_size_exact_witness:
  "parse_cl_mx_bd_sz (dec_string 10 @ ''m'') = Some 10485760 \<and> parse_cl_mx_bd_sz (dec_string 9007199254740992 @ ''K'') = None"
  using body_size_exact [of 10 "''m''"] body_size_exact [of 9007199254740992 "''K''"] by (simp add: unit_multiplier_def)

end

