(* ===== verification/Conf_Lexer.thy ===== *)
theory Conf_Lexer
  imports Conf_Numbers
begin

text \<open>
  From the text of a configuration file to its tokens: the passes of \<open>conf/parsing.cpp\<close>
  (\<open>check_valid_content\<close>, \<open>insert_space\<close>, \<open>remove_comments\<close>, \<open>refactoring_buffer\<close>,
  \<open>storing_in_vec\<close>) and the classification of \<open>conf/LexerConfig.cpp\<close>.
\<close>

section \<open>Errors\<close>

datatype conf_failure =
    ConfError string   \<comment> \<open>\<open>std::runtime_error\<close> with its message\<close>
  | UndefinedCast      \<comment> \<open>undefined behaviour: a \<open>double\<close> that does not fit \<open>long long\<close>\<close>

section \<open>Tokens\<close>

datatype token_type =
    TYPE_CONTEXT | TYPE_DIRECTIVE | TYPE_VALUE | TYPE_LBRACE | TYPE_RBRACE | TYPE_SEMICOLON | TYPE_ERROR | TYPE_END

definition get_token_type :: "token_type \<Rightarrow> string" where
  \<comment> \<open>the code compares these names; they are distinct, so comparing constructors is the same\<close>
  "get_token_type t =
     (case t of
        TYPE_CONTEXT \<Rightarrow> ''TYPE_CONTEXT'' | TYPE_DIRECTIVE \<Rightarrow> ''TYPE_DIRECTIVE'' | TYPE_VALUE \<Rightarrow> ''TYPE_VALUE''
      | TYPE_LBRACE \<Rightarrow> ''TYPE_LBRACE'' | TYPE_RBRACE \<Rightarrow> ''TYPE_RBRACE'' | TYPE_SEMICOLON \<Rightarrow> ''TYPE_SEMICOLON''
      | TYPE_ERROR \<Rightarrow> ''TYPE_ERROR'' | TYPE_END \<Rightarrow> ''TYPE_END'')"

lemma get_token_type_eq: "get_token_type t = get_token_type t' \<longleftrightarrow> t = t'"
  by (cases t; cases t') (simp_all add: get_token_type_def)

record lexer =
  lx_type :: token_type
  lx_value :: string

definition grammar :: "(string \<times> token_type) list" where
  "grammar =
     [(''events'', TYPE_CONTEXT), (''http'', TYPE_CONTEXT), (''server'', TYPE_CONTEXT), (''location'', TYPE_CONTEXT),
      (''worker_connections'', TYPE_DIRECTIVE), (''event_model'', TYPE_DIRECTIVE), (''listen'', TYPE_DIRECTIVE),
      (''host'', TYPE_DIRECTIVE), (''server_name'', TYPE_DIRECTIVE), (''root'', TYPE_DIRECTIVE), (''index'', TYPE_DIRECTIVE),
      (''client_max_body_size'', TYPE_DIRECTIVE), (''error_page'', TYPE_DIRECTIVE), (''allowed_methods'', TYPE_DIRECTIVE),
      (''autoindex'', TYPE_DIRECTIVE), (''return'', TYPE_DIRECTIVE), (''upload_path'', TYPE_DIRECTIVE),
      (''timeout'', TYPE_DIRECTIVE), (''cgi_path'', TYPE_DIRECTIVE), (''cgi_ext'', TYPE_DIRECTIVE),
      (''{'', TYPE_LBRACE), (''}'', TYPE_RBRACE), ('';'', TYPE_SEMICOLON)]"

definition identify :: "string \<Rightarrow> token_type" where
  "identify s = (case map_of grammar s of Some t \<Rightarrow> t | None \<Rightarrow> TYPE_VALUE)"

section \<open>The passes over the text\<close>

definition valid_content_char :: "char \<Rightarrow> bool" where
  "valid_content_char c \<longleftrightarrow> ord c = 9 \<or> ord c = 10 \<or> ord c = 13 \<or> (32 \<le> ord c \<and> ord c \<le> 126)"

definition check_valid_content :: "string \<Rightarrow> conf_failure + unit" where
  "check_valid_content s =
     (if list_all valid_content_char s then Inr ()
      else Inl (ConfError ''[API_conf] Invalid character ] in config file''))"

definition is_punct :: "char \<Rightarrow> bool" where
  "is_punct c \<longleftrightarrow> c = CHR ''{'' \<or> c = CHR ''}'' \<or> c = CHR '';''"

fun insert_space :: "string \<Rightarrow> string" where
  "insert_space [] = []"
| "insert_space (c # cs) = (if is_punct c then [CHR '' '', c, CHR '' ''] else [c]) @ insert_space cs"

function remove_comments :: "bool \<Rightarrow> string \<Rightarrow> conf_failure + string" where
  \<comment> \<open>from index \<open>i\<close> on; \<open>starts_token\<close> says that \<open>i = 0\<close> or the byte before is white space\<close>
  "remove_comments starts_token [] = Inr []"
| "remove_comments starts_token (c # cs) =
     (if c = SQUOTE \<or> c = DQUOTE then Inl (ConfError ''configuration error: quoted strings are not supported'')
      else if c = CHR ''#'' \<and> starts_token then
        (case dropWhile (\<lambda>d. d \<noteq> LF) cs of
           [] \<Rightarrow> Inr []
         | d # rest \<Rightarrow> rbind (remove_comments True rest) (\<lambda>out. Inr (d # out)))
      else rbind (remove_comments (is_space c) cs) (\<lambda>out. Inr (c # out)))"
  by pat_completeness auto
termination
proof (relation "measure (length \<circ> snd)", goal_cases)
  case (2 st c cs d rest)
  then have "length (dropWhile (\<lambda>d. d \<noteq> LF) cs) = Suc (length rest)" by simp
  then show ?case using length_dropWhile_le [of "\<lambda>d. d \<noteq> LF" cs] by simp
qed auto

function squeeze :: "string \<Rightarrow> string" where
  \<comment> \<open>the loop of \<open>refactoring_buffer\<close>\<close>
  "squeeze [] = []"
| "squeeze (c # cs) = (if is_space c then CHR '' '' # squeeze (dropWhile is_space cs) else c # squeeze cs)"
  by pat_completeness auto
termination
  by (relation "measure length") (auto simp: length_dropWhile_le le_imp_less_Suc)

definition refactoring_buffer :: "string \<Rightarrow> string" where
  "refactoring_buffer s =
     (let out = squeeze s;
          out = (if out \<noteq> [] \<and> last out = CHR '' '' then butlast out else out)
      in if out \<noteq> [] \<and> hd out = CHR '' '' then tl out else out)"

fun split_spaces :: "string \<Rightarrow> string \<Rightarrow> string list" where
  \<comment> \<open>successive \<open>std::getline(buff, tmp, ' ')\<close>\<close>
  "split_spaces cur [] = (if cur = [] then [] else [cur])"
| "split_spaces cur (c # cs) =
     (if c = CHR '' '' then cur # split_spaces [] cs else split_spaces (cur @ [c]) cs)"

definition storing_in_vec :: "string \<Rightarrow> string list" where
  "storing_in_vec s = filter (\<lambda>t. t \<noteq> []) (split_spaces [] s)"

definition conf_tokens :: "string \<Rightarrow> conf_failure + string list" where
  \<comment> \<open>the passes in the order of \<open>API_conf\<close>\<close>
  "conf_tokens text =
     (if text = [] then Inl (ConfError ''[API_conf] config file is empty'')
      else
        rbind (check_valid_content text) (\<lambda>_.
        rbind (remove_comments True (insert_space text)) (\<lambda>s.
          let s = refactoring_buffer s in
          if list_all (\<lambda>c. c \<in> {CHR '' '', TAB, CR, LF}) s
          then Inl (ConfError ''[API_conf] config has no contexts after preprocessing'')
          else Inr (storing_in_vec s))))"

definition token_stream :: "string list \<Rightarrow> lexer list" where
  "token_stream ts = map (\<lambda>t. \<lparr>lx_type = identify t, lx_value = t\<rparr>) ts @ [\<lparr>lx_type = TYPE_END, lx_value = []\<rparr>]"

section \<open>The passes split the text at white space\<close>

fun words :: "string \<Rightarrow> string \<Rightarrow> string list" where
  "words cur [] = (if cur = [] then [] else [cur])"
| "words cur (c # cs) =
     (if is_space c then (if cur = [] then words [] cs else cur # words [] cs) else words (cur @ [c]) cs)"

lemma is_space_blank [simp]: "is_space (CHR '' '')"
  by (simp add: is_space_def)

lemma split_squeeze:
  "filter (\<lambda>t. t \<noteq> []) (split_spaces cur (squeeze s)) = words cur s"
proof (induction s arbitrary: cur rule: squeeze.induct)
  case (2 c cs)
  have drop: "words [] (dropWhile is_space cs) = words [] cs" by (induction cs) auto
  show ?case
  proof (cases "is_space c")
    case True
    with 2(1) [OF True, of "[]"] drop show ?thesis by simp
  next
    case False
    then have "c \<noteq> CHR '' ''" by auto
    with 2(2) [OF False, of "cur @ [c]"] False show ?thesis by simp
  qed
qed simp

lemma split_trim_right: "filter (\<lambda>t. t \<noteq> []) (split_spaces cur (s @ [CHR '' ''])) = filter (\<lambda>t. t \<noteq> []) (split_spaces cur s)"
  by (induction cur s rule: split_spaces.induct) auto

lemma tokens_are_words: "storing_in_vec (refactoring_buffer s) = words [] s"
proof -
  let ?f = "\<lambda>s. filter (\<lambda>t. t \<noteq> []) (split_spaces [] s)"
  have left: "?f (if out \<noteq> [] \<and> hd out = CHR '' '' then tl out else out) = ?f out" for out by (cases out) auto
  have right: "?f (if out \<noteq> [] \<and> last out = CHR '' '' then butlast out else out) = ?f out" for out
    by (cases out rule: rev_cases) (simp_all add: split_trim_right)
  show ?thesis unfolding storing_in_vec_def refactoring_buffer_def Let_def left right by (rule split_squeeze)
qed

section \<open>Laying out tokens\<close>

text \<open>
  A layout of a token list: before every token a gap of white space and comments, each comment
  a \<open>#\<close>, any text and a line end.  The gap may be empty beside a brace or a semicolon.
\<close>

type_synonym gap = "string \<times> (string \<times> string) list"

definition gap_text :: "gap \<Rightarrow> string" where
  "gap_text = (\<lambda>(ws, comments). ws @ concat (map (\<lambda>(text, ws'). ''#'' @ text @ [LF] @ ws') comments))"

definition blank :: "string \<Rightarrow> bool" where
  "blank ws \<longleftrightarrow> list_all (\<lambda>c. is_space c \<and> valid_content_char c) ws"

definition gap_ok :: "gap \<Rightarrow> bool" where
  "gap_ok = (\<lambda>(ws, comments). blank ws \<and> (comments \<noteq> [] \<longrightarrow> ws \<noteq> [])
     \<and> list_all (\<lambda>(text, ws'). list_all (\<lambda>c. valid_content_char c \<and> c \<noteq> LF) text \<and> blank ws') comments)"

definition word_ok :: "string \<Rightarrow> bool" where
  \<comment> \<open>a token that is not a brace or a semicolon\<close>
  "word_ok t \<longleftrightarrow> t \<noteq> [] \<and> hd t \<noteq> CHR ''#''
     \<and> list_all (\<lambda>c. valid_content_char c \<and> \<not> is_space c \<and> \<not> is_punct c \<and> c \<noteq> SQUOTE \<and> c \<noteq> DQUOTE) t"

definition punct_token :: "string \<Rightarrow> bool" where
  "punct_token t \<longleftrightarrow> t \<in> {''{'', ''}'', '';''}"

fun layout_ok :: "bool \<Rightarrow> (gap \<times> string) list \<Rightarrow> bool" where
  \<comment> \<open>\<open>free\<close>: no white space is needed after what precedes\<close>
  "layout_ok free [] = True"
| "layout_ok free ((g, t) # items) =
     (gap_ok g \<and> (word_ok t \<or> punct_token t) \<and> (fst g = [] \<longrightarrow> free \<or> punct_token t) \<and> layout_ok (punct_token t) items)"

definition layout :: "(gap \<times> string) list \<Rightarrow> gap \<Rightarrow> string" where
  "layout items end_gap = concat (map (\<lambda>(g, t). gap_text g @ t) items) @ gap_text end_gap"

lemma insert_space_append [simp]: "insert_space (s @ t) = insert_space s @ insert_space t"
  by (induction s) auto

lemma is_punct_not_space: "is_punct c \<Longrightarrow> \<not> is_space c \<and> valid_content_char c"
  by (auto simp: is_punct_def is_space_def valid_content_char_def ord_def)

lemma no_punct_id: "list_all (\<lambda>c. \<not> is_punct c) s \<Longrightarrow> insert_space s = s"
  by (induction s) auto

lemma remove_comments_word:
  "list_all (\<lambda>c. \<not> is_space c \<and> c \<noteq> SQUOTE \<and> c \<noteq> DQUOTE) s \<Longrightarrow>
    remove_comments False (s @ r) = rbind (remove_comments False r) (\<lambda>out. Inr (s @ out))"
proof (induction s)
  case (Cons c s)
  then show ?case by (cases "remove_comments False r") auto
qed (cases "remove_comments False r"; simp)

lemma remove_comments_blank:
  "blank ws \<Longrightarrow> ws \<noteq> [] \<or> st \<Longrightarrow> remove_comments st (ws @ r) = rbind (remove_comments True r) (\<lambda>out. Inr (ws @ out))"
proof (induction ws arbitrary: st)
  case (Cons c ws)
  then have c: "is_space c" "blank ws" by (simp_all add: blank_def)
  from c(1) have n: "c \<noteq> SQUOTE \<and> c \<noteq> DQUOTE \<and> c \<noteq> CHR ''#''" by (auto simp: is_space_def ord_def)
  with c Cons.IH [of True] show ?case by (cases "remove_comments True r") simp_all
qed (cases "remove_comments True r"; simp)

lemma remove_comments_comment:
  "LF \<notin> set text \<Longrightarrow> remove_comments True (''#'' @ text @ [LF] @ r) = rbind (remove_comments True r) (\<lambda>out. Inr (LF # out))"
  by (simp add: dropWhile_append)

lemma words_blank: "list_all is_space ws \<Longrightarrow> words [] (ws @ r) = words [] r"
  by (induction ws) auto

lemma words_word: "list_all (\<lambda>c. \<not> is_space c) s \<Longrightarrow> words cur (s @ r) = words (cur @ s) r"
  by (induction s arbitrary: cur) auto

lemma blank_no_punct: "blank ws \<Longrightarrow> insert_space ws = ws"
  by (rule no_punct_id) (auto simp: blank_def list_all_iff dest: is_punct_not_space)

lemma blank_append [simp]: "blank (a @ b) = (blank a \<and> blank b)"
  by (simp add: blank_def)

lemma blank_spaces: "blank ws \<Longrightarrow> list_all is_space ws"
  by (simp add: blank_def list_all_iff)

lemma insert_space_no_LF: "LF \<notin> set text \<Longrightarrow> LF \<notin> set (insert_space text)"
  by (induction "text") auto

lemma blank_LF: "blank [LF]"
  by (simp add: blank_def is_space_def valid_content_char_def ord_def)

lemma remove_comments_comments:
  "list_all (\<lambda>(text, ws). list_all (\<lambda>c. valid_content_char c \<and> c \<noteq> LF) text \<and> blank ws) comments \<Longrightarrow>
    \<exists>b. blank b \<and> remove_comments True (insert_space (concat (map (\<lambda>(text, ws'). ''#'' @ text @ [LF] @ ws') comments)) @ r)
      = rbind (remove_comments True r) (\<lambda>out. Inr (b @ out))"
proof (induction comments)
  case Nil
  show ?case by (intro exI [of _ "[]"]) (cases "remove_comments True r"; simp add: blank_def)
next
  case (Cons x comments)
  obtain cm ws where x: "x = (cm, ws)" by (cases x)
  with Cons.prems have t: "LF \<notin> set cm" "blank ws" by (auto simp: list_all_iff)
  let ?rest = "insert_space (concat (map (\<lambda>(text, ws'). ''#'' @ text @ [LF] @ ws') comments)) @ r"
  obtain b where b: "blank b" "remove_comments True ?rest = rbind (remove_comments True r) (\<lambda>out. Inr (b @ out))"
    using Cons.IH Cons.prems by auto
  have eq: "insert_space (concat (map (\<lambda>(text, ws'). ''#'' @ text @ [LF] @ ws') (x # comments))) @ r
      = ''#'' @ insert_space cm @ [LF] @ (ws @ ?rest)"
    using blank_no_punct [OF t(2)] by (simp add: x is_punct_def)
  have "remove_comments True (''#'' @ insert_space cm @ [LF] @ (ws @ ?rest)) = rbind (remove_comments True r) (\<lambda>out. Inr (LF # ws @ b @ out))"
    using remove_comments_comment [OF insert_space_no_LF [OF t(1)]] remove_comments_blank [OF t(2), of True] b(2)
    by (cases "remove_comments True r") simp_all
  then show ?case unfolding eq using b(1) t(2) blank_LF by (intro exI [of _ "LF # ws @ b"]) (simp add: blank_def)
qed

lemma remove_comments_gap:
  assumes "gap_ok g"
  shows "\<exists>b st'. blank b \<and> (fst g \<noteq> [] \<longrightarrow> b \<noteq> [] \<and> st') \<and> (st \<longrightarrow> st')
    \<and> remove_comments st (insert_space (gap_text g) @ r) = rbind (remove_comments st' r) (\<lambda>out. Inr (b @ out))"
proof -
  obtain ws comments where g: "g = (ws, comments)" by (cases g)
  with assms have ok: "blank ws" "comments \<noteq> [] \<Longrightarrow> ws \<noteq> []"
      "list_all (\<lambda>(text, ws'). list_all (\<lambda>c. valid_content_char c \<and> c \<noteq> LF) text \<and> blank ws') comments"
    by (auto simp: gap_ok_def)
  show ?thesis
  proof (cases "ws = []")
    case True
    with ok(2) have "comments = []" by blast
    with True g show ?thesis
      by (intro exI [of _ "[]"] exI [of _ st]) (cases "remove_comments st r"; simp add: gap_text_def blank_def)
  next
    case False
    obtain b where b: "blank b" "remove_comments True (insert_space (concat (map (\<lambda>(text, ws'). ''#'' @ text @ [LF] @ ws') comments)) @ r)
        = rbind (remove_comments True r) (\<lambda>out. Inr (b @ out))"
      using remove_comments_comments [OF ok(3)] by blast
    then have "remove_comments st (insert_space (gap_text g) @ r) = rbind (remove_comments True r) (\<lambda>out. Inr ((ws @ b) @ out))"
      using remove_comments_blank [OF ok(1), of st] False blank_no_punct [OF ok(1)]
      by (cases "remove_comments True r") (simp_all add: g gap_text_def)
    with b(1) ok(1) False show ?thesis by (intro exI [of _ "ws @ b"] exI [of _ True]) simp
  qed
qed

lemma layout_words:
  "layout_ok free items \<Longrightarrow> gap_ok g0 \<Longrightarrow> (free \<longrightarrow> st) \<Longrightarrow>
    \<exists>out. remove_comments st (insert_space (layout items g0)) = Inr out \<and> words [] out = map snd items
      \<and> (free \<or> out = [] \<or> is_space (hd out))"
proof (induction items arbitrary: free st)
  case Nil
  obtain b st' where b: "blank b" "remove_comments st (insert_space (gap_text g0) @ []) = rbind (remove_comments st' []) (\<lambda>out. Inr (b @ out))"
    using remove_comments_gap [OF Nil(2), of st "[]"] by blast
  moreover have "words [] b = []" using words_blank [OF blank_spaces [OF b(1)], of "[]"] by simp
  moreover have "b = [] \<or> is_space (hd b)" using b(1) by (cases b) (simp_all add: blank_def)
  ultimately show ?case by (simp add: layout_def)
next
  case (Cons x items)
  obtain g t where x: "x = (g, t)" by (cases x)
  with Cons.prems have ok: "gap_ok g" "word_ok t \<or> punct_token t" "fst g = [] \<longrightarrow> free \<or> punct_token t" "layout_ok (punct_token t) items"
    by auto
  let ?r = "insert_space t @ insert_space (layout items g0)"
  obtain b st' where b: "blank b" "fst g \<noteq> [] \<longrightarrow> b \<noteq> [] \<and> st'" "st \<longrightarrow> st'"
      "remove_comments st (insert_space (gap_text g) @ ?r) = rbind (remove_comments st' ?r) (\<lambda>out. Inr (b @ out))"
    using remove_comments_gap [OF ok(1), of st ?r] by blast
  have lay: "insert_space (layout (x # items) g0) = insert_space (gap_text g) @ ?r" by (simp add: x layout_def)
  have start: "b \<noteq> [] \<Longrightarrow> is_space (hd b)" using b(1) by (cases b) (simp_all add: blank_def)
  have sp: "words [] (b @ s) = words [] s" for s using words_blank [OF blank_spaces [OF b(1)]] .
  show ?case
  proof (cases "punct_token t")
    case True
    then obtain c where t: "t = [c]" "is_punct c" by (auto simp: punct_token_def is_punct_def)
    then have c: "\<not> is_space c" "c \<noteq> SQUOTE" "c \<noteq> DQUOTE" "c \<noteq> CHR ''#''" by (auto simp: is_punct_def is_space_def ord_def)
    obtain out where out: "remove_comments True (insert_space (layout items g0)) = Inr out" "words [] out = map snd items"
      using Cons.IH [OF ok(4) Cons.prems(2), of True] by blast
    have "remove_comments st' ?r = Inr (CHR '' '' # c # CHR '' '' # out)" using out(1) c t by simp
    then have "remove_comments st (insert_space (layout (x # items) g0)) = Inr (b @ CHR '' '' # c # CHR '' '' # out)" using b(4) lay by simp
    moreover have "words [] (b @ CHR '' '' # c # CHR '' '' # out) = t # map snd items" using sp out(2) c(1) t(1) by simp
    moreover have "is_space (hd (b @ CHR '' '' # c # CHR '' '' # out))" using start by (cases b) auto
    ultimately show ?thesis using x by auto
  next
    case False
    then have word: "word_ok t" and need: "fst g = [] \<longrightarrow> free" using ok by simp_all
    then obtain c cs where t: "t = c # cs" "c \<noteq> CHR ''#''" by (cases t) (auto simp: word_ok_def)
    have all: "list_all (\<lambda>c. \<not> is_space c \<and> c \<noteq> SQUOTE \<and> c \<noteq> DQUOTE) t" "insert_space t = t" "list_all (\<lambda>c. \<not> is_space c) t"
      using word no_punct_id [of t] by (auto simp: word_ok_def list_all_iff)
    obtain out where out: "remove_comments False (insert_space (layout items g0)) = Inr out" "words [] out = map snd items"
        "out = [] \<or> is_space (hd out)"
      using Cons.IH [OF ok(4) Cons.prems(2), of False] False by auto
    have "remove_comments False (cs @ insert_space (layout items g0)) = Inr (cs @ out)"
      using remove_comments_word [of cs] all(1) t(1) out(1) by simp
    then have "remove_comments st' ?r = Inr (t @ out)" using all t by simp
    then have run: "remove_comments st (insert_space (layout (x # items) g0)) = Inr (b @ t @ out)" using b(4) lay by simp
    have "words [] (t @ out) = words t out" using words_word [OF all(3), of "[]"] by simp
    also have "\<dots> = t # words [] out" using out(3) t(1) by (cases out) auto
    finally have "words [] (b @ t @ out) = map snd (x # items)" using sp out(2) x by simp
    moreover have "free \<or> is_space (hd (b @ t @ out))" using need b(2) start by (cases "b = []") auto
    ultimately show ?thesis using run by blast
  qed
qed

lemma squeeze_chars: "c \<in> set (squeeze s) \<Longrightarrow> c = CHR '' '' \<or> \<not> is_space c"
proof (induction s rule: squeeze.induct)
  case (2 c cs)
  then show ?case by (cases "is_space c") auto
qed simp

lemma only_blanks_no_tokens:
  assumes "list_all (\<lambda>c. c \<in> {CHR '' '', TAB, CR, LF}) (refactoring_buffer s)"
  shows "storing_in_vec (refactoring_buffer s) = []"
proof -
  have sub: "set (refactoring_buffer s) \<subseteq> set (squeeze s)"
    by (auto simp: refactoring_buffer_def Let_def dest: in_set_butlastD list.set_sel(2) split: if_splits)
  have "c = CHR '' ''" if "c \<in> set (refactoring_buffer s)" for c
  proof -
    have "c = CHR '' '' \<or> \<not> is_space c" using squeeze_chars sub that by blast
    moreover have "c \<in> {CHR '' '', TAB, CR, LF}" using assms that by (simp add: list_all_iff)
    ultimately show ?thesis by (auto simp: is_space_def ord_def)
  qed
  moreover have "storing_in_vec x = []" if "\<And>c. c \<in> set x \<Longrightarrow> c = CHR '' ''" for x
    using that by (induction x) (auto simp: storing_in_vec_def)
  ultimately show ?thesis by blast
qed

lemma gap_chars: "gap_ok g \<Longrightarrow> list_all valid_content_char (gap_text g)"
proof -
  assume g: "gap_ok g"
  have "valid_content_char (CHR ''#'')" "valid_content_char LF" by (simp_all add: valid_content_char_def ord_def)
  with g show ?thesis by (cases g) (fastforce simp: gap_ok_def gap_text_def blank_def list_all_iff)
qed

lemma layout_chars: "layout_ok free items \<Longrightarrow> gap_ok g0 \<Longrightarrow> list_all valid_content_char (layout items g0)"
proof (induction items arbitrary: free)
  case Nil
  then show ?case by (simp add: layout_def gap_chars)
next
  case (Cons x items)
  obtain g t where x: "x = (g, t)" by (cases x)
  have "list_all valid_content_char t" if "punct_token t"
    using that by (auto simp: punct_token_def valid_content_char_def ord_def)
  then have "list_all valid_content_char t"
    using Cons.prems(1) x by (auto simp: word_ok_def list_all_iff)
  with Cons x show ?case by (auto simp: layout_def gap_chars)
qed

lemma tokens_of_layout:
  assumes "layout_ok True items" "gap_ok end_gap" "items \<noteq> []"
  shows "conf_tokens (layout items end_gap) = Inr (map snd items)"
proof -
  let ?text = "layout items end_gap"
  obtain out where out: "remove_comments True (insert_space ?text) = Inr out" "words [] out = map snd items"
    using layout_words [OF assms(1,2), of True] by blast
  have tokens: "storing_in_vec (refactoring_buffer out) = map snd items" using tokens_are_words out(2) by simp
  then have "\<not> list_all (\<lambda>c. c \<in> {CHR '' '', TAB, CR, LF}) (refactoring_buffer out)"
    using only_blanks_no_tokens assms(3) by fastforce
  moreover have "?text \<noteq> []"
    using assms(1,3) by (cases items) (auto simp: layout_def word_ok_def punct_token_def)
  moreover have "check_valid_content ?text = Inr ()"
    using layout_chars [OF assms(1,2)] by (simp add: check_valid_content_def)
  ultimately show ?thesis using out(1) tokens unfolding conf_tokens_def Let_def by (simp del: remove_comments.simps)
qed

section \<open>Properties\<close>

text \<open>
  C14: the tokens of a configuration do not depend on its layout.  However a list of tokens is
  written out, with any white space and any comments between them (and none at all beside a brace
  or a semicolon), the passes over the text and the splitting give back exactly that list; a
  comment may contain braces, semicolons and quotes.
\<close>

theorem conf_tokens_layout:
  assumes "layout_ok True items" "gap_ok end_gap" "items \<noteq> []"
  shows "conf_tokens (layout items end_gap) = Inr (map snd items)"
  using assms by (rule tokens_of_layout)

theorem conf_tokens_layout_witness:
  "conf_tokens (layout [((''  '', []), ''server''), (([], []), ''{''), (([LF], [('' a { comment;'', '' '')]), ''listen''), (('' '', []), ''8080''),
      (([], []), '';''), (([LF], []), ''}'')] ([LF], []))
    = Inr [''server'', ''{'', ''listen'', ''8080'', '';'', ''}'']"
proof -
  have "layout_ok True [((''  '', []), ''server''), (([], []), ''{''), (([LF], [('' a { comment;'', '' '')]), ''listen''), (('' '', []), ''8080''),
      (([], []), '';''), (([LF], []), ''}'')] \<and> gap_ok ([LF], [])"
    by code_simp
  then show ?thesis using conf_tokens_layout by simp
qed

end

