(* ===== verification/Conf_Parser.thy ===== *)
theory Conf_Parser
  imports Conf_Lexer
begin

text \<open>
  The parser of the configuration: the directives of the \<open>events\<close>, \<open>http\<close>, \<open>server\<close> and \<open>location\<close>
  blocks (\<open>conf/eventsConfig.cpp\<close>, \<open>conf/parserConf.cpp\<close>, \<open>conf/server_parser.cpp\<close>,
  \<open>conf/location_parser.cpp\<close>) and the block structure.  The pair of the token vector and the index
  \<open>i\<close> is the list of the tokens from \<open>i\<close> on.  A message is what the exception carries; the token
  and the place that \<open>report_parse_error\<close> prints are left out.
\<close>

section \<open>Values of a directive\<close>

type_synonym 'a conf_result = "conf_failure + 'a"

abbreviation perr :: "string \<Rightarrow> 'a conf_result" where
  "perr msg \<equiv> Inl (ConfError msg)"

fun take_values :: "lexer list \<Rightarrow> string list \<times> lexer list" where
  "take_values [] = ([], [])"
| "take_values (t # ts) =
     (if lx_type t = TYPE_VALUE then (case take_values ts of (vs, rest) \<Rightarrow> (lx_value t # vs, rest)) else ([], t # ts))"

definition consumeValues :: "lexer list \<Rightarrow> (string list \<times> lexer list) conf_result" where
  \<comment> \<open>from the directive on, past the semicolon\<close>
  "consumeValues ts =
     (case take_values (tl ts) of (values, rest) \<Rightarrow>
        (case rest of
           [] \<Rightarrow> perr ''Unexpected end of file: expected ';' after value''
         | t # rest \<Rightarrow>
             if lx_type t = TYPE_SEMICOLON then Inr (values, rest)
             else perr ''Missing semicolon after directive value''))"

definition consumeValuesLenient :: "lexer list \<Rightarrow> (string list \<times> lexer list) conf_result" where
  "consumeValuesLenient ts =
     (case take_values (tl ts) of (values, rest) \<Rightarrow>
        (case rest of
           t # rest \<Rightarrow>
             if lx_type t = TYPE_SEMICOLON then Inr (values, rest)
             else perr ''Missing ';' after events directive''
         | [] \<Rightarrow> perr ''Unexpected end of file: expected ';' after events directive''))"

fun take_directives :: "lexer list \<Rightarrow> string list \<times> lexer list" where
  "take_directives [] = ([], [])"
| "take_directives (t # ts) =
     (if lx_type t = TYPE_DIRECTIVE then (let (ds, rest) = take_directives ts in (lx_value t # ds, rest)) else ([], t # ts))"

definition consumeDirective :: "lexer list \<Rightarrow> string list \<times> lexer list" where
  \<comment> \<open>not called by any parser\<close>
  "consumeDirective ts = take_directives (tl ts)"

definition MAX_CLIENT_BODY_SIZE_LIMIT :: int where "MAX_CLIENT_BODY_SIZE_LIMIT = 2 ^ 31 - 1"

definition body_size :: "string \<Rightarrow> string \<Rightarrow> int conf_result" where
  "body_size msg v =
     (case parse_cl_mx_bd_sz v of
        None \<Rightarrow> Inl UndefinedCast
      | Some tmp \<Rightarrow> if tmp = -1 \<or> tmp > MAX_CLIENT_BODY_SIZE_LIMIT then perr msg else Inr tmp)"

fun set_error_pages :: "string \<Rightarrow> (int \<Rightarrow> 'a \<Rightarrow> 'a) \<Rightarrow> string list \<Rightarrow> 'a \<Rightarrow> 'a conf_result" where
  "set_error_pages msg put [] x = Inr x"
| "set_error_pages msg put (v # vs) x =
     (case safe_strtol v of
        None \<Rightarrow> perr msg
      | Some code_long \<Rightarrow>
          let code = to_int32 code_long in
          if code < 300 \<or> code > 599 then perr msg else set_error_pages msg put vs (put code x))"

section \<open>\<open>http\<close>\<close>

definition http_directive :: "string \<Rightarrow> string list \<Rightarrow> http_config \<Rightarrow> http_config conf_result" where
  "http_directive directive values http =
     (if values = [] then perr ''Syntax Error: directive ''
      else if directive = ''client_max_body_size'' then
        (if length values \<noteq> 1 then perr ''Syntax Error: directive ''
         else rbind (body_size ''Syntax Error'' (hd values)) (\<lambda>tmp. Inr (http\<lparr>http_client_max_body_size := tmp\<rparr>)))
      else if directive = ''error_page'' then
        (if length values < 2 then perr ''Syntax Error: directive ''
         else set_error_pages ''Syntax Error: directive '' (\<lambda>code. set_error_page code (last values)) (butlast values) http)
      else perr ''Syntax Error: directive '')"

section \<open>\<open>server\<close>\<close>

definition set_port :: "string \<Rightarrow> server \<Rightarrow> server conf_result" where
  "set_port v server =
     (case safe_strtol v of
        None \<Rightarrow> perr ''Syntax Error: directive ''
      | Some port_long \<Rightarrow>
          let port = to_int32 port_long in
          if port < 1 \<or> port > 65535 then perr ''Syntax Error: directive '' else Inr (server\<lparr>srv_port := port\<rparr>))"

definition listen_directive :: "string \<Rightarrow> server \<Rightarrow> server conf_result" where
  "listen_directive v server =
     (if CHR '':'' \<in> set v then
        let host = takeWhile (\<lambda>c. c \<noteq> CHR '':'') v;
            port = drop (length host + 1) v in
        if host = ''*'' then set_port port (server\<lparr>srv_host := ''0.0.0.0''\<rparr>)
        else if host = ''localhost'' then set_port port (server\<lparr>srv_host := host\<rparr>)
        else if \<not> is_valid_host host then perr ''Syntax Error: directive ''
        else set_port port (server\<lparr>srv_host := host\<rparr>)
      else if safe_strtol v \<noteq> None then set_port v (server\<lparr>srv_host := ''0.0.0.0''\<rparr>)
      else if is_valid_host v then Inr (server\<lparr>srv_host := v, srv_port := 9090\<rparr>)
      else perr ''Syntax Error: directive '')"

definition set_timeout :: "string \<Rightarrow> server \<Rightarrow> server conf_result" where
  "set_timeout v server =
     (case safe_strtol v of
        None \<Rightarrow> perr ''Syntax Error: directive ''
      | Some tmp_long \<Rightarrow>
          let tmp = to_int32 tmp_long in
          if tmp \<le> 0 \<or> tmp > 3600 then perr ''Syntax Error: directive '' else Inr (server\<lparr>srv_timeout_seconds := tmp\<rparr>))"

definition server_directive :: "string \<Rightarrow> string list \<Rightarrow> server \<Rightarrow> server conf_result" where
  "server_directive directive values server =
     (if values = [] then perr ''Syntax Error: directive ''
      else if directive = ''listen'' then
        (if length values \<noteq> 1 then perr ''Syntax Error: directive '' else listen_directive (hd values) server)
      else if directive = ''root'' then
        (if length values \<noteq> 1 then perr ''Syntax Error: directive '' else Inr (server\<lparr>srv_root := hd values\<rparr>))
      else if directive = ''index'' then
        (if [] \<in> set values then perr ''Syntax Error: directive'' else Inr (fold srv_setIndex_s values server))
      else if directive = ''server_name'' then Inr (server\<lparr>srv_server_name := hd values\<rparr>)
      else if directive = ''client_max_body_size'' then
        (if length values \<noteq> 1 then perr ''Syntax Error: directive ''
         else rbind (body_size ''Syntax Error'' (hd values)) (\<lambda>tmp. Inr (server\<lparr>srv_client_max_body_size := tmp\<rparr>)))
      else if directive = ''timeout'' then
        (if length values \<noteq> 1 then perr ''Syntax Error: directive '' else set_timeout (hd values) server)
      else if directive = ''error_page'' then
        (if length values < 2 then perr ''Syntax Error: directive ''
         else set_error_pages ''Syntax Error: directive '' (\<lambda>code. setErrorPage code (last values)) (butlast values) server)
      else perr ''Syntax Error: directive '')"

section \<open>\<open>location\<close>\<close>

fun set_methods :: "string list \<Rightarrow> string list \<Rightarrow> location \<Rightarrow> location conf_result" where
  "set_methods seen [] l = Inr l"
| "set_methods seen (v # vs) l =
     (if v \<in> {''GET'', ''POST'', ''DELETE''} then
        (if v \<in> set seen then perr ''Syntax Error: directive''
         else set_methods (v # seen) vs (setMethods v l))
      else perr ''Syntax Error: directive'')"

definition set_return :: "string list \<Rightarrow> location \<Rightarrow> location conf_result" where
  "set_return values l =
     (if length values \<noteq> 2 then perr ''Syntax Error: directive''
      else case safe_strtol (values ! 0) of
        None \<Rightarrow> perr ''Syntax Error: directive''
      | Some code_long \<Rightarrow>
          let code = to_int32 code_long in
          if code < 300 \<or> code \<ge> 400 then perr ''Syntax Error: directive''
          else Inr (setReturnRedirection code (values ! 1) l))"

definition location_directive :: "string \<Rightarrow> string list \<Rightarrow> location \<Rightarrow> location conf_result" where
  "location_directive directive values l =
     (if values = [] then perr (''Directive '' @ [SQUOTE] @ directive @ [SQUOTE] @ '' must have at least one value.'')
      else if directive = ''root'' then
        (if length values \<noteq> 1 then perr ''Syntax Error: directive'' else Inr (l\<lparr>loc_root := hd values\<rparr>))
      else if directive = ''index'' then Inr (fold loc_setIndex_s values (clear_index l))
      else if directive = ''allowed_methods'' then set_methods [] values l
      else if directive = ''autoindex'' then
        (if length values \<noteq> 1 then perr ''Syntax Error: directive''
         else if hd values = ''on'' \<or> hd values = ''off'' then Inr (setAutoindex (hd values) l)
         else perr ''Syntax Error: directive'')
      else if directive = ''cgi_path'' then Inr (setCGI_paths values l)
      else if directive = ''cgi_ext'' then Inr (setCGI_extensions values l)
      else if directive = ''upload_path'' then
        (if length values \<noteq> 1 then perr ''Syntax Error: directive'' else Inr (l\<lparr>loc_upload := hd values\<rparr>))
      else if directive = ''client_max_body_size'' then
        (if length values \<noteq> 1 then perr ''Syntax Error: directive''
         else rbind (body_size ''Syntax Error: directive'' (hd values)) (\<lambda>tmp. Inr (l\<lparr>loc_client_max_body_size := tmp\<rparr>)))
      else if directive = ''error_page'' then
        (if length values < 2 then perr ''Syntax Error: directive''
         else set_error_pages ''Syntax Error: directive'' (\<lambda>code. set_error_page_loc code (last values)) (butlast values) l)
      else if directive = ''return'' then set_return values l
      else perr ''Syntax Error: directive'')"

section \<open>\<open>events\<close>\<close>

record events_config =
  ev_worker_connections :: int
  ev_event_model :: string

definition eventsConfig_new :: events_config where
  "eventsConfig_new = \<lparr>ev_worker_connections = 0, ev_event_model = []\<rparr>"

definition eventsConfig_set_default_conf :: "events_config \<Rightarrow> events_config" where
  "eventsConfig_set_default_conf ev = ev\<lparr>ev_worker_connections := 1, ev_event_model := ''epoll''\<rparr>"

definition events_directive :: "string \<Rightarrow> string list \<Rightarrow> events_config \<Rightarrow> events_config" where
  \<comment> \<open>anything unexpected is a warning\<close>
  "events_directive directive values events =
     (if values = [] then events
      else if directive = ''worker_connections'' then
        (if length values \<noteq> 1 then events
         else case safe_strtol (hd values) of
           None \<Rightarrow> events
         | Some tmp \<Rightarrow> if tmp \<le> 0 then events else events\<lparr>ev_worker_connections := to_int32 tmp\<rparr>)
      else if directive = ''event_model'' then
        (if length values \<noteq> 1 then events
         else if hd values \<in> {''select'', ''poll'', ''epoll'', ''kqueue''} then events\<lparr>ev_event_model := hd values\<rparr>
         else events)
      else events)"

section \<open>Every parser moves forward\<close>

lemma take_values_length: "take_values ts = (vs, rest) \<Longrightarrow> length rest \<le> length ts"
  by (induction ts arbitrary: vs rest) (auto split: if_splits prod.splits intro: le_SucI)

lemma consumeValues_shorter: "consumeValues ts = Inr (vs, rest) \<Longrightarrow> length rest < length ts"
  using take_values_length [of "tl ts"]
  by (cases "take_values (tl ts)"; cases ts)
     (fastforce simp: consumeValues_def split: list.splits if_splits)+

lemma consumeValuesLenient_shorter: "consumeValuesLenient ts = Inr (vs, rest) \<Longrightarrow> length rest < length ts"
  using take_values_length [of "tl ts"]
  by (cases "take_values (tl ts)"; cases ts)
     (fastforce simp: consumeValuesLenient_def split: list.splits if_splits)+

definition with_values :: "(lexer list \<Rightarrow> (string list \<times> lexer list) conf_result) \<Rightarrow> (string list \<Rightarrow> 'a conf_result)
    \<Rightarrow> lexer list \<Rightarrow> ('a \<times> lexer list) conf_result" where
  \<comment> \<open>\<open>parseDirective\<close>: the values are consumed, then the directive is carried out\<close>
  "with_values consume op ts = rbind (consume ts) (\<lambda>(values, rest). rbind (op values) (\<lambda>x. Inr (x, rest)))"

lemma with_values_shorter:
  "with_values consumeValues op ts = Inr (x, rest) \<Longrightarrow> length rest < length ts"
  "with_values consumeValuesLenient op ts = Inr (x, rest) \<Longrightarrow> length rest < length ts"
  using consumeValues_shorter [of ts _ rest] consumeValuesLenient_shorter [of ts _ rest]
  by (auto simp: with_values_def rbind_Inr_iff split: prod.splits)

section \<open>A \<open>location\<close> block\<close>

definition location_unique :: "string list" where
  "location_unique = [''allowed_methods'', ''root'', ''index'', ''autoindex'', ''cgi_path'', ''cgi_ext'', ''upload_path'',
     ''client_max_body_size'', ''return'']"

definition see :: "string list \<Rightarrow> string \<Rightarrow> string list \<Rightarrow> string list" where
  \<comment> \<open>\<open>seen_directives\<close> after a directive\<close>
  "see unique d seen = (if d \<in> set unique then d # seen else seen)"

function location_block :: "string list \<Rightarrow> location \<Rightarrow> lexer list \<Rightarrow> (location \<times> lexer list) conf_result" where
  "location_block seen l [] = Inr (l, [])"
| "location_block seen l (t # ts) =
     (if lx_type t = TYPE_RBRACE then Inr (l, t # ts)
      else if lx_type t = TYPE_DIRECTIVE then
        (if lx_value t \<in> set location_unique \<and> lx_value t \<in> set seen then perr ''Duplicate directive in location''
         else rbind (with_values consumeValues (\<lambda>values. location_directive (lx_value t) values l) (t # ts)) (\<lambda>(l, rest).
           location_block (see location_unique (lx_value t) seen) l rest))
      else perr ''Syntax Error: '')"
  by pat_completeness auto
termination
  by (relation "measure (\<lambda>(_, _, ts). length ts)") (auto dest: with_values_shorter)

definition location_path_char :: "char \<Rightarrow> bool" where
  "location_path_char c \<longleftrightarrow> is_digit c \<or> is_upper c \<or> is_lower c \<or> c \<in> {SLASH, CHR ''-'', CHR ''_'', CHR ''.'', CHR ''~''}"

definition location_head :: "lexer list \<Rightarrow> (string \<times> lexer list) conf_result" where
  \<comment> \<open>the path after \<open>location\<close> and the opening brace\<close>
  "location_head ts0 =
     (let ts = (if ts0 \<noteq> [] \<and> lx_value (hd ts0) = ''location'' then tl ts0 else ts0) in
      case ts of
        [] \<Rightarrow> perr ''Syntax Error: ''
      | t # ts \<Rightarrow>
          if lx_type t = TYPE_VALUE then
            (if lx_value t = [] \<or> hd (lx_value t) \<noteq> SLASH \<or> \<not> list_all location_path_char (lx_value t)
             then perr ''Syntax Error: ''
             else case ts of
                 [] \<Rightarrow> perr ''Syntax Error: ''
               | b # ts \<Rightarrow> if lx_type b = TYPE_LBRACE then Inr (lx_value t, ts) else perr ''Syntax Error: '')
          else if lx_type t = TYPE_CONTEXT then perr ''Configuration Error: ''
          else perr ''Syntax Error: '')"

definition close_block :: "string \<Rightarrow> lexer list \<Rightarrow> lexer list conf_result" where
  \<comment> \<open>the brace that closes a block\<close>
  "close_block msg ts = (case ts of [] \<Rightarrow> perr msg | t # ts \<Rightarrow> if lx_type t = TYPE_RBRACE then Inr ts else perr msg)"

definition parsLocation :: "location \<Rightarrow> lexer list \<Rightarrow> (location \<times> lexer list) conf_result" where
  "parsLocation l ts =
     rbind (location_head ts) (\<lambda>(path, ts).
     rbind (location_block [] (l\<lparr>loc_path := path\<rparr>) ts) (\<lambda>(l, ts).
     rbind (close_block ''Syntax Error: '' ts) (\<lambda>ts. Inr (l, ts))))"

lemma location_block_shorter: "location_block seen l ts = Inr (l', rest) \<Longrightarrow> length rest \<le> length ts"
proof (induction seen l ts arbitrary: l' rest rule: location_block.induct)
  case (2 seen l t ts)
  show ?case
  proof (cases "lx_type t = TYPE_RBRACE")
    case False
    with "2.prems" obtain l1 rest1 where s: "lx_type t = TYPE_DIRECTIVE" "\<not> (lx_value t \<in> set location_unique \<and> lx_value t \<in> set seen)"
      "with_values consumeValues (\<lambda>values. location_directive (lx_value t) values l) (t # ts) = Inr (l1, rest1)"
      "location_block (see location_unique (lx_value t) seen) l1 rest1 = Inr (l', rest)"
      by (auto simp: rbind_Inr_iff split: if_splits)
    from "2.IH" [OF False s(1,2,3) refl s(4)] with_values_shorter(1) [OF s(3)] show ?thesis by simp
  qed (use 2 in simp)
qed simp

lemma location_head_shorter: "location_head ts = Inr (path, rest) \<Longrightarrow> length rest < length ts"
  by (cases ts; cases "tl ts") (auto simp: location_head_def Let_def split: if_splits list.splits)

lemma close_block_shorter: "close_block msg ts = Inr rest \<Longrightarrow> length rest < length ts"
  by (auto simp: close_block_def split: list.splits if_splits)

lemma parsLocation_shorter:
  assumes "parsLocation l ts = Inr (l', rest)"
  shows "length rest < length ts"
proof -
  from assms obtain path ts1 ts2 where s: "location_head ts = Inr (path, ts1)"
      "location_block [] (l\<lparr>loc_path := path\<rparr>) ts1 = Inr (l', ts2)" "close_block ''Syntax Error: '' ts2 = Inr rest"
    by (auto simp: parsLocation_def rbind_Inr_iff)
  from location_head_shorter [OF s(1)] location_block_shorter [OF s(2)] close_block_shorter [OF s(3)] show ?thesis by simp
qed

section \<open>A \<open>server\<close> block\<close>

definition server_unique :: "string list" where
  "server_unique = [''listen'', ''root'', ''client_max_body_size'', ''timeout'', ''index'']"

definition server_location :: "server \<Rightarrow> lexer list \<Rightarrow> (server \<times> lexer list) conf_result" where
  "server_location server ts =
     rbind (parsLocation (Location_of_server server) ts) (\<lambda>(l, rest).
       Inr (addLocation (check_for_allowed_methods l) server, rest))"

function server_block :: "string list \<Rightarrow> server \<Rightarrow> lexer list \<Rightarrow> (server \<times> lexer list) conf_result" where
  "server_block seen server [] = Inr (server, [])"
| "server_block seen server (t # ts) =
     (if lx_type t = TYPE_RBRACE then Inr (server, t # ts)
      else if lx_type t = TYPE_CONTEXT \<and> lx_value t = ''location'' then
        rbind (server_location server (t # ts)) (\<lambda>(server, rest). server_block seen server rest)
      else if lx_type t = TYPE_DIRECTIVE then
        (if lx_value t \<in> set server_unique \<and> lx_value t \<in> set seen then perr ''Duplicate directive in server''
         else rbind (with_values consumeValues (\<lambda>values. server_directive (lx_value t) values server) (t # ts)) (\<lambda>(server, rest).
           server_block (see server_unique (lx_value t) seen) server rest))
      else perr ''Syntax Error: '')"
  by pat_completeness auto
termination
  by (relation "measure (\<lambda>(_, _, ts). length ts)")
     (auto simp: server_location_def rbind_Inr_iff dest: with_values_shorter parsLocation_shorter)

definition bad_index :: "string \<Rightarrow> bool" where
  "bad_index name \<longleftrightarrow>
     (case str_rfind (\<lambda>c. c = CHR ''.'') name of
        None \<Rightarrow> True
      | Some dot_pos \<Rightarrow> dot_pos = 0 \<or> dot_pos = length name - 1)"

fun validate_index_filenames :: "string list \<Rightarrow> unit conf_result" where
  "validate_index_filenames [] = Inr ()"
| "validate_index_filenames (name # names) =
     (if bad_index name then
        perr (''Invalid index filename '' @ [SQUOTE] @ name @ [SQUOTE] @ '': must have a non-empty file extension (e.g. index.html)'')
      else validate_index_filenames names)"

definition inherit :: "server \<Rightarrow> location \<Rightarrow> location" where
  \<comment> \<open>what a location leaves open is taken from its server\<close>
  "inherit server l =
     (let l = (if loc_root l = [] then l\<lparr>loc_root := srv_root server\<rparr> else l);
          l = (if loc_index_Files l = [] then loc_setIndex_s (hd (srv_index_Files server)) l else l);
          l = (if getClientMaxBodySize l = 0 then l\<lparr>loc_client_max_body_size := to_longlong (getMaxBody server)\<rparr> else l)
      in if loc_error_page l = [] then fold (\<lambda>(code, path). set_error_page_loc code path) (srv_error_page server) l else l)"

fun validate_locations :: "location list \<Rightarrow> unit conf_result" where
  "validate_locations [] = Inr ()"
| "validate_locations (l # ls) =
     (let is_redirect = (loc_return_code l \<noteq> -1); is_cgi = (loc_cgi_map l \<noteq> []) in
      rbind (if \<not> is_redirect \<and> \<not> is_cgi then validate_index_filenames (loc_index_Files l) else Inr ()) (\<lambda>_.
        validate_locations ls))"

fun verifying_path :: "string list \<Rightarrow> location list \<Rightarrow> unit conf_result" where
  \<comment> \<open>\<open>verifying_path_in_locations_inside_server\<close>; \<open>strip_slash\<close> is its erasing of a final slash\<close>
  "verifying_path unique [] = Inr ()"
| "verifying_path unique (l # ls) =
     (let path = strip_slash (loc_path l) in
      if path \<in> set unique then perr (''[fatal] duplicate pathin location : '' @ loc_path l)
      else verifying_path (path # unique) ls)"

definition finish_server :: "server \<Rightarrow> server conf_result" where
  \<comment> \<open>\<open>parsServer\<close> after the closing brace has been seen\<close>
  "finish_server server =
     (if srv_port server = -1 then perr ''Missing required directive: listen''
      else if srv_root server = [] then perr ''Missing required directive: root''
      else if srv_index_Files server = [] then perr ''Missing required directive: index''
      else
        rbind (validate_index_filenames (srv_index_Files server)) (\<lambda>_.
        if srv_timeout_seconds server \<le> 0 then perr ''Missing required directive: timeout''
        else
          let server = server\<lparr>srv_locations := map (inherit server) (srv_locations server)\<rparr> in
          rbind (validate_locations (srv_locations server)) (\<lambda>_.
          rbind (verifying_path [] (srv_locations server)) (\<lambda>_. Inr server))))"

definition open_block :: "string \<Rightarrow> lexer list \<Rightarrow> lexer list conf_result" where
  \<comment> \<open>the keyword of a block and its opening brace\<close>
  "open_block msg ts = (case tl ts of [] \<Rightarrow> perr msg | t # ts \<Rightarrow> if lx_type t = TYPE_LBRACE then Inr ts else perr msg)"

definition parsServer :: "server \<Rightarrow> lexer list \<Rightarrow> (server \<times> lexer list) conf_result" where
  "parsServer server ts =
     rbind (open_block ''Syntax Error: '' ts) (\<lambda>ts.
     rbind (server_block [] server ts) (\<lambda>(server, ts).
     rbind (close_block ''Syntax Error: '' ts) (\<lambda>ts.
     rbind (finish_server server) (\<lambda>server. Inr (server, ts)))))"

lemma server_location_shorter: "server_location s ts = Inr (s', rest) \<Longrightarrow> length rest < length ts"
  by (auto simp: server_location_def rbind_Inr_iff dest: parsLocation_shorter)

lemma server_block_shorter: "server_block seen s ts = Inr (s', rest) \<Longrightarrow> length rest \<le> length ts"
proof (induction seen s ts arbitrary: s' rest rule: server_block.induct)
  case (2 seen s t ts)
  consider "lx_type t = TYPE_RBRACE"
    | s1 rest1 where "lx_type t \<noteq> TYPE_RBRACE" "lx_type t = TYPE_CONTEXT \<and> lx_value t = ''location''"
        "server_location s (t # ts) = Inr (s1, rest1)" "server_block seen s1 rest1 = Inr (s', rest)"
    | s1 rest1 where "lx_type t \<noteq> TYPE_RBRACE" "\<not> (lx_type t = TYPE_CONTEXT \<and> lx_value t = ''location'')" "lx_type t = TYPE_DIRECTIVE"
        "\<not> (lx_value t \<in> set server_unique \<and> lx_value t \<in> set seen)"
        "with_values consumeValues (\<lambda>values. server_directive (lx_value t) values s) (t # ts) = Inr (s1, rest1)"
        "server_block (see server_unique (lx_value t) seen) s1 rest1 = Inr (s', rest)"
    using "2.prems" by (fastforce simp: rbind_Inr_iff split: if_splits)
  then show ?case
  proof cases
    case 1
    with "2.prems" show ?thesis by simp
  next
    case 2
    from "2.IH"(1) [OF 2(1,2,3) refl 2(4)] server_location_shorter [OF 2(3)] show ?thesis by simp
  next
    case 3
    from "2.IH"(2) [OF 3(1-5) refl 3(6)] with_values_shorter(1) [OF 3(5)] show ?thesis by simp
  qed
qed simp

lemma open_block_shorter: "open_block msg ts = Inr rest \<Longrightarrow> length rest < length ts"
  by (cases ts) (auto simp: open_block_def split: list.splits if_splits)

lemma parsServer_shorter:
  assumes "parsServer s ts = Inr (s', rest)"
  shows "length rest < length ts"
proof -
  from assms obtain ts1 s2 ts2 where s: "open_block ''Syntax Error: '' ts = Inr ts1"
      "server_block [] s ts1 = Inr (s2, ts2)" "close_block ''Syntax Error: '' ts2 = Inr rest"
    by (auto simp: parsServer_def rbind_Inr_iff)
  from open_block_shorter [OF s(1)] server_block_shorter [OF s(2)] close_block_shorter [OF s(3)] show ?thesis by simp
qed

section \<open>The \<open>events\<close> block\<close>

function events_block :: "events_config \<Rightarrow> lexer list \<Rightarrow> (events_config \<times> lexer list) conf_result" where
  "events_block ev [] = Inr (ev, [])"
| "events_block ev (t # ts) =
     (if lx_type t = TYPE_RBRACE then Inr (ev, t # ts)
      else if lx_type t = TYPE_LBRACE then perr ''Syntax Error: cant have nested context''
      else if lx_type t = TYPE_DIRECTIVE then
        rbind (with_values consumeValuesLenient (\<lambda>values. Inr (events_directive (lx_value t) values ev)) (t # ts)) (\<lambda>(ev, rest).
          events_block ev rest)
      else events_block ev ts)"
  by pat_completeness auto
termination
  by (relation "measure (\<lambda>(_, ts). length ts)") (auto dest: with_values_shorter)

definition parseEvents :: "events_config \<Rightarrow> lexer list \<Rightarrow> (events_config \<times> lexer list) conf_result" where
  "parseEvents ev ts =
     rbind (open_block ''Expected '{' after events'' ts) (\<lambda>ts.
     rbind (events_block ev ts) (\<lambda>(ev, ts).
     rbind (close_block ''Syntax Error: Unclosed events block'' ts) (\<lambda>ts. Inr (ev, ts))))"

lemma events_block_shorter: "events_block ev ts = Inr (ev', rest) \<Longrightarrow> length rest \<le> length ts"
proof (induction ev ts arbitrary: ev' rest rule: events_block.induct)
  case (2 ev t ts)
  consider "lx_type t = TYPE_RBRACE"
    | ev1 rest1 where "lx_type t \<noteq> TYPE_RBRACE" "lx_type t \<noteq> TYPE_LBRACE" "lx_type t = TYPE_DIRECTIVE"
        "with_values consumeValuesLenient (\<lambda>values. Inr (events_directive (lx_value t) values ev)) (t # ts) = Inr (ev1, rest1)"
        "events_block ev1 rest1 = Inr (ev', rest)"
    | "lx_type t \<noteq> TYPE_RBRACE" "lx_type t \<noteq> TYPE_LBRACE" "lx_type t \<noteq> TYPE_DIRECTIVE" "events_block ev ts = Inr (ev', rest)"
    using "2.prems" by (fastforce simp: rbind_Inr_iff split: if_splits)
  then show ?case
  proof cases
    case 1
    with "2.prems" show ?thesis by simp
  next
    case 2
    from "2.IH"(1) [OF 2(1-4) refl 2(5)] with_values_shorter(2) [OF 2(4)] show ?thesis by simp
  next
    case 3
    from "2.IH"(2) [OF 3] show ?thesis by simp
  qed
qed simp

lemma parseEvents_shorter:
  assumes "parseEvents ev ts = Inr (ev', rest)"
  shows "length rest < length ts"
proof -
  from assms obtain ts1 ts2 where s: "open_block ''Expected '{' after events'' ts = Inr ts1"
      "events_block ev ts1 = Inr (ev', ts2)" "close_block ''Syntax Error: Unclosed events block'' ts2 = Inr rest"
    by (auto simp: parseEvents_def rbind_Inr_iff)
  from open_block_shorter [OF s(1)] events_block_shorter [OF s(2)] close_block_shorter [OF s(3)] show ?thesis by simp
qed

section \<open>The \<open>http\<close> block and the top level\<close>

record parser_conf =
  pc_http :: http_config
  pc_events :: events_config
  pc_exist_http :: bool
  pc_exist_server :: bool

definition ParserConf_new :: parser_conf where
  "ParserConf_new = \<lparr>pc_http = httpConfig_new, pc_events = eventsConfig_new, pc_exist_http = False, pc_exist_server = False\<rparr>"

definition ParserConf_default :: parser_conf where
  \<comment> \<open>\<open>ParserConf(bool)\<close>\<close>
  "ParserConf_default = ParserConf_new\<lparr>pc_http := httpConfig_set_default_conf httpConfig_new\<rparr>"

definition http_server :: "parser_conf \<Rightarrow> lexer list \<Rightarrow> (parser_conf \<times> lexer list) conf_result" where
  "http_server pc ts =
     rbind (parsServer (Server_of_http (pc_http pc)) ts) (\<lambda>(server, rest).
       Inr (pc\<lparr>pc_exist_server := True, pc_http := set_servers server (pc_http pc)\<rparr>, rest))"

function http_block :: "parser_conf \<Rightarrow> lexer list \<Rightarrow> (parser_conf \<times> lexer list) conf_result" where
  "http_block pc [] = Inr (pc, [])"
| "http_block pc (t # ts) =
     (if lx_type t = TYPE_RBRACE then Inr (pc, t # ts)
      else if lx_type t = TYPE_CONTEXT \<and> lx_value t = ''server'' then
        rbind (http_server pc (t # ts)) (\<lambda>(pc, rest). http_block pc rest)
      else if lx_type t = TYPE_DIRECTIVE then
        rbind (with_values consumeValues (\<lambda>values. http_directive (lx_value t) values (pc_http pc)) (t # ts)) (\<lambda>(http, rest).
          http_block (pc\<lparr>pc_http := http\<rparr>) rest)
      else perr ''Syntax Error: '')"
  by pat_completeness auto
termination
  by (relation "measure (\<lambda>(_, ts). length ts)")
     (auto simp: http_server_def rbind_Inr_iff dest: with_values_shorter parsServer_shorter)

definition parsHTTP :: "parser_conf \<Rightarrow> lexer list \<Rightarrow> (parser_conf \<times> lexer list) conf_result" where
  "parsHTTP pc ts =
     rbind (open_block ''Syntax Error: '' ts) (\<lambda>ts.
     rbind (http_block pc ts) (\<lambda>(pc, ts).
     rbind (close_block ''Syntax Error: '' ts) (\<lambda>ts. Inr (pc, ts))))"

lemma http_server_shorter: "http_server pc ts = Inr (pc', rest) \<Longrightarrow> length rest < length ts"
  by (auto simp: http_server_def rbind_Inr_iff dest: parsServer_shorter)

lemma http_block_shorter: "http_block pc ts = Inr (pc', rest) \<Longrightarrow> length rest \<le> length ts"
proof (induction pc ts arbitrary: pc' rest rule: http_block.induct)
  case (2 pc t ts)
  consider "lx_type t = TYPE_RBRACE"
    | pc1 rest1 where "lx_type t \<noteq> TYPE_RBRACE" "lx_type t = TYPE_CONTEXT \<and> lx_value t = ''server''"
        "http_server pc (t # ts) = Inr (pc1, rest1)" "http_block pc1 rest1 = Inr (pc', rest)"
    | h1 rest1 where "lx_type t \<noteq> TYPE_RBRACE" "\<not> (lx_type t = TYPE_CONTEXT \<and> lx_value t = ''server'')" "lx_type t = TYPE_DIRECTIVE"
        "with_values consumeValues (\<lambda>values. http_directive (lx_value t) values (pc_http pc)) (t # ts) = Inr (h1, rest1)"
        "http_block (pc\<lparr>pc_http := h1\<rparr>) rest1 = Inr (pc', rest)"
    using "2.prems" by (fastforce simp: rbind_Inr_iff split: if_splits)
  then show ?case
  proof cases
    case 1
    with "2.prems" show ?thesis by simp
  next
    case 2
    from "2.IH"(1) [OF 2(1,2,3) refl 2(4)] http_server_shorter [OF 2(3)] show ?thesis by simp
  next
    case 3
    from "2.IH"(2) [OF 3(1-4) refl 3(5)] with_values_shorter(1) [OF 3(4)] show ?thesis by simp
  qed
qed simp

lemma parsHTTP_shorter:
  assumes "parsHTTP pc ts = Inr (pc', rest)"
  shows "length rest < length ts"
proof -
  from assms obtain ts1 ts2 where s: "open_block ''Syntax Error: '' ts = Inr ts1"
      "http_block pc ts1 = Inr (pc', ts2)" "close_block ''Syntax Error: '' ts2 = Inr rest"
    by (auto simp: parsHTTP_def rbind_Inr_iff)
  from open_block_shorter [OF s(1)] http_block_shorter [OF s(2)] close_block_shorter [OF s(3)] show ?thesis by simp
qed

function lexems_loop :: "parser_conf \<Rightarrow> lexer list \<Rightarrow> parser_conf conf_result" where
  \<comment> \<open>the loop of \<open>parsing_lexems\<close>\<close>
  "lexems_loop pc [] = Inr pc"
| "lexems_loop pc (t # ts) =
     (if lx_type t = TYPE_CONTEXT \<and> lx_value t = ''events'' then
        rbind (parseEvents eventsConfig_new (t # ts)) (\<lambda>(ev, rest). lexems_loop (pc\<lparr>pc_events := ev\<rparr>) rest)
      else if lx_type t = TYPE_CONTEXT \<and> lx_value t = ''http'' then
        (if pc_exist_http pc then perr ''Duplicate block: http''
         else rbind (parsHTTP (pc\<lparr>pc_exist_http := True\<rparr>) (t # ts)) (\<lambda>(pc, rest). lexems_loop pc rest))
      else if lx_type t = TYPE_END then Inr pc
      else perr ''Syntax Error: unexpected token at top level'')"
  by pat_completeness auto
termination
  by (relation "measure (\<lambda>(_, ts). length ts)") (auto dest: parseEvents_shorter parsHTTP_shorter)

section \<open>Properties\<close>

text \<open>
  C35: the parser ends.  Every parser, when it does not throw, leaves strictly fewer tokens than it was
  given: a directive with its values, a \<open>location\<close>, a \<open>server\<close>, an \<open>events\<close> and an \<open>http\<close> block.  So
  every loop over blocks and directives moves its index forward on every turn and stops after at
  most as many turns as there are tokens; this measure is what makes the loops total functions here.
\<close>

theorem parsers_advance:
  "(with_values consumeValues op ts = Inr (x, rest) \<longrightarrow> length rest < length ts)
   \<and> (parsLocation l ts = Inr (l', rest) \<longrightarrow> length rest < length ts)
   \<and> (parsServer s ts = Inr (s', rest) \<longrightarrow> length rest < length ts)
   \<and> (parseEvents ev ts = Inr (ev', rest) \<longrightarrow> length rest < length ts)
   \<and> (parsHTTP pc ts = Inr (pc', rest) \<longrightarrow> length rest < length ts)"
  by (intro conjI impI)
    (erule with_values_shorter(1) parsLocation_shorter parsServer_shorter parseEvents_shorter parsHTTP_shorter)+

theorem parsers_advance_witness:
  "\<exists>h. parsHTTP ParserConf_new (token_stream [''http'', ''{'', ''}'']) = Inr (h, token_stream []) \<and> length (token_stream []) < 4"
proof -
  have "parsHTTP ParserConf_new (token_stream [''http'', ''{'', ''}'']) = Inr (ParserConf_new, token_stream [])"
    by (simp add: token_stream_def identify_def grammar_def parsHTTP_def open_block_def close_block_def)
  with parsers_advance [of undefined "token_stream [''http'', ''{'', ''}'']" undefined "token_stream []" undefined undefined undefined
      undefined undefined undefined ParserConf_new ParserConf_new] show ?thesis
    by (simp add: token_stream_def)
qed

text \<open>
  C38: \<open>listen\<close> reads the port modulo \<open>2 ^ 32\<close>.  A port from 1 to 65535 is taken as it is written, but the
  \<open>long\<close> that was read is cut to \<open>int\<close> before the range check, so a number that exceeds it by any
  multiple of \<open>2 ^ 32\<close> is accepted and stands for the same port.
\<close>

theorem listen_port_modulo:
  assumes "1 \<le> n" "n \<le> 65535" "n + k * 2 ^ 32 < 2 ^ 63"
  shows "server_directive ''listen'' [dec_string (n + k * 2 ^ 32)] s = Inr (s\<lparr>srv_host := ''0.0.0.0'', srv_port := int n\<rparr>)"
proof -
  define m where "m = n + k * 2 ^ 32"
  have "CHR '':'' \<notin> set (dec_string m)" using dec_string_digits [of "CHR '':''" m] by (auto simp: in_range_def ord_def)
  moreover have "m < 2 ^ 63" using assms(3) by (simp only: m_def)
  then have "safe_strtol (dec_string m) = Some (int m)" by (simp add: safe_strtol_eq)
  moreover have "to_int32 (int m) = int n"
  proof -
    have "(int n + 2 ^ 31 + int k * 2 ^ 32) mod 2 ^ 32 = (int n + 2 ^ 31) mod 2 ^ 32"
      by (rule mod_mult_self1)
    also have "\<dots> = int n + 2 ^ 31" using assms(2) by (intro mod_pos_pos_trivial) auto
    finally show ?thesis by (simp add: to_int32_def m_def algebra_simps)
  qed
  ultimately show ?thesis
    using assms(1,2) unfolding m_def [symmetric] by (simp add: server_directive_def listen_directive_def set_port_def Let_def)
qed

theorem listen_port_modulo_witness:
  "server_directive ''listen'' [dec_string 8080] Server_new = Inr (Server_new\<lparr>srv_host := ''0.0.0.0'', srv_port := 8080\<rparr>)
   \<and> server_directive ''listen'' [dec_string 4294975376] Server_new = Inr (Server_new\<lparr>srv_host := ''0.0.0.0'', srv_port := 8080\<rparr>)"
  using listen_port_modulo [of 8080 0 Server_new] listen_port_modulo [of 8080 1 Server_new] by simp

end
