(* ===== verification/Conf_Validate.thy ===== *)
theory Conf_Validate
  imports Conf_Parser "HOL-Library.Word"
begin

text \<open>
  The last checks of a configuration (\<open>validate_final_config\<close> and \<open>parsing_lexems\<close> of
  \<open>conf/parsing.cpp\<close>) and the whole way from the command line to the list of servers (\<open>API_conf\<close> of
  \<open>src/API_conf.cpp\<close>).
\<close>

unbundle bit_operations_syntax

section \<open>The file system as the checks see it\<close>

record conf_env =
  ce_file :: "string \<Rightarrow> string option"    \<comment> \<open>the file \<open>std::ifstream\<close> opens, with what it reads\<close>
  ce_mode :: "string \<Rightarrow> 32 word option"   \<comment> \<open>\<open>st_mode\<close> when \<open>stat\<close> succeeds\<close>
  ce_exec :: "string \<Rightarrow> bool"             \<comment> \<open>\<open>access(path, X_OK) == 0\<close>\<close>
  ce_readable :: "string \<Rightarrow> bool"         \<comment> \<open>\<open>access(path, R_OK) == 0\<close>\<close>
  ce_writable :: "string \<Rightarrow> bool"         \<comment> \<open>\<open>access(path, W_OK) == 0\<close>\<close>

definition S_IFDIR :: "32 word" where "S_IFDIR = 0x4000"
definition S_IFREG :: "32 word" where "S_IFREG = 0x8000"

definition is_directory :: "conf_env \<Rightarrow> string \<Rightarrow> bool" where
  "is_directory w p = (case ce_mode w (c_str p) of None \<Rightarrow> False | Some mode \<Rightarrow> mode AND S_IFDIR \<noteq> 0)"

definition is_regular_file :: "conf_env \<Rightarrow> string \<Rightarrow> bool" where
  "is_regular_file w p = (case ce_mode w (c_str p) of None \<Rightarrow> False | Some mode \<Rightarrow> mode AND S_IFREG \<noteq> 0)"

definition is_executable :: "conf_env \<Rightarrow> string \<Rightarrow> bool" where
  "is_executable w p = ce_exec w (c_str p)"

definition is_readable :: "conf_env \<Rightarrow> string \<Rightarrow> bool" where
  "is_readable w p = ce_readable w (c_str p)"

definition is_valid_filename :: "string \<Rightarrow> bool" where
  "is_valid_filename name =
     (if name = [] \<or> name = ''.'' \<or> name = ''..'' then False
      else if SLASH \<in> set name then False
      else if hd name = CHR ''.'' then False
      else if last name = CHR ''.'' then False
      else if CHR ''.'' \<notin> set name then False
      else True)"

section \<open>\<open>validate_final_config\<close>\<close>

definition MAXSERVERS :: nat where "MAXSERVERS = 20"

definition server_id :: "server \<Rightarrow> string" where
  "server_id s = ''Server on port '' @ int_string (srv_port s)"

fun check_server_pages :: "conf_env \<Rightarrow> string \<Rightarrow> (int \<times> string) list \<Rightarrow> unit conf_result" where
  "check_server_pages w sid [] = Inr ()"
| "check_server_pages w sid ((code, page) # pages) =
     (if code < 300 \<or> code > 599 then perr (''[fatal]'' @ sid @ '': Invalid error code'')
      else if \<not> is_regular_file w page \<or> \<not> is_readable w page
      then perr (''[fatal]'' @ sid @ '': Error page file not found or unreadable: '' @ page)
      else check_server_pages w sid pages)"

fun check_indexes :: "string \<Rightarrow> string list \<Rightarrow> unit conf_result" where
  "check_indexes lid [] = Inr ()"
| "check_indexes lid (name # names) =
     (if \<not> is_valid_filename name then perr (''[fatal]'' @ lid @ '': Invalid index filename: '' @ name)
      else check_indexes lid names)"

fun check_cgi_map :: "conf_env \<Rightarrow> string \<Rightarrow> (string \<times> string) list \<Rightarrow> unit conf_result" where
  "check_cgi_map w lid [] = Inr ()"
| "check_cgi_map w lid ((ext, bin) # rest) =
     (if ext = [] \<or> bin = [] then perr (''[fatal]'' @ lid @ '': CGI map contains an empty extension or binary path.'')
      else if \<not> is_executable w bin then perr (''[fatal]'' @ lid @ '': CGI binary not executable for '' @ ext @ '' : '' @ bin)
      else check_cgi_map w lid rest)"

definition check_upload :: "conf_env \<Rightarrow> string \<Rightarrow> location \<Rightarrow> unit conf_result" where
  "check_upload w lid l =
     (if loc_upload l = [] then Inr ()
      else if \<not> is_directory w (loc_upload l) \<or> \<not> ce_writable w (c_str (loc_upload l))
      then perr (''[fatal]'' @ lid @ '': Upload directory not found or not writable: '' @ loc_upload l)
      else if loc_allowed_methods l \<noteq> [] \<and> ''POST'' \<notin> set (loc_allowed_methods l)
      then perr (''[fatal]'' @ lid @ '': upload_path requires POST in allowed_methods'')
      else Inr ())"

fun check_location_pages :: "conf_env \<Rightarrow> string \<Rightarrow> (int \<times> string) list \<Rightarrow> unit conf_result" where
  "check_location_pages w lid [] = Inr ()"
| "check_location_pages w lid ((code, page) # pages) =
     (if \<not> is_regular_file w page \<or> \<not> is_readable w page
      then perr (''[fatal]'' @ lid @ '': Error page file not found: '' @ page)
      else check_location_pages w lid pages)"

definition validate_location :: "conf_env \<Rightarrow> server \<Rightarrow> location \<Rightarrow> location conf_result" where
  "validate_location w server l =
     (let sid = server_id server; lid = sid @ '' ['' @ loc_path l @ '']'' in
      if \<not> is_directory w (loc_root l) then perr (''[fatal]'' @ sid @ '': Location root not found: '' @ loc_root l)
      else
        let l = (if to_longlong (getClientMaxBodySize l) = 0
                 then l\<lparr>loc_client_max_body_size := to_longlong (getMaxBody server)\<rparr> else l)
        in rbind (check_indexes lid (loc_index_Files l)) (\<lambda>_.
           if hasPartialCGIConfig l then perr (''[fatal]'' @ lid @ '': CGI requires the same number of paths and extensions.'')
           else rbind (check_cgi_map w lid (loc_cgi_map l)) (\<lambda>_.
                rbind (check_upload w lid l) (\<lambda>_.
                rbind (check_location_pages w lid (loc_error_page l)) (\<lambda>_. Inr l)))))"

fun validate_server_locations :: "conf_env \<Rightarrow> server \<Rightarrow> location list \<Rightarrow> location list conf_result" where
  "validate_server_locations w server [] = Inr []"
| "validate_server_locations w server (l # ls) =
     rbind (validate_location w server l) (\<lambda>l. rbind (validate_server_locations w server ls) (\<lambda>ls. Inr (l # ls)))"

definition validate_server :: "conf_env \<Rightarrow> int \<Rightarrow> (int \<times> string) list \<Rightarrow> server \<Rightarrow> server conf_result" where
  \<comment> \<open>\<open>seen\<close> is \<open>seen_virtual_servers\<close>\<close>
  "validate_server w http_default_cmbs seen server =
     (let sid = server_id server in
      if (srv_port server, srv_server_name server) \<in> set seen
      then perr (''[fatal] '' @ sid @ '' : duplicate server_name '' @ [SQUOTE] @ srv_server_name server @ [SQUOTE]
             @ '' defined on the same port.'')
      else if srv_root server = [] \<or> (hd (srv_root server) \<noteq> CHR ''.'' \<and> hd (srv_root server) \<noteq> SLASH)
      then perr (''[fatal] '' @ sid @ '' : Root path must be absolute or relative (./).'')
      else if \<not> is_directory w (srv_root server) then perr (''[fatal]'' @ sid @ '' : Root directory not found: '' @ srv_root server)
      else
        rbind (check_server_pages w sid (srv_error_page server)) (\<lambda>_.
          let server = (if to_longlong (getMaxBody server) = 0
                        then server\<lparr>srv_client_max_body_size := (if http_default_cmbs > 0 then http_default_cmbs else 1048576)\<rparr>
                        else server)
          in rbind (validate_server_locations w server (srv_locations server)) (\<lambda>ls. Inr (server\<lparr>srv_locations := ls\<rparr>))))"

fun validate_servers :: "conf_env \<Rightarrow> int \<Rightarrow> (int \<times> string) list \<Rightarrow> server list \<Rightarrow> server list conf_result" where
  "validate_servers w dflt seen [] = Inr []"
| "validate_servers w dflt seen (s # ss) =
     rbind (validate_server w dflt seen s) (\<lambda>s'.
     rbind (validate_servers w dflt ((srv_port s, srv_server_name s) # seen) ss) (\<lambda>ss. Inr (s' # ss)))"

definition validate_final_config :: "conf_env \<Rightarrow> int \<Rightarrow> server list \<Rightarrow> server list conf_result" where
  "validate_final_config w http_default_cmbs servers =
     (if length servers > MAXSERVERS then perr ''[fatal]  : Max servers exceded limit .''
      else validate_servers w http_default_cmbs [] servers)"

section \<open>\<open>parsing_lexems\<close> and \<open>API_conf\<close>\<close>

definition check_for_blocks :: "parser_conf \<Rightarrow> unit conf_result" where
  "check_for_blocks pc =
     (if \<not> pc_exist_http pc \<or> \<not> pc_exist_server pc then perr ''Missing required top-level blocks'' else Inr ())"

definition parsing_lexems :: "conf_env \<Rightarrow> parser_conf \<Rightarrow> lexer list \<Rightarrow> server list conf_result" where
  \<comment> \<open>with the servers the parser holds in the end\<close>
  "parsing_lexems w pc stream =
     rbind (lexems_loop pc stream) (\<lambda>pc.
     rbind (check_for_blocks pc) (\<lambda>_.
       let http = (if http_client_max_body_size (pc_http pc) < 20000
                   then (pc_http pc)\<lparr>http_client_max_body_size := 1048576\<rparr> else pc_http pc)
       in validate_final_config w (http_client_max_body_size http) (http_all_servers http)))"

definition API_conf :: "conf_env \<Rightarrow> string list \<Rightarrow> server list conf_result" where
  \<comment> \<open>the arguments without the name of the program\<close>
  "API_conf w args =
     (case args of
        [] \<Rightarrow> Inr [Server_set_default_conf Server_new]
      | config_path # args_rest \<Rightarrow>
          if args_rest \<noteq> [] then perr ''[API_conf] invalid Usage (expected ./webserv file.conf or just ./webserv for default configuration)''
          else if length config_path < 5 \<or> drop (length config_path - 5) config_path \<noteq> ''.conf''
          then perr ''[API_conf] invalid config extension (expected .conf)''
          else case ce_file w config_path of
            None \<Rightarrow> perr ''[API_conf] cannot open the config file''
          | Some content \<Rightarrow>
              rbind (conf_tokens content) (\<lambda>tokens. parsing_lexems w ParserConf_new (token_stream tokens)))"

section \<open>Well-formed configurations\<close>

definition size_ok :: "int \<Rightarrow> bool" where
  "size_ok n \<longleftrightarrow> 0 \<le> n \<and> n \<le> MAX_CLIENT_BODY_SIZE_LIMIT"

definition codes_ok :: "(int, string) omap \<Rightarrow> bool" where
  "codes_ok pages \<longleftrightarrow> fst ` set pages \<subseteq> {300..599}"

definition location_ok :: "location \<Rightarrow> bool" where
  "location_ok l \<longleftrightarrow>
     size_ok (loc_client_max_body_size l) \<and> codes_ok (loc_error_page l)
     \<and> set (loc_allowed_methods l) \<subseteq> {''GET'', ''POST'', ''DELETE''} \<and> distinct (loc_allowed_methods l)
     \<and> (loc_return_code l = -1 \<or> 300 \<le> loc_return_code l \<and> loc_return_code l < 400)"

definition server_mid :: "server \<Rightarrow> bool" where
  \<comment> \<open>a server whose block is being parsed\<close>
  "server_mid s \<longleftrightarrow>
     (srv_port s = -1 \<or> 1 \<le> srv_port s \<and> srv_port s \<le> 65535) \<and> 0 \<le> srv_timeout_seconds s \<and> srv_timeout_seconds s \<le> 3600
     \<and> size_ok (srv_client_max_body_size s) \<and> codes_ok (srv_error_page s)
     \<and> (\<forall>l \<in> set (srv_locations s). location_ok l \<and> loc_allowed_methods l \<noteq> [])"

lemma codes_ok_put [simp]: "codes_ok (omap_put c p m) \<longleftrightarrow> 300 \<le> c \<and> c \<le> 599 \<and> codes_ok m"
  by (simp add: codes_ok_def keys_omap_put)

lemma codes_ok_Cons [simp]: "codes_ok ((c, p) # m) \<longleftrightarrow> 300 \<le> c \<and> c \<le> 599 \<and> codes_ok m"
  by (simp add: codes_ok_def)

lemma body_size_ok: "body_size msg v = Inr n \<Longrightarrow> size_ok n"
  using parse_cl_mx_bd_sz_range [of v]
  by (auto simp: body_size_def size_ok_def split: option.splits if_splits)

lemma set_error_pages_ok:
  "set_error_pages msg put vs x = Inr y \<Longrightarrow> P x \<Longrightarrow> (\<And>c z. 300 \<le> c \<Longrightarrow> c \<le> 599 \<Longrightarrow> P z \<Longrightarrow> P (put c z)) \<Longrightarrow> P y"
proof (induction msg put vs x rule: set_error_pages.induct)
  case (2 msg put v vs x)
  then show ?case by (auto simp: Let_def not_less split: option.splits if_splits)
qed simp

subsection \<open>Locations\<close>

lemma set_methods_ok:
  "set_methods seen vs l = Inr l' \<Longrightarrow> set (loc_allowed_methods l) \<subseteq> set seen \<Longrightarrow> location_ok l \<Longrightarrow> location_ok l'"
proof (induction seen vs l rule: set_methods.induct)
  case (2 seen v vs l)
  then have v: "v \<in> {''GET'', ''POST'', ''DELETE''}" "v \<notin> set seen" "set_methods (v # seen) vs (setMethods v l) = Inr l'"
    by (auto split: if_splits)
  have "location_ok (setMethods v l)" "set (loc_allowed_methods (setMethods v l)) \<subseteq> set (v # seen)"
    using 2(3,4) v by (auto simp: location_ok_def setMethods_def)
  with 2(1) [OF v] show ?case by blast
qed simp

lemma location_ok_cong:
  "location_ok l \<Longrightarrow> loc_client_max_body_size l' = loc_client_max_body_size l \<Longrightarrow> loc_error_page l' = loc_error_page l \<Longrightarrow>
    loc_allowed_methods l' = loc_allowed_methods l \<Longrightarrow> loc_return_code l' = loc_return_code l \<Longrightarrow> location_ok l'"
  by (simp add: location_ok_def)

lemma fold_index_frame:
  "loc_client_max_body_size (fold loc_setIndex_s vs l) = loc_client_max_body_size l"
  "loc_error_page (fold loc_setIndex_s vs l) = loc_error_page l"
  "loc_allowed_methods (fold loc_setIndex_s vs l) = loc_allowed_methods l"
  "loc_return_code (fold loc_setIndex_s vs l) = loc_return_code l"
  by (induction vs arbitrary: l) (simp_all add: loc_setIndex_s_def)

lemma location_directive_ok:
  assumes run: "location_directive d vs l = Inr l'" and ok: "location_ok l"
    and fresh: "d = ''allowed_methods'' \<Longrightarrow> loc_allowed_methods l = []"
  shows "location_ok l' \<and> (d \<noteq> ''allowed_methods'' \<longrightarrow> loc_allowed_methods l' = loc_allowed_methods l)"
proof (cases "d \<in> {''allowed_methods'', ''error_page'', ''client_max_body_size'', ''return''}")
  case False
  then have "loc_client_max_body_size l' = loc_client_max_body_size l \<and> loc_error_page l' = loc_error_page l
      \<and> loc_allowed_methods l' = loc_allowed_methods l \<and> loc_return_code l' = loc_return_code l"
    using run by (auto simp: location_directive_def fold_index_frame clear_index_def setAutoindex_def setCGI_paths_def
        setCGI_extensions_def split: if_splits)
  then show ?thesis using location_ok_cong [OF ok] by blast
next
  case True
  then consider (methods) "d = ''allowed_methods''" | (pages) "d = ''error_page''" | (size) "d = ''client_max_body_size''" | (ret) "d = ''return''"
    by blast
  then show ?thesis
  proof cases
    case methods
    then show ?thesis using run ok fresh set_methods_ok [of "[]" vs l l'] by (auto simp: location_directive_def split: if_splits)
  next
    case pages
    then have "set_error_pages ''Syntax Error: directive'' (\<lambda>code. set_error_page_loc code (last vs)) (butlast vs) l = Inr l'"
      using run by (auto simp: location_directive_def split: if_splits)
    from set_error_pages_ok [OF this, of "\<lambda>z. location_ok z \<and> loc_allowed_methods z = loc_allowed_methods l"] show ?thesis
      using ok by (simp add: location_ok_def set_error_page_loc_def)
  next
    case size
    then obtain n where "body_size ''Syntax Error: directive'' (hd vs) = Inr n" "l' = l\<lparr>loc_client_max_body_size := n\<rparr>"
      using run by (auto simp: location_directive_def rbind_Inr_iff split: if_splits)
    with body_size_ok ok show ?thesis by (auto simp: location_ok_def)
  next
    case ret
    then show ?thesis using run ok
      by (auto simp: location_directive_def set_return_def setReturnRedirection_def location_ok_def Let_def split: if_splits option.splits)
  qed
qed

lemma with_values_op: "with_values consume op ts = Inr (x, rest) \<Longrightarrow> \<exists>vs. op vs = Inr x"
  by (auto simp: with_values_def rbind_Inr_iff split: prod.splits)

lemma location_block_ok:
  "location_block seen l ts = Inr (l', rest) \<Longrightarrow> location_ok l \<Longrightarrow> (''allowed_methods'' \<notin> set seen \<longrightarrow> loc_allowed_methods l = []) \<Longrightarrow>
    location_ok l'"
proof (induction seen l ts arbitrary: l' rest rule: location_block.induct)
  case (2 seen l t ts)
  show ?case
  proof (cases "lx_type t = TYPE_RBRACE")
    case False
    with "2.prems"(1) obtain l1 rest1 where s: "lx_type t = TYPE_DIRECTIVE" "\<not> (lx_value t \<in> set location_unique \<and> lx_value t \<in> set seen)"
      "with_values consumeValues (\<lambda>values. location_directive (lx_value t) values l) (t # ts) = Inr (l1, rest1)"
      "location_block (see location_unique (lx_value t) seen) l1 rest1 = Inr (l', rest)"
      by (auto simp: rbind_Inr_iff split: if_splits)
    obtain vs where vs: "location_directive (lx_value t) vs l = Inr l1" using with_values_op [OF s(3)] by blast
    have fresh: "lx_value t = ''allowed_methods'' \<Longrightarrow> loc_allowed_methods l = []"
      using s(2) "2.prems"(3) by (auto simp: location_unique_def)
    note d = location_directive_ok [OF vs "2.prems"(2) fresh]
    have "''allowed_methods'' \<notin> set (see location_unique (lx_value t) seen) \<longrightarrow> loc_allowed_methods l1 = []"
      using d "2.prems"(3) by (auto simp: see_def location_unique_def split: if_splits)
    with "2.IH" [OF False s(1,2,3) refl s(4)] d show ?thesis by blast
  qed (use 2 in simp)
qed simp

lemma server_size: "size_ok (srv_client_max_body_size s) \<Longrightarrow> to_longlong (getMaxBody s) = srv_client_max_body_size s"
  unfolding getMaxBody_def size_ok_def MAX_CLIENT_BODY_SIZE_LIMIT_def by (rule to_longlong_to_size) auto

lemma location_size: "size_ok (loc_client_max_body_size l) \<Longrightarrow> int (getClientMaxBodySize l) = loc_client_max_body_size l"
  unfolding getClientMaxBodySize_def size_ok_def MAX_CLIENT_BODY_SIZE_LIMIT_def by simp

lemma parsLocation_ok:
  assumes "parsLocation (Location_of_server s) ts = Inr (l, rest)" "server_mid s"
  shows "location_ok (check_for_allowed_methods l) \<and> loc_allowed_methods (check_for_allowed_methods l) \<noteq> []"
proof -
  from assms(1) obtain path ts1 ts2 where s: "location_block [] ((Location_of_server s)\<lparr>loc_path := path\<rparr>) ts1 = Inr (l, ts2)"
    by (auto simp: parsLocation_def rbind_Inr_iff)
  have "location_ok ((Location_of_server s)\<lparr>loc_path := path\<rparr>)"
    using assms(2) server_size [of s] by (auto simp: location_ok_def Location_of_server_def Location_new_def server_mid_def)
  then have "location_ok l"
    using location_block_ok [OF s] by (simp add: Location_of_server_def Location_new_def)
  then show ?thesis by (auto simp: check_for_allowed_methods_def location_ok_def)
qed

subsection \<open>Servers\<close>

lemma set_port_ok: "set_port v s = Inr s' \<Longrightarrow> server_mid s \<Longrightarrow> server_mid s'"
  by (auto simp: set_port_def server_mid_def Let_def split: option.splits if_splits)

lemma listen_directive_ok: "listen_directive v s = Inr s' \<Longrightarrow> server_mid s \<Longrightarrow> server_mid s'"
  using set_port_ok [of _ "s\<lparr>srv_host := h\<rparr>" s' for h]
  by (auto simp: listen_directive_def Let_def server_mid_def [of "s\<lparr>srv_host := h\<rparr>" for h] server_mid_def [of "s\<lparr>srv_host := h, srv_port := 9090\<rparr>" for h]
      server_mid_def [of s] split: if_splits)

lemma set_timeout_ok: "set_timeout v s = Inr s' \<Longrightarrow> server_mid s \<Longrightarrow> server_mid s'"
  by (auto simp: set_timeout_def server_mid_def Let_def split: option.splits if_splits)

lemma fold_server_index:
  "fold srv_setIndex_s vs s = s\<lparr>srv_index_Files := srv_index_Files s @ vs\<rparr>"
  by (induction vs arbitrary: s) (simp_all add: srv_setIndex_s_def)

lemma server_directive_ok:
  assumes run: "server_directive d vs s = Inr s'" and mid: "server_mid s"
  shows "server_mid s'"
proof (cases "d \<in> {''listen'', ''error_page'', ''client_max_body_size'', ''timeout''}")
  case False
  then show ?thesis using run mid
    by (auto simp: server_directive_def fold_server_index server_mid_def split: if_splits)
next
  case True
  then consider (listen) "d = ''listen''" | (pages) "d = ''error_page''" | (size) "d = ''client_max_body_size''" | (timeout) "d = ''timeout''"
    by blast
  then show ?thesis
  proof cases
    case listen
    then show ?thesis using run mid listen_directive_ok by (auto simp: server_directive_def split: if_splits)
  next
    case pages
    then have "set_error_pages ''Syntax Error: directive '' (\<lambda>code. setErrorPage code (last vs)) (butlast vs) s = Inr s'"
      using run by (auto simp: server_directive_def split: if_splits)
    moreover have "server_mid (setErrorPage c (last vs) z)" if "300 \<le> c" "c \<le> 599" "server_mid z" for c z
      using that by (simp add: server_mid_def setErrorPage_def)
    ultimately show ?thesis using set_error_pages_ok [of _ _ _ _ _ server_mid] mid by blast
  next
    case size
    then obtain n where "body_size ''Syntax Error'' (hd vs) = Inr n" "s' = s\<lparr>srv_client_max_body_size := n\<rparr>"
      using run by (auto simp: server_directive_def rbind_Inr_iff split: if_splits)
    with body_size_ok mid show ?thesis by (auto simp: server_mid_def)
  next
    case timeout
    then show ?thesis using run mid set_timeout_ok by (auto simp: server_directive_def split: if_splits)
  qed
qed

lemma server_location_ok: "server_location s ts = Inr (s', rest) \<Longrightarrow> server_mid s \<Longrightarrow> server_mid s'"
  using parsLocation_ok [of s ts] by (auto simp: server_location_def rbind_Inr_iff addLocation_def server_mid_def)

lemma server_block_ok: "server_block seen s ts = Inr (s', rest) \<Longrightarrow> server_mid s \<Longrightarrow> server_mid s'"
proof (induction seen s ts arbitrary: s' rest rule: server_block.induct)
  case (2 seen s t ts)
  consider "lx_type t = TYPE_RBRACE"
    | s1 rest1 where "lx_type t \<noteq> TYPE_RBRACE" "lx_type t = TYPE_CONTEXT \<and> lx_value t = ''location''"
        "server_location s (t # ts) = Inr (s1, rest1)" "server_block seen s1 rest1 = Inr (s', rest)"
    | s1 rest1 where "lx_type t \<noteq> TYPE_RBRACE" "\<not> (lx_type t = TYPE_CONTEXT \<and> lx_value t = ''location'')" "lx_type t = TYPE_DIRECTIVE"
        "\<not> (lx_value t \<in> set server_unique \<and> lx_value t \<in> set seen)"
        "with_values consumeValues (\<lambda>values. server_directive (lx_value t) values s) (t # ts) = Inr (s1, rest1)"
        "server_block (see server_unique (lx_value t) seen) s1 rest1 = Inr (s', rest)"
    using "2.prems"(1) by (fastforce simp: rbind_Inr_iff split: if_splits)
  then show ?case
  proof cases
    case 1
    with "2.prems" show ?thesis by simp
  next
    case 2
    from "2.IH"(1) [OF 2(1,2,3) refl 2(4)] server_location_ok [OF 2(3) "2.prems"(2)] show ?thesis by blast
  next
    case 3
    obtain vs where "server_directive (lx_value t) vs s = Inr s1" using with_values_op [OF 3(5)] by blast
    with "2.IH"(2) [OF 3(1-5) refl 3(6)] server_directive_ok "2.prems"(2) show ?thesis by blast
  qed
qed simp

definition server_done :: "server \<Rightarrow> bool" where
  "server_done s \<longleftrightarrow> server_mid s \<and> 1 \<le> srv_port s \<and> 1 \<le> srv_timeout_seconds s \<and> srv_root s \<noteq> [] \<and> srv_index_Files s \<noteq> []
     \<and> distinct (map (strip_slash \<circ> loc_path) (srv_locations s)) \<and> (\<forall>l \<in> set (srv_locations s). loc_root l \<noteq> [])"

lemma fold_pages_frame:
  "loc_client_max_body_size (fold (\<lambda>(c, p). set_error_page_loc c p) pages l) = loc_client_max_body_size l"
  "loc_allowed_methods (fold (\<lambda>(c, p). set_error_page_loc c p) pages l) = loc_allowed_methods l"
  "loc_return_code (fold (\<lambda>(c, p). set_error_page_loc c p) pages l) = loc_return_code l"
  "loc_path (fold (\<lambda>(c, p). set_error_page_loc c p) pages l) = loc_path l"
  "loc_root (fold (\<lambda>(c, p). set_error_page_loc c p) pages l) = loc_root l"
  by (induction pages arbitrary: l) (auto simp: set_error_page_loc_def)

lemma fold_pages_codes:
  "codes_ok pages \<Longrightarrow> codes_ok (loc_error_page l) \<Longrightarrow> codes_ok (loc_error_page (fold (\<lambda>(c, p). set_error_page_loc c p) pages l))"
proof (induction pages arbitrary: l)
  case (Cons x pages)
  then show ?case by (cases x) (simp add: set_error_page_loc_def)
qed simp

lemma inherit_ok:
  assumes "location_ok l" "server_mid s" "srv_root s \<noteq> []"
  shows "location_ok (inherit s l) \<and> loc_path (inherit s l) = loc_path l \<and> loc_root (inherit s l) \<noteq> []
    \<and> loc_allowed_methods (inherit s l) = loc_allowed_methods l"
proof -
  let ?l = "(if getClientMaxBodySize l = 0 then l\<lparr>loc_client_max_body_size := srv_client_max_body_size s\<rparr> else l)"
  have size: "size_ok (loc_client_max_body_size ?l)" using assms(1,2) by (simp add: location_ok_def server_mid_def)
  show ?thesis
    using assms size server_size [of s] fold_pages_codes [of "srv_error_page s"]
    by (auto simp: inherit_def Let_def location_ok_def server_mid_def fold_pages_frame loc_setIndex_s_def getClientMaxBodySize_def)
qed

lemma verifying_path_distinct:
  "verifying_path unique ls = Inr () \<Longrightarrow> distinct (map (strip_slash \<circ> loc_path) ls) \<and> strip_slash ` loc_path ` set ls \<inter> set unique = {}"
  by (induction unique ls rule: verifying_path.induct) (auto simp: Let_def split: if_splits)

lemma finish_server_ok:
  assumes "finish_server s = Inr s'" "server_mid s"
  shows "server_done s'"
proof -
  let ?s = "s\<lparr>srv_locations := map (inherit s) (srv_locations s)\<rparr>"
  have c: "srv_port s \<noteq> -1" "srv_root s \<noteq> []" "srv_index_Files s \<noteq> []" "0 < srv_timeout_seconds s" "s' = ?s"
      "verifying_path [] (srv_locations ?s) = Inr ()"
    using assms(1) by (auto simp: finish_server_def Let_def rbind_Inr_iff split: if_splits)
  have "server_mid ?s" using assms(2) inherit_ok [OF _ assms(2) c(2)] by (simp add: server_mid_def)
  moreover have "\<forall>l \<in> set (srv_locations ?s). loc_root l \<noteq> []" using assms(2) inherit_ok [OF _ assms(2) c(2)] by (simp add: server_mid_def)
  ultimately show ?thesis
    using c verifying_path_distinct [OF c(6)] assms(2) by (simp add: server_done_def server_mid_def)
qed

lemma parsServer_ok:
  assumes "parsServer s ts = Inr (s', rest)" "server_mid s"
  shows "server_done s'"
proof -
  from assms(1) obtain ts1 s1 ts2 where "server_block [] s ts1 = Inr (s1, ts2)" "finish_server s1 = Inr s'"
    by (auto simp: parsServer_def rbind_Inr_iff)
  with server_block_ok finish_server_ok assms(2) show ?thesis by blast
qed

subsection \<open>The whole configuration\<close>

definition conf_mid :: "parser_conf \<Rightarrow> bool" where
  "conf_mid pc \<longleftrightarrow>
     size_ok (http_client_max_body_size (pc_http pc)) \<and> codes_ok (http_error_page (pc_http pc))
     \<and> (\<forall>s \<in> set (http_all_servers (pc_http pc)). server_done s)
     \<and> (pc_exist_server pc \<longrightarrow> http_all_servers (pc_http pc) \<noteq> [])"

lemma http_directive_ok:
  assumes "http_directive d vs (pc_http pc) = Inr h" "conf_mid pc"
  shows "conf_mid (pc\<lparr>pc_http := h\<rparr>)"
proof (cases "d = ''client_max_body_size''")
  case True
  then obtain n where "body_size ''Syntax Error'' (hd vs) = Inr n" "h = (pc_http pc)\<lparr>http_client_max_body_size := n\<rparr>"
    using assms(1) by (auto simp: http_directive_def rbind_Inr_iff split: if_splits)
  with body_size_ok assms(2) show ?thesis by (auto simp: conf_mid_def)
next
  case False
  then have "set_error_pages ''Syntax Error: directive '' (\<lambda>code. set_error_page code (last vs)) (butlast vs) (pc_http pc) = Inr h"
    using assms(1) by (auto simp: http_directive_def split: if_splits)
  from set_error_pages_ok [OF this, of "\<lambda>h. conf_mid (pc\<lparr>pc_http := h\<rparr>)"] assms(2) show ?thesis
    by (simp add: conf_mid_def set_error_page_def)
qed

lemma http_server_ok:
  assumes "http_server pc ts = Inr (pc', rest)" "conf_mid pc"
  shows "conf_mid pc'"
proof -
  from assms(1) obtain s where s: "parsServer (Server_of_http (pc_http pc)) ts = Inr (s, rest)"
      "pc' = pc\<lparr>pc_exist_server := True, pc_http := set_servers s (pc_http pc)\<rparr>"
    by (auto simp: http_server_def rbind_Inr_iff)
  have "server_mid (Server_of_http (pc_http pc))"
    using assms(2) by (simp add: server_mid_def conf_mid_def Server_of_http_def Server_new_def)
  with parsServer_ok [OF s(1)] s(2) assms(2) show ?thesis by (auto simp: conf_mid_def set_servers_def)
qed

lemma http_block_ok: "http_block pc ts = Inr (pc', rest) \<Longrightarrow> conf_mid pc \<Longrightarrow> conf_mid pc'"
proof (induction pc ts arbitrary: pc' rest rule: http_block.induct)
  case (2 pc t ts)
  consider "lx_type t = TYPE_RBRACE"
    | pc1 rest1 where "lx_type t \<noteq> TYPE_RBRACE" "lx_type t = TYPE_CONTEXT \<and> lx_value t = ''server''"
        "http_server pc (t # ts) = Inr (pc1, rest1)" "http_block pc1 rest1 = Inr (pc', rest)"
    | h1 rest1 where "lx_type t \<noteq> TYPE_RBRACE" "\<not> (lx_type t = TYPE_CONTEXT \<and> lx_value t = ''server'')" "lx_type t = TYPE_DIRECTIVE"
        "with_values consumeValues (\<lambda>values. http_directive (lx_value t) values (pc_http pc)) (t # ts) = Inr (h1, rest1)"
        "http_block (pc\<lparr>pc_http := h1\<rparr>) rest1 = Inr (pc', rest)"
    using "2.prems"(1) by (fastforce simp: rbind_Inr_iff split: if_splits)
  then show ?case
  proof cases
    case 1
    with "2.prems" show ?thesis by simp
  next
    case 2
    from "2.IH"(1) [OF 2(1,2,3) refl 2(4)] http_server_ok [OF 2(3) "2.prems"(2)] show ?thesis by blast
  next
    case 3
    obtain vs where "http_directive (lx_value t) vs (pc_http pc) = Inr h1" using with_values_op [OF 3(4)] by blast
    with "2.IH"(2) [OF 3(1-4) refl 3(5)] http_directive_ok "2.prems"(2) show ?thesis by blast
  qed
qed simp

lemma lexems_loop_ok: "lexems_loop pc ts = Inr pc' \<Longrightarrow> conf_mid pc \<Longrightarrow> conf_mid pc'"
proof (induction pc ts arbitrary: pc' rule: lexems_loop.induct)
  case (2 pc t ts)
  consider ev rest where "lx_type t = TYPE_CONTEXT \<and> lx_value t = ''events''" "parseEvents eventsConfig_new (t # ts) = Inr (ev, rest)"
        "lexems_loop (pc\<lparr>pc_events := ev\<rparr>) rest = Inr pc'"
    | pc1 rest where "\<not> (lx_type t = TYPE_CONTEXT \<and> lx_value t = ''events'')" "lx_type t = TYPE_CONTEXT \<and> lx_value t = ''http''"
        "\<not> pc_exist_http pc" "parsHTTP (pc\<lparr>pc_exist_http := True\<rparr>) (t # ts) = Inr (pc1, rest)" "lexems_loop pc1 rest = Inr pc'"
    | "pc' = pc"
    using "2.prems"(1) by (fastforce simp: rbind_Inr_iff split: if_splits)
  then show ?case
  proof cases
    case 1
    have "conf_mid (pc\<lparr>pc_events := ev\<rparr>)" using "2.prems"(2) by (simp add: conf_mid_def)
    with "2.IH"(1) [OF 1(1,2) refl 1(3)] show ?thesis by blast
  next
    case 2
    have "conf_mid (pc\<lparr>pc_exist_http := True\<rparr>)" using "2.prems"(2) by (simp add: conf_mid_def)
    moreover from 2(4) obtain ts1 ts2 where "http_block (pc\<lparr>pc_exist_http := True\<rparr>) ts1 = Inr (pc1, ts2)"
      by (auto simp: parsHTTP_def rbind_Inr_iff)
    ultimately have "conf_mid pc1" using http_block_ok by blast
    with "2.IH"(2) [OF 2(1-4) refl 2(5)] show ?thesis by blast
  next
    case 3
    with "2.prems" show ?thesis by simp
  qed
qed simp

definition server_ok :: "server \<Rightarrow> bool" where
  \<comment> \<open>what every server of an accepted configuration satisfies\<close>
  "server_ok s \<longleftrightarrow>
     1 \<le> srv_port s \<and> srv_port s \<le> 65535 \<and> 1 \<le> srv_timeout_seconds s \<and> srv_timeout_seconds s \<le> 3600
     \<and> 0 < srv_client_max_body_size s \<and> srv_client_max_body_size s \<le> MAX_CLIENT_BODY_SIZE_LIMIT
     \<and> codes_ok (srv_error_page s) \<and> srv_root s \<noteq> [] \<and> srv_index_Files s \<noteq> []
     \<and> distinct (map (strip_slash \<circ> loc_path) (srv_locations s))
     \<and> list_all (\<lambda>l. location_ok l \<and> loc_allowed_methods l \<noteq> [] \<and> 0 < loc_client_max_body_size l \<and> loc_root l \<noteq> []) (srv_locations s)"

lemma validate_location_ok:
  assumes "validate_location w s l = Inr l'" "location_ok l" "size_ok (srv_client_max_body_size s)" "0 < srv_client_max_body_size s"
  shows "location_ok l' \<and> 0 < loc_client_max_body_size l' \<and> loc_path l' = loc_path l \<and> loc_root l' = loc_root l
    \<and> loc_allowed_methods l' = loc_allowed_methods l"
proof -
  have l': "l' = (if to_longlong (getClientMaxBodySize l) = 0 then l\<lparr>loc_client_max_body_size := to_longlong (getMaxBody s)\<rparr> else l)"
    using assms(1) by (auto simp: validate_location_def Let_def rbind_Inr_iff split: if_splits)
  have "to_longlong (getClientMaxBodySize l) = loc_client_max_body_size l"
    using assms(2) unfolding location_ok_def size_ok_def MAX_CLIENT_BODY_SIZE_LIMIT_def getClientMaxBodySize_def
    by (intro to_longlong_to_size) auto
  with l' server_size [OF assms(3)] assms(2-4) show ?thesis by (auto simp: location_ok_def size_ok_def)
qed

lemma validate_server_locations_ok:
  "validate_server_locations w s ls = Inr ls' \<Longrightarrow> list_all location_ok ls \<Longrightarrow> size_ok (srv_client_max_body_size s) \<Longrightarrow>
    0 < srv_client_max_body_size s \<Longrightarrow>
    list_all (\<lambda>l. location_ok l \<and> 0 < loc_client_max_body_size l) ls' \<and> map loc_path ls' = map loc_path ls \<and> map loc_root ls' = map loc_root ls
      \<and> map loc_allowed_methods ls' = map loc_allowed_methods ls"
proof (induction ls arbitrary: ls')
  case (Cons l ls)
  then obtain l1 ls1 where s: "validate_location w s l = Inr l1" "validate_server_locations w s ls = Inr ls1" "ls' = l1 # ls1"
    by (auto simp: rbind_Inr_iff)
  from validate_location_ok [OF s(1)] Cons.IH [OF s(2)] Cons.prems(2-4) s(3) show ?case by simp
qed simp

lemma list_all_by_map: "map f ls' = map f ls \<Longrightarrow> list_all (\<lambda>l. f l \<noteq> []) ls' = list_all (\<lambda>l. f l \<noteq> []) ls"
proof -
  have "list_all (\<lambda>l. f l \<noteq> []) xs \<longleftrightarrow> [] \<notin> set (map f xs)" for xs by (induction xs) auto
  then show "map f ls' = map f ls \<Longrightarrow> ?thesis" by metis
qed

lemma validate_server_ok:
  assumes "validate_server w dflt seen s = Inr s'" "server_done s" "size_ok dflt"
  shows "server_ok s' \<and> srv_port s' = srv_port s \<and> srv_server_name s' = srv_server_name s
    \<and> (srv_port s, srv_server_name s) \<notin> set seen"
proof -
  let ?s = "if to_longlong (getMaxBody s) = 0 then s\<lparr>srv_client_max_body_size := (if dflt > 0 then dflt else 1048576)\<rparr> else s"
  from assms(1) obtain ls where ls: "validate_server_locations w ?s (srv_locations ?s) = Inr ls" "s' = ?s\<lparr>srv_locations := ls\<rparr>"
      "(srv_port s, srv_server_name s) \<notin> set seen"
    by (auto simp: validate_server_def Let_def rbind_Inr_iff split: if_splits)
  have mid: "server_mid s" using assms(2) by (simp add: server_done_def)
  then have size: "size_ok (srv_client_max_body_size ?s)" "0 < srv_client_max_body_size ?s"
    using assms(3) server_size [of s] by (auto simp: server_mid_def size_ok_def MAX_CLIENT_BODY_SIZE_LIMIT_def)
  have locs: "srv_locations ?s = srv_locations s" by simp
  have "list_all location_ok (srv_locations ?s)" using mid by (simp add: server_mid_def list_all_iff)
  from validate_server_locations_ok [OF ls(1) this size]
  have l: "list_all (\<lambda>l. location_ok l \<and> 0 < loc_client_max_body_size l) ls" "map loc_path ls = map loc_path (srv_locations s)"
      "map loc_root ls = map loc_root (srv_locations s)" "map loc_allowed_methods ls = map loc_allowed_methods (srv_locations s)"
    unfolding locs by simp_all
  have "list_all (\<lambda>l. loc_root l \<noteq> []) ls" "list_all (\<lambda>l. loc_allowed_methods l \<noteq> []) ls"
    using list_all_by_map [OF l(3)] list_all_by_map [OF l(4)] assms(2) by (simp_all add: server_done_def server_mid_def list_all_iff)
  then have "list_all (\<lambda>l. location_ok l \<and> loc_allowed_methods l \<noteq> [] \<and> 0 < loc_client_max_body_size l \<and> loc_root l \<noteq> []) ls"
    using l(1) by (simp add: list_all_iff)
  moreover have "map (strip_slash \<circ> loc_path) ls = map (strip_slash \<circ> loc_path) (srv_locations s)"
    using l(2) by (metis map_map)
  ultimately show ?thesis using ls(2,3) size assms(2) by (auto simp: server_ok_def server_done_def server_mid_def size_ok_def)
qed

lemma validate_servers_ok:
  "validate_servers w dflt seen ss = Inr ss' \<Longrightarrow> list_all server_done ss \<Longrightarrow> size_ok dflt \<Longrightarrow>
    list_all server_ok ss' \<and> map (\<lambda>s. (srv_port s, srv_server_name s)) ss' = map (\<lambda>s. (srv_port s, srv_server_name s)) ss
      \<and> distinct (map (\<lambda>s. (srv_port s, srv_server_name s)) ss) \<and> (\<lambda>s. (srv_port s, srv_server_name s)) ` set ss \<inter> set seen = {}"
proof (induction ss arbitrary: seen ss')
  case (Cons s ss)
  then obtain s1 ss1 where r: "validate_server w dflt seen s = Inr s1" "ss' = s1 # ss1"
      "validate_servers w dflt ((srv_port s, srv_server_name s) # seen) ss = Inr ss1"
    by (auto simp: rbind_Inr_iff)
  from validate_server_ok [OF r(1)] Cons.IH [OF r(3)] Cons.prems(2,3) r(2) show ?case by auto
qed simp

lemma default_pages_ok: "codes_ok m \<Longrightarrow> codes_ok (put_default_error_pages m)"
  by (simp add: put_default_error_pages_def default_error_pages_def)

lemma default_server_ok: "server_ok (Server_set_default_conf Server_new)"
proof -
  have "codes_ok []" by (simp add: codes_ok_def)
  then show ?thesis
    by (simp add: server_ok_def Server_set_default_conf_def Server_new_def Location_set_default_conf_def Location_new_def Let_def
        location_ok_def size_ok_def MAX_CLIENT_BODY_SIZE_LIMIT_def strip_slash_def default_pages_ok)
qed

section \<open>A small configuration file\<close>

definition sample_conf :: "string list" where
  "sample_conf =
     [''http'', ''{'', ''server'', ''{'', ''listen'', ''127.0.0.1:8080'', '';'', ''root'', ''./www'', '';'', ''index'', ''index.html'', '';'',
      ''timeout'', ''60'', '';'', ''location'', ''/up'', ''{'', ''allowed_methods'', ''GET'', ''POST'', '';'', ''}'', ''}'', ''}'']"

definition sample_layout :: "(gap \<times> string) list" where
  "sample_layout = map (\<lambda>t. (([LF], []), t)) sample_conf"

definition sample_conf_env :: conf_env where
  "sample_conf_env =
     \<lparr>ce_file = (\<lambda>_. Some (layout sample_layout ([LF], []))), ce_mode = (\<lambda>_. Some S_IFDIR),
      ce_exec = (\<lambda>_. True), ce_readable = (\<lambda>_. True), ce_writable = (\<lambda>_. True)\<rparr>"

lemma sample_tokens: "conf_tokens (layout sample_layout ([LF], [])) = Inr sample_conf"
proof -
  have "layout_ok True sample_layout \<and> gap_ok ([LF], [])" unfolding sample_layout_def sample_conf_def by code_simp
  then show ?thesis using tokens_of_layout [of sample_layout] by (simp add: sample_layout_def sample_conf_def)
qed

definition sample_parsed :: parser_conf where
  "sample_parsed = ParserConf_new\<lparr>pc_exist_http := True, pc_exist_server := True, pc_http := set_servers
     (Server_new\<lparr>srv_host := ''127.0.0.1'', srv_port := 8080, srv_root := ''./www'', srv_index_Files := [''index.html''],
        srv_timeout_seconds := 60,
        srv_locations := [Location_new\<lparr>loc_path := ''/up'', loc_root := ''./www'', loc_index_Files := [''index.html''],
          loc_allowed_methods := [''GET'', ''POST'']\<rparr>]\<rparr>) httpConfig_new\<rparr>"

lemma sample_host: "is_valid_host ''127.0.0.1''" "safe_strtol ''8080'' = Some 8080" "safe_strtol ''60'' = Some 60"
  by (simp_all add: is_valid_host_def is_valid_octet_def safe_strtol_eq dec_val_def in_range_def ord_def digit_val_def)

lemma sample_lexems: "lexems_loop ParserConf_new (token_stream sample_conf) = Inr sample_parsed"
  unfolding sample_conf_def token_stream_def list.map append.simps
  by (simp add: identify_def grammar_def sample_host parsHTTP_def open_block_def close_block_def http_server_def parsServer_def with_values_def
      consumeValues_def server_directive_def listen_directive_def set_port_def set_timeout_def server_unique_def see_def
      server_location_def parsLocation_def location_head_def location_path_char_def location_unique_def location_directive_def
      in_range_def ord_def Let_def setMethods_def Location_of_server_def Location_new_def Server_of_http_def Server_new_def
      srv_setIndex_s_def finish_server_def inherit_def bad_index_def str_rfind_def strip_slash_def
      ParserConf_new_def httpConfig_new_def addLocation_def check_for_allowed_methods_def sample_parsed_def set_servers_def
      getMaxBody_def getClientMaxBodySize_def to_size_def to_longlong_def)

lemma sample_conf_accepted: "\<exists>s. API_conf sample_conf_env [''a.conf''] = Inr [s] \<and> srv_port s = 8080 \<and> srv_host s = ''127.0.0.1''
    \<and> map loc_path (srv_locations s) = [''/up'']"
proof -
  have "is_directory sample_conf_env p" for p by (simp add: is_directory_def sample_conf_env_def S_IFDIR_def)
  then show ?thesis
    by (simp add: API_conf_def sample_conf_env_def sample_tokens sample_lexems parsing_lexems_def check_for_blocks_def)
       (simp add: sample_parsed_def ParserConf_new_def httpConfig_new_def set_servers_def validate_final_config_def
        MAXSERVERS_def validate_server_def Let_def getMaxBody_def to_size_def to_longlong_def Server_new_def Location_new_def
        validate_location_def getClientMaxBodySize_def is_valid_filename_def hasPartialCGIConfig_def check_upload_def)
qed

lemma API_conf_servers:
  assumes "API_conf w args = Inr servers"
  shows "list_all server_ok servers \<and> 1 \<le> length servers \<and> length servers \<le> 20
    \<and> distinct (map (\<lambda>s. (srv_port s, srv_server_name s)) servers)"
proof (cases args)
  case Nil
  with assms default_server_ok show ?thesis by (auto simp: API_conf_def)
next
  case (Cons p more_args)
  with assms obtain tokens where "parsing_lexems w ParserConf_new (token_stream tokens) = Inr servers"
    by (auto simp: API_conf_def rbind_Inr_iff split: if_splits option.splits)
  then obtain pc where pc: "lexems_loop ParserConf_new (token_stream tokens) = Inr pc" "pc_exist_server pc"
      "validate_final_config w (if http_client_max_body_size (pc_http pc) < 20000 then 1048576 else http_client_max_body_size (pc_http pc))
         (http_all_servers (pc_http pc)) = Inr servers"
    by (auto simp: parsing_lexems_def check_for_blocks_def rbind_Inr_iff Let_def split: if_splits)
  have "conf_mid pc"
    using lexems_loop_ok [OF pc(1)] by (simp add: conf_mid_def ParserConf_new_def httpConfig_new_def size_ok_def codes_ok_def
        MAX_CLIENT_BODY_SIZE_LIMIT_def)
  then have mid: "list_all server_done (http_all_servers (pc_http pc))" "http_all_servers (pc_http pc) \<noteq> []"
      "size_ok (http_client_max_body_size (pc_http pc))"
    using pc(2) by (simp_all add: conf_mid_def list_all_iff)
  then have dflt: "size_ok (if http_client_max_body_size (pc_http pc) < 20000 then 1048576 else http_client_max_body_size (pc_http pc))"
    by (simp add: size_ok_def MAX_CLIENT_BODY_SIZE_LIMIT_def)
  have v: "length (http_all_servers (pc_http pc)) \<le> 20"
      "validate_servers w (if http_client_max_body_size (pc_http pc) < 20000 then 1048576 else http_client_max_body_size (pc_http pc)) []
         (http_all_servers (pc_http pc)) = Inr servers"
    using pc(3) by (auto simp: validate_final_config_def MAXSERVERS_def split: if_splits)
  note r = validate_servers_ok [OF v(2) mid(1) dflt]
  have "length servers = length (http_all_servers (pc_http pc))" using r by (metis length_map)
  moreover have "1 \<le> length (http_all_servers (pc_http pc))" using mid(2) by (cases "http_all_servers (pc_http pc)") auto
  ultimately show ?thesis using r v(1) by metis
qed

section \<open>Properties\<close>

text \<open>
  C13: what every accepted configuration is.  Whatever the file holds, when \<open>API_conf\<close> returns servers
  there is at least one and at most 20 of them, no two with the same port and name, and each is
  well formed: port 1 to 65535, time-out 1 to 3600 seconds, body limits positive and below
  \<open>INT_MAX\<close>, error codes 300 to 599, a root and an index, locations with distinct paths, each with a
  root, with at least one method, only \<open>GET\<close>, \<open>POST\<close> and \<open>DELETE\<close>, none twice, and a 3xx code if it redirects.
\<close>

theorem API_conf_well_formed:
  assumes "API_conf w args = Inr servers"
  shows "list_all server_ok servers \<and> 1 \<le> length servers \<and> length servers \<le> 20
    \<and> distinct (map (\<lambda>s. (srv_port s, srv_server_name s)) servers)"
  using assms by (rule API_conf_servers)

theorem API_conf_well_formed_witness:
  "\<exists>s. API_conf sample_conf_env [''a.conf''] = Inr [s] \<and> server_ok s"
  using API_conf_well_formed [of sample_conf_env "[''a.conf'']"] sample_conf_accepted by fastforce

end
