(* ===== verification/Server_Log.thy ===== *)
theory Server_Log
  imports Web_Prelude
begin

text \<open>
  The log of the server (\<open>src/Logger.cpp\<close>): the calendar computation behind its time stamps, the
  stream buffer that copies \<open>std::cerr\<close> into a file and stamps every line, and the logger that
  installs it.  \<open>int\<close> values are unbounded here: the year leaves the range of \<open>int\<close> only after some
  700 thousand million days.
\<close>

section \<open>Time stamps\<close>

definition isLeapYear :: "int \<Rightarrow> bool" where
  "isLeapYear year = (if year mod 400 = 0 then True else if year mod 100 = 0 then False else year mod 4 = 0)"

definition days_in_year :: "int \<Rightarrow> int" where
  "days_in_year year = (if isLeapYear year then 366 else 365)"

function year_loop :: "int \<Rightarrow> int \<Rightarrow> int \<times> int" where
  "year_loop days year =
     (if days \<ge> days_in_year year then year_loop (days - days_in_year year) (year + 1) else (days, year))"
  by pat_completeness auto
termination
  by (relation "measure (nat \<circ> fst)") (auto simp: days_in_year_def split: if_splits)

declare year_loop.simps [simp del]

definition month_days :: "int list" where
  "month_days = [31, 28, 31, 30, 31, 30, 31, 31, 30, 31, 30, 31]"

definition days_in_month :: "int \<Rightarrow> nat \<Rightarrow> int" where
  "days_in_month year mon = (if mon = 1 \<and> isLeapYear year then 29 else month_days ! mon)"

function month_loop :: "int \<Rightarrow> int \<Rightarrow> nat \<Rightarrow> int \<times> nat" where
  "month_loop year days mon =
     (if mon < 12 then
        (if days \<ge> days_in_month year mon then month_loop year (days - days_in_month year mon) (mon + 1)
         else (days, mon))
      else (days, mon))"
  by pat_completeness auto
termination
  by (relation "measure (\<lambda>(_, _, mon). 12 - mon)") auto

declare month_loop.simps [simp del]

record utc =
  u_year :: int
  u_mon :: nat
  u_mday :: int
  u_hour :: int
  u_min :: int
  u_sec :: int

definition splitUtc :: "int \<Rightarrow> utc" where
  \<comment> \<open>\<open>/\<close> and \<open>%\<close> truncate, which is the same for a number that is not negative\<close>
  "splitUtc t =
     (let seconds = (if t < 0 then 0 else t);
          days = seconds div 86400; rem = seconds mod 86400;
          (days, year) = year_loop days 1970;
          (days, mon) = month_loop year days 0
      in \<lparr>u_year = year, u_mon = mon, u_mday = days + 1, u_hour = rem div 3600, u_min = rem mod 3600 div 60,
          u_sec = rem mod 3600 mod 60\<rparr>)"

definition appendTwoDigits :: "string \<Rightarrow> int \<Rightarrow> string" where
  "appendTwoDigits oss v = oss @ (if v < 10 then ''0'' else []) @ int_string v"

definition formatUtcTimestamp :: "int \<Rightarrow> string" where
  "formatUtcTimestamp t =
     (let u = splitUtc t;
          oss = ''['' @ int_string (u_year u) @ ''-'';
          oss = appendTwoDigits oss (int (u_mon u) + 1) @ ''-'';
          oss = appendTwoDigits oss (u_mday u) @ '' '';
          oss = appendTwoDigits oss (u_hour u) @ '':'';
          oss = appendTwoDigits oss (u_min u) @ '':''
      in appendTwoDigits oss (u_sec u) @ ''] '')"

section \<open>The calendar\<close>

text \<open>The days since 1 January 1970 in closed form, by the rule of the Gregorian calendar.\<close>

definition leap_days :: "int \<Rightarrow> int" where
  \<comment> \<open>leap years up to and including this one\<close>
  "leap_days y = y div 4 - y div 100 + y div 400"

definition days_before_year :: "int \<Rightarrow> int" where
  "days_before_year y = 365 * (y - 1970) + leap_days (y - 1) - leap_days 1969"

definition days_before_month :: "int \<Rightarrow> nat \<Rightarrow> int" where
  "days_before_month y mon = (\<Sum>m < mon. days_in_month y m)"

definition valid_date :: "utc \<Rightarrow> bool" where
  "valid_date u \<longleftrightarrow> 1970 \<le> u_year u \<and> u_mon u < 12 \<and> 1 \<le> u_mday u \<and> u_mday u \<le> days_in_month (u_year u) (u_mon u)
     \<and> 0 \<le> u_hour u \<and> u_hour u < 24 \<and> 0 \<le> u_min u \<and> u_min u < 60 \<and> 0 \<le> u_sec u \<and> u_sec u < 60"

definition utc_seconds :: "utc \<Rightarrow> int" where
  "utc_seconds u =
     (days_before_year (u_year u) + days_before_month (u_year u) (u_mon u) + (u_mday u - 1)) * 86400
     + u_hour u * 3600 + u_min u * 60 + u_sec u"

lemma div_step: "0 < (k :: int) \<Longrightarrow> y div k = (y - 1) div k + (if y mod k = 0 then 1 else 0)"
proof -
  assume k: "0 < k"
  have y: "y = k * (y div k) + y mod k" "0 \<le> y mod k" "y mod k < k" using k by simp_all
  show ?thesis
  proof (cases "y mod k = 0")
    case True
    with y have "y - 1 = k * (y div k - 1) + (k - 1)" by (simp add: algebra_simps)
    then have "(y - 1) div k = y div k - 1" by (rule int_div_pos_eq) (use k in simp_all)
    with True show ?thesis by simp
  next
    case False
    with y have "y - 1 = k * (y div k) + (y mod k - 1)" "0 \<le> y mod k - 1" by simp_all
    then have "(y - 1) div k = y div k" by (rule int_div_pos_eq) (use y(3) in simp)
    with False show ?thesis by simp
  qed
qed

lemma mod_coarser: "y mod (400 :: int) = 0 \<Longrightarrow> y mod 100 = 0" "y mod (100 :: int) = 0 \<Longrightarrow> y mod 4 = 0"
  using mod_mod_cancel [of "100 :: int" 400 y] mod_mod_cancel [of "4 :: int" 100 y] by simp_all

lemma days_before_next_year: "days_before_year (y + 1) = days_before_year y + days_in_year y"
proof -
  have steps: "y div 4 = (y - 1) div 4 + (if y mod 4 = 0 then 1 else 0)" "y div 100 = (y - 1) div 100 + (if y mod 100 = 0 then 1 else 0)"
      "y div 400 = (y - 1) div 400 + (if y mod 400 = 0 then 1 else 0)"
    by (rule div_step, simp)+
  have sums: "a = a' + i \<Longrightarrow> b = b' + j \<Longrightarrow> c = c' + k \<Longrightarrow> (a - b + c) - (a' - b' + c') = i - j + k" for a b c a' b' c' i j k :: int
    by simp
  have "leap_days y - leap_days (y - 1)
      = (if y mod 4 = 0 then 1 else 0) - (if y mod 100 = 0 then 1 else 0) + (if y mod 400 = 0 then 1 else 0)"
    unfolding leap_days_def by (rule sums [OF steps])
  also have "\<dots> = (if isLeapYear y then 1 else 0)"
  proof -
    have "(if q then 1 else 0) - (if h then 1 else 0) + (if f then 1 else (0 :: int)) = (if (if f then True else if h then False else q) then 1 else 0)"
      if "f \<longrightarrow> h" "h \<longrightarrow> q" for q h f using that by simp
    moreover have "y mod 400 = 0 \<longrightarrow> y mod 100 = 0" "y mod 100 = 0 \<longrightarrow> y mod 4 = 0" by (rule impI, erule mod_coarser)+
    ultimately show ?thesis unfolding isLeapYear_def by (simp only:)
  qed
  finally have "leap_days y - leap_days (y - 1) = (if isLeapYear y then 1 else 0)" .
  moreover have "days_before_year (y + 1) - days_before_year y = 365 + (leap_days y - leap_days (y - 1))"
    by (simp add: days_before_year_def)
  ultimately show ?thesis by (cases "isLeapYear y") (simp_all add: days_in_year_def diff_eq_eq)
qed

lemma year_loop_days:
  assumes "year_loop days year = (days', year')" "0 \<le> days"
  shows "days_before_year year' + days' = days_before_year year + days \<and> 0 \<le> days' \<and> days' < days_in_year year' \<and> year \<le> year'"
  using assms
proof (induction days year rule: year_loop.induct)
  case (1 days year)
  show ?case
  proof (cases "days \<ge> days_in_year year")
    case True
    with 1 show ?thesis using days_before_next_year [of year] by (subst (asm) year_loop.simps) auto
  next
    case False
    with 1(2,3) show ?thesis by (subst (asm) year_loop.simps) auto
  qed
qed

lemma month_loop_days:
  assumes "month_loop year days mon = (days', mon')" "0 \<le> days" "mon \<le> 12" "days < (\<Sum>m = mon..<12. days_in_month year m)"
  shows "days_before_month year mon' + days' = days_before_month year mon + days \<and> 0 \<le> days' \<and> mon' < 12
    \<and> days' < days_in_month year mon'"
  using assms
proof (induction year days mon rule: month_loop.induct)
  case (1 year days mon)
  show ?case
  proof (cases "mon < 12 \<and> days \<ge> days_in_month year mon")
    case True
    have "(\<Sum>m = mon..<12. days_in_month year m) = days_in_month year mon + (\<Sum>m = Suc mon..<12. days_in_month year m)"
      using True by (simp add: sum.atLeast_Suc_lessThan)
    with True 1 show ?thesis by (subst (asm) month_loop.simps) (auto simp: days_before_month_def)
  next
    case False
    moreover have "mon < 12"
    proof (rule ccontr)
      assume "\<not> mon < 12"
      with 1(3,5) show False by simp
    qed
    ultimately show ?thesis using 1(2,3) by (subst (asm) month_loop.simps) auto
  qed
qed

lemma days_in_months: "(\<Sum>m = 0..<12. days_in_month year m) = days_in_year year"
  by (simp add: days_in_month_def days_in_year_def month_days_def numeral_eq_Suc)

lemma days_in_year_pos: "0 < days_in_year y"
  by (simp add: days_in_year_def)

lemma year_loop_inverse:
  "0 \<le> r \<Longrightarrow> r < days_in_year (y0 + int k) \<Longrightarrow>
    year_loop (days_before_year (y0 + int k) - days_before_year y0 + r) y0 = (r, y0 + int k)"
proof (induction k arbitrary: y0)
  case 0
  then show ?case by (subst year_loop.simps) simp
next
  case (Suc k)
  have eq: "y0 + int (Suc k) = (y0 + 1) + int k" by simp
  have mono: "days_before_year (y0 + 1) \<le> days_before_year ((y0 + 1) + int j)" for j
  proof (induction j)
    case (Suc j)
    have "days_before_year ((y0 + 1) + int (Suc j)) = days_before_year ((y0 + 1) + int j) + days_in_year ((y0 + 1) + int j)"
      using days_before_next_year [of "(y0 + 1) + int j"] by (simp add: algebra_simps)
    with Suc days_in_year_pos [of "(y0 + 1) + int j"] show ?case by simp
  qed simp
  let ?d = "days_before_year (y0 + int (Suc k)) - days_before_year y0 + r"
  have less: "?d - days_in_year y0 = days_before_year ((y0 + 1) + int k) - days_before_year (y0 + 1) + r"
    using days_before_next_year [of y0] by (simp add: algebra_simps)
  have "days_in_year y0 \<le> ?d"
    using mono [of k] days_before_next_year [of y0] Suc.prems(1) unfolding eq by linarith
  then have "year_loop ?d y0 = year_loop (?d - days_in_year y0) (y0 + 1)" by (subst year_loop.simps) (simp only: if_True)
  then have "year_loop ?d y0 = year_loop (days_before_year ((y0 + 1) + int k) - days_before_year (y0 + 1) + r) (y0 + 1)"
    unfolding less .
  moreover have "r < days_in_year ((y0 + 1) + int k)" using Suc.prems(2) unfolding eq .
  ultimately show ?case using Suc.IH [of "y0 + 1"] Suc.prems(1) unfolding eq by metis
qed

lemma month_loop_inverse:
  "0 \<le> r \<Longrightarrow> r < days_in_month y m \<Longrightarrow> m < 12 \<Longrightarrow> m0 \<le> m \<Longrightarrow>
    month_loop y ((\<Sum>i = m0..<m. days_in_month y i) + r) m0 = (r, m)"
proof (induction "m - m0" arbitrary: m0)
  case 0
  then show ?case by (subst month_loop.simps) simp
next
  case (Suc k)
  then have less: "m0 < m" by simp
  have pos: "0 \<le> days_in_month y i" if "i < 12" for i
    using that by (auto simp: days_in_month_def month_days_def nth_Cons numeral_eq_Suc less_Suc_eq)
  have sum: "(\<Sum>i = m0..<m. days_in_month y i) = days_in_month y m0 + (\<Sum>i = Suc m0..<m. days_in_month y i)"
    using less by (simp add: sum.atLeast_Suc_lessThan)
  have "0 \<le> (\<Sum>i = Suc m0..<m. days_in_month y i)" using pos Suc.prems(3) by (intro sum_nonneg) auto
  then have "month_loop y ((\<Sum>i = m0..<m. days_in_month y i) + r) m0 = month_loop y ((\<Sum>i = Suc m0..<m. days_in_month y i) + r) (Suc m0)"
    using Suc.prems(1,3) less sum by (subst month_loop.simps) simp
  with Suc.hyps(1) [of "Suc m0"] Suc.hyps(2) Suc.prems less show ?case by simp
qed

lemma month_start: "m < 12 \<Longrightarrow> days_before_month y m + days_in_month y m \<le> days_in_year y"
proof -
  assume m: "m < 12"
  have "days_before_month y m + days_in_month y m = (\<Sum>i = 0..<Suc m. days_in_month y i)"
    by (simp add: days_before_month_def atLeast0LessThan)
  also have "\<dots> \<le> (\<Sum>i = 0..<12. days_in_month y i)"
    using m by (intro sum_mono2) (auto simp: days_in_month_def month_days_def nth_Cons numeral_eq_Suc less_Suc_eq)
  finally show ?thesis by (simp add: days_in_months)
qed

lemma splitUtc_inverse:
  assumes "valid_date u"
  shows "0 \<le> utc_seconds u \<and> splitUtc (utc_seconds u) = u"
proof -
  let ?y = "u_year u" and ?m = "u_mon u"
  define yd where "yd = days_before_month ?y ?m + (u_mday u - 1)"
  define days where "days = days_before_year ?y + yd"
  define secs where "secs = u_hour u * 3600 + u_min u * 60 + u_sec u"
  have v: "1970 \<le> ?y" "?m < 12" "1 \<le> u_mday u" "u_mday u \<le> days_in_month ?y ?m" "0 \<le> u_hour u" "u_hour u < 24"
      "0 \<le> u_min u" "u_min u < 60" "0 \<le> u_sec u" "u_sec u < 60"
    using assms by (simp_all add: valid_date_def)
  have t: "utc_seconds u = days * 86400 + secs" by (simp add: utc_seconds_def days_def yd_def secs_def algebra_simps)
  have secs: "0 \<le> secs" "secs < 86400" using v by (simp_all add: secs_def)
  have y: "?y = 1970 + int (nat (?y - 1970))" using v(1) by simp
  have d1970: "days_before_year 1970 = 0" by (simp add: days_before_year_def)
  have "0 \<le> days_before_month ?y ?m"
    unfolding days_before_month_def using v(2)
    by (intro sum_nonneg) (auto simp: days_in_month_def month_days_def nth_Cons numeral_eq_Suc less_Suc_eq)
  then have yd: "0 \<le> yd" "yd < days_in_year ?y" using v(3,4) month_start [OF v(2), of ?y] by (simp_all add: yd_def)
  have "0 \<le> days_before_year (1970 + int k)" for k
  proof (induction k)
    case (Suc k)
    have "days_before_year (1970 + int (Suc k)) = days_before_year (1970 + int k) + days_in_year (1970 + int k)"
      using days_before_next_year [of "1970 + int k"] by (simp add: algebra_simps)
    with Suc days_in_year_pos [of "1970 + int k"] show ?case by simp
  qed (simp add: d1970)
  then have days: "0 \<le> days" using yd(1) y by (metis add_nonneg_nonneg days_def)
  have years: "year_loop days 1970 = (yd, ?y)"
    using year_loop_inverse [OF yd(1), of 1970 "nat (?y - 1970)"] yd(2) y d1970 by (simp add: days_def)
  have months: "month_loop ?y yd 0 = (u_mday u - 1, ?m)"
    using month_loop_inverse [of "u_mday u - 1" ?y ?m 0] v(2-4) by (simp add: yd_def days_before_month_def atLeast0LessThan)
  have div: "utc_seconds u div 86400 = days" "utc_seconds u mod 86400 = secs" using t secs by simp_all
  have "secs div 3600 = u_hour u \<and> secs mod 3600 div 60 = u_min u \<and> secs mod 3600 mod 60 = u_sec u"
  proof -
    have s: "secs = u_hour u * 3600 + (u_min u * 60 + u_sec u)" "0 \<le> u_min u * 60 + u_sec u" "u_min u * 60 + u_sec u < 3600"
      using v by (simp_all add: secs_def)
    then have "secs div 3600 = u_hour u" "secs mod 3600 = u_min u * 60 + u_sec u" by simp_all
    then show ?thesis using v by simp
  qed
  then have "splitUtc (utc_seconds u) = u"
    using div years months days secs t by (simp add: splitUtc_def Let_def)
  then show ?thesis using t days secs by simp
qed

lemma splitUtc_valid:
  assumes "0 \<le> t"
  shows "valid_date (splitUtc t) \<and> utc_seconds (splitUtc t) = t"
proof -
  obtain yd y where y: "year_loop (t div 86400) 1970 = (yd, y)" by fastforce
  obtain md m where m: "month_loop y yd 0 = (md, m)" by fastforce
  have yd: "days_before_year y + yd = days_before_year 1970 + t div 86400" "0 \<le> yd" "yd < days_in_year y" "1970 \<le> y"
    using year_loop_days [OF y] assms by (simp_all add: pos_imp_zdiv_nonneg_iff)
  have md: "days_before_month y m + md = yd" "0 \<le> md" "m < 12" "md < days_in_month y m"
    using month_loop_days [OF m] yd(2,3) days_in_months [of y] by (simp_all add: days_before_month_def)
  define sec where "sec = t mod 86400"
  have sec: "0 \<le> sec" "sec < 86400" "t = t div 86400 * 86400 + sec" by (simp_all add: sec_def)
  have parts: "sec = sec div 3600 * 3600 + sec mod 3600 div 60 * 60 + sec mod 3600 mod 60"
      "0 \<le> sec mod 3600 div 60" "sec mod 3600 div 60 < 60" "0 \<le> sec div 3600" "sec div 3600 < 24"
    using sec(1,2) by (simp_all add: pos_imp_zdiv_nonneg_iff div_less_iff_less_mult)
  have "days_before_year y + yd = t div 86400" using yd(1) by (simp add: days_before_year_def)
  then have total: "(days_before_year y + days_before_month y m + md) * 86400 + sec = t" using md(1) sec(3) by simp
  have u: "splitUtc t = \<lparr>u_year = y, u_mon = m, u_mday = md + 1, u_hour = sec div 3600, u_min = sec mod 3600 div 60,
      u_sec = sec mod 3600 mod 60\<rparr>"
    using assms y m by (simp add: splitUtc_def Let_def sec_def)
  have "utc_seconds (splitUtc t) = t" using total parts(1) unfolding u utc_seconds_def by simp
  moreover have "valid_date (splitUtc t)" using yd(4) md parts(2-5) unfolding u valid_date_def by simp
  ultimately show ?thesis by simp
qed

section \<open>Copying the error stream into a file\<close>

record tee =
  t_orig :: string             \<comment> \<open>what has been written to the original buffer\<close>
  t_file :: string             \<comment> \<open>what has been written to the file\<close>
  t_at_line_start :: bool

definition TeeStreambuf_new :: "string \<Rightarrow> string \<Rightarrow> tee" where
  "TeeStreambuf_new orig file = \<lparr>t_orig = orig, t_file = file, t_at_line_start = True\<rparr>"

definition overflow :: "int \<Rightarrow> char \<Rightarrow> tee \<Rightarrow> tee" where
  \<comment> \<open>the clock is an argument\<close>
  "overflow now ch t =
     (let t = t\<lparr>t_orig := t_orig t @ [ch]\<rparr>;
          t = (if t_at_line_start t then t\<lparr>t_file := t_file t @ formatUtcTimestamp now, t_at_line_start := False\<rparr> else t);
          t = t\<lparr>t_file := t_file t @ [ch]\<rparr>
      in if ch = LF then t\<lparr>t_at_line_start := True\<rparr> else t)"

definition xsputn :: "int \<Rightarrow> string \<Rightarrow> tee \<Rightarrow> tee" where
  "xsputn now s t = fold (overflow now) s t"

section \<open>The logger\<close>

datatype log_level = LOG_DEBUG | LOG_INFO | LOG_WARN | LOG_ERROR | LOG_PERF | LOG_STATE

definition level_num :: "log_level \<Rightarrow> nat" where
  "level_num l = (case l of LOG_DEBUG \<Rightarrow> 0 | LOG_INFO \<Rightarrow> 1 | LOG_WARN \<Rightarrow> 2 | LOG_ERROR \<Rightarrow> 3 | LOG_PERF \<Rightarrow> 4 | LOG_STATE \<Rightarrow> 5)"

definition levelTag :: "log_level \<Rightarrow> string" where
  "levelTag l =
     (case l of LOG_DEBUG \<Rightarrow> ''DEBUG'' | LOG_INFO \<Rightarrow> ''INFO '' | LOG_WARN \<Rightarrow> ''WARN '' | LOG_ERROR \<Rightarrow> ''ERROR''
      | LOG_PERF \<Rightarrow> ''PERF '' | LOG_STATE \<Rightarrow> ''STATE'')"

record logger =
  lg_path :: string
  lg_file_open :: bool
  lg_stderr :: string          \<comment> \<open>what has reached the original buffer of \<open>std::cerr\<close>\<close>
  lg_file :: string
  lg_tee :: "bool option"      \<comment> \<open>\<open>_at_line_start\<close> of the installed \<open>TeeStreambuf\<close>\<close>
  lg_min_level :: log_level

definition Logger_new :: logger where
  "Logger_new = \<lparr>lg_path = [], lg_file_open = False, lg_stderr = [], lg_file = [], lg_tee = None, lg_min_level = LOG_INFO\<rparr>"

definition cerr_write :: "int \<Rightarrow> string \<Rightarrow> logger \<Rightarrow> logger" where
  \<comment> \<open>\<open>std::cerr << s\<close>\<close>
  "cerr_write now s lg =
     (case lg_tee lg of
        None \<Rightarrow> lg\<lparr>lg_stderr := lg_stderr lg @ s\<rparr>
      | Some start \<Rightarrow>
          let t = xsputn now s \<lparr>t_orig = lg_stderr lg, t_file = lg_file lg, t_at_line_start = start\<rparr> in
          lg\<lparr>lg_stderr := t_orig t, lg_file := t_file t, lg_tee := Some (t_at_line_start t)\<rparr>)"

definition ruler :: string where "ruler = replicate 80 (CHR ''='') @ nl"

definition Logger_open :: "int \<Rightarrow> bool \<Rightarrow> string \<Rightarrow> string \<Rightarrow> logger \<Rightarrow> logger" where
  \<comment> \<open>\<open>opens\<close>: the file can be opened for appending, and holds \<open>old\<close>\<close>
  "Logger_open now opens old p lg =
     (let lg = lg\<lparr>lg_path := p\<rparr> in
      if \<not> opens
      then cerr_write now (''[Logger] WARNING: cannot open log file '' @ [SQUOTE] @ p @ [SQUOTE] @ '' '' @ map chr [226, 128, 148]
             @ '' logging to stderr only'' @ nl) lg
      else
        cerr_write now (ruler @ ''[Logger] log session started  '' @ map chr [226, 128, 148] @ ''  file: '' @ p @ nl @ ruler)
          (lg\<lparr>lg_file_open := True, lg_file := old, lg_tee := Some True\<rparr>))"

definition Logger_close :: "int \<Rightarrow> logger \<Rightarrow> logger" where
  "Logger_close now lg =
     (if lg_tee lg = None then lg
      else (cerr_write now (ruler @ ''[Logger] log session ended'' @ nl @ ruler @ nl) lg)\<lparr>lg_tee := None, lg_file_open := False\<rparr>)"

definition Logger_log :: "int \<Rightarrow> log_level \<Rightarrow> string \<Rightarrow> logger \<Rightarrow> logger" where
  "Logger_log now level msg lg =
     (if level_num level < level_num (lg_min_level lg) then lg
      else cerr_write now (''['' @ levelTag level @ ''] '' @ msg @ nl) lg)"

definition writeTagged :: "int \<Rightarrow> string \<Rightarrow> string \<Rightarrow> logger \<Rightarrow> logger" where
  "writeTagged now tag msg lg =
     (if \<not> lg_file_open lg then lg
      else lg\<lparr>lg_file := lg_file lg @ formatUtcTimestamp now @ ''['' @ tag @ ''] '' @ msg @ nl\<rparr>)"

section \<open>What the file holds\<close>

lemma overflow_line:
  "LF \<notin> set s \<Longrightarrow> \<not> t_at_line_start t \<Longrightarrow>
    fold (overflow now) s t = t\<lparr>t_orig := t_orig t @ s, t_file := t_file t @ s\<rparr>"
  by (induction s arbitrary: t) (auto simp: overflow_def Let_def)

lemma xsputn_line:
  assumes "LF \<notin> set s" "t_at_line_start t"
  shows "xsputn now (s @ [LF]) t = t\<lparr>t_orig := t_orig t @ s @ [LF], t_file := t_file t @ formatUtcTimestamp now @ s @ [LF]\<rparr>"
proof (cases s)
  case Nil
  with assms(2) show ?thesis by (simp add: xsputn_def overflow_def Let_def)
next
  case (Cons c cs)
  let ?t = "t\<lparr>t_orig := t_orig t @ [c], t_file := t_file t @ formatUtcTimestamp now @ [c], t_at_line_start := False\<rparr>"
  have "overflow now c t = ?t" using assms Cons by (auto simp: overflow_def Let_def)
  moreover have "fold (overflow now) cs ?t = ?t\<lparr>t_orig := t_orig ?t @ cs, t_file := t_file ?t @ cs\<rparr>"
    using assms(1) Cons by (intro overflow_line) simp_all
  ultimately show ?thesis using assms(2) Cons by (simp add: xsputn_def overflow_def Let_def)
qed

section \<open>Properties\<close>

text \<open>
  C39: the time stamps of the log are right.  \<open>splitUtc\<close> turns every time from 1970 on into a valid
  date of the Gregorian calendar that lies exactly that many seconds after the epoch, by the
  closed formula for the calendar; and it finds every valid date again from its seconds, so it is
  the inverse of the formula.  The loops over years and months end for every time.
\<close>

theorem splitUtc_calendar:
  "(0 \<le> t \<longrightarrow> valid_date (splitUtc t) \<and> utc_seconds (splitUtc t) = t)
   \<and> (valid_date u \<longrightarrow> 0 \<le> utc_seconds u \<and> splitUtc (utc_seconds u) = u)"
  using splitUtc_valid [of t] splitUtc_inverse [of u] by blast

theorem splitUtc_calendar_witness:
  "splitUtc (utc_seconds \<lparr>u_year = 2024, u_mon = 1, u_mday = 29, u_hour = 23, u_min = 59, u_sec = 58\<rparr>)
     = \<lparr>u_year = 2024, u_mon = 1, u_mday = 29, u_hour = 23, u_min = 59, u_sec = 58\<rparr>
   \<and> utc_seconds (splitUtc 1709251198) = 1709251198"
  using splitUtc_calendar [of 1709251198 "\<lparr>u_year = 2024, u_mon = 1, u_mday = 29, u_hour = 23, u_min = 59, u_sec = 58\<rparr>"]
  by (simp add: valid_date_def days_in_month_def isLeapYear_def)



end
