(* ===== verification/Main_Program.thy ===== *)
theory Main_Program
  imports Loop_Properties Conf_Validate
begin

text \<open>
  The program: the listening sockets (\<open>src/make_listener.cpp\<close>) and \<open>main\<close> (\<open>src/main.cpp\<close>), from the
  command line to the event loop.
\<close>

section \<open>Listening sockets\<close>

record sock_env =
  se_somaxconn :: "string option"           \<comment> \<open>\<open>/proc/sys/net/core/somaxconn\<close> and what \<open>read\<close> returns of it\<close>
  se_SOMAXCONN :: int                       \<comment> \<open>the macro of the system headers\<close>
  se_socket :: int
  se_resolves :: "string \<Rightarrow> bool"           \<comment> \<open>\<open>getaddrinfo\<close> succeeds\<close>
  se_bind :: "string \<Rightarrow> nat \<Rightarrow> bool"        \<comment> \<open>\<open>bind\<close> to a host and a port succeeds\<close>
  se_listen :: "int \<Rightarrow> bool"                \<comment> \<open>\<open>listen\<close> with a backlog succeeds\<close>
  se_nonblock :: bool                       \<comment> \<open>\<open>setNonBlocking\<close> succeeds\<close>

definition readSomaxconn :: "sock_env \<Rightarrow> int" where
  "readSomaxconn w =
     (case se_somaxconn w of
        None \<Rightarrow> se_SOMAXCONN w
      | Some s \<Rightarrow>
          let buf = takeWhile is_digit (c_str (take 15 s)) in
          (case safe_strtol buf of
             None \<Rightarrow> se_SOMAXCONN w
           | Some val \<Rightarrow> if val > 0 then to_int32 val else se_SOMAXCONN w))"

definition make_listener :: "sock_env \<Rightarrow> string \<Rightarrow> int \<Rightarrow> int \<times> sys_call list" where
  \<comment> \<open>the descriptor or -1, and what was closed; failures of \<open>setsockopt\<close> are warnings; the port is cut to 16 bits\<close>
  "make_listener w host port =
     (let fd = se_socket w in
      if fd < 0 then (-1, [])
      else if c_str host \<noteq> ''0.0.0.0'' \<and> \<not> se_resolves w (c_str host) then (-1, [SysClose fd])
      else if \<not> se_bind w (c_str host) (nat (port mod 2 ^ 16)) then (-1, [SysClose fd])
      else if \<not> se_listen w (readSomaxconn w) then (-1, [SysClose fd])
      else if \<not> se_nonblock w then (-1, [SysClose fd])
      else (fd, []))"

section \<open>\<open>main\<close>\<close>

record main_env =
  me_conf :: conf_env
  me_epoll :: bool                          \<comment> \<open>\<open>epoll_create\<close> succeeds\<close>
  me_limit :: sock_env                      \<comment> \<open>the system when \<open>ConnectionManager\<close> reads \<open>somaxconn\<close>\<close>
  me_socks :: "nat \<Rightarrow> sock_env"             \<comment> \<open>the system when the listener of each server is made\<close>
  me_loop :: loop_env                       \<comment> \<open>the system when the listeners are registered\<close>

datatype main_result =
    Running event_loop                      \<comment> \<open>still in \<open>run\<close>\<close>
  | Exit int                                \<comment> \<open>\<open>main\<close> returned\<close>
  | Undefined                               \<comment> \<open>undefined behaviour or a loop that does not end\<close>

definition listeners :: "(nat \<Rightarrow> sock_env) \<Rightarrow> server list \<Rightarrow> (int \<times> server) list" where
  \<comment> \<open>what \<open>make_listener\<close> returns for each server; \<open>main\<close> stops at the first -1\<close>
  "listeners socks servers =
     map (\<lambda>(i, s). (fst (make_listener (socks i) (srv_host s) (srv_port s)), s)) (enumerate 0 servers)"

definition main_start :: "main_env \<Rightarrow> server list \<Rightarrow> event_loop option" where
  \<comment> \<open>from the parsed configuration to \<open>loop.run()\<close>; \<open>None\<close>: \<open>main\<close> returns 1\<close>
  "main_start w servers =
     (if \<not> me_epoll w then None
      else map_option run_start
        (start_listeners (me_loop w) (listeners (me_socks w) servers) (EventLoop_new (readSomaxconn (me_limit w)))))"

fun run_turns :: "(loop_env \<times> wait_result) list \<Rightarrow> event_loop \<Rightarrow> main_result" where
  \<comment> \<open>\<open>run\<close> and the \<open>catch\<close> of \<open>main\<close> around it, for as many turns as are given\<close>
  "run_turns [] st = Running st"
| "run_turns ((e, w) # ts) st =
     (case run_turn e w st of
        Inl (x, _) \<Rightarrow> if x \<in> {Hang, MemFault} then Undefined else Exit 1
      | Inr (again, st) \<Rightarrow> if again then run_turns ts st else Exit 0)"

definition main_program :: "main_env \<Rightarrow> string list \<Rightarrow> (loop_env \<times> wait_result) list \<Rightarrow> main_result" where
  "main_program w args ts =
     (case API_conf (me_conf w) args of
        Inl (ConfError _) \<Rightarrow> Exit 1
      | Inl UndefinedCast \<Rightarrow> Undefined
      | Inr servers \<Rightarrow> (case main_start w servers of None \<Rightarrow> Exit 1 | Some st \<Rightarrow> run_turns ts st))"

section \<open>Start\<close>

lemma make_listener_result:
  "make_listener w h p = (if fst (make_listener w h p) < 0
     then (-1, if se_socket w < 0 then [] else [SysClose (se_socket w)]) else (se_socket w, []))"
  by (auto simp: make_listener_def Let_def)

lemma make_listener_fd: "0 \<le> fst (make_listener w h p) \<Longrightarrow> fst (make_listener w h p) = se_socket w"
  using make_listener_result [of w h p] by (auto split: if_splits)

lemma start_listeners_fds: "start_listeners e ls st = Some st' \<Longrightarrow> list_all (\<lambda>x. 0 \<le> fst x) ls"
  by (induction e ls st rule: start_listeners.induct) (auto split: if_splits sum.splits)

lemma server_ok_cfg: "server_ok s \<Longrightarrow> cfg_ok s"
  by (auto simp: server_ok_def cfg_ok_def getMaxBody_def getClientMaxBodySize_def location_ok_def size_ok_def list_all_iff
      MAX_CLIENT_BODY_SIZE_LIMIT_def to_size_def)

definition fresh_sockets :: "(nat \<Rightarrow> sock_env) \<Rightarrow> bool" where
  \<comment> \<open>\<open>socket\<close> never returns a descriptor that is still open; a configuration has at most 20 servers\<close>
  "fresh_sockets socks \<longleftrightarrow> inj_on (\<lambda>i. se_socket (socks i)) {i. i < 20 \<and> 0 \<le> se_socket (socks i)}"

lemma listeners_distinct:
  assumes "fresh_sockets socks" "length servers \<le> 20" "list_all (\<lambda>x. 0 \<le> fst x) (listeners socks servers)"
  shows "distinct (map fst (listeners socks servers))"
proof -
  have nth: "map fst (listeners socks servers) ! i = se_socket (socks i)" "0 \<le> se_socket (socks i)" if "i < length servers" for i
    using assms(3) that make_listener_fd
    by (auto simp: listeners_def list_all_length nth_enumerate_eq)
  show ?thesis
    unfolding distinct_conv_nth
  proof (intro allI impI)
    fix i j assume "i < length (map fst (listeners socks servers))" "j < length (map fst (listeners socks servers))" "i \<noteq> j"
    then have "i < length servers" "j < length servers" "i \<noteq> j" by (simp_all add: listeners_def)
    then show "map fst (listeners socks servers) ! i \<noteq> map fst (listeners socks servers) ! j"
      using assms(1,2) nth [of i] nth [of j] unfolding fresh_sockets_def inj_on_def by auto
  qed
qed

lemma main_start_reachable:
  assumes "API_conf (me_conf w) args = Inr servers" "main_start w servers = Some st" "fresh_sockets (me_socks w)"
  shows "reachable st"
proof -
  obtain st' where st': "start_listeners (me_loop w) (listeners (me_socks w) servers) (EventLoop_new (readSomaxconn (me_limit w))) = Some st'"
      "st = run_start st'"
    using assms(2) by (auto simp: main_start_def split: if_splits)
  have srv: "map snd (listeners (me_socks w) servers) = servers"
    by (simp add: listeners_def comp_def case_prod_unfold)
  have "list_all cfg_ok servers" "length servers \<le> 20"
    using API_conf_servers [OF assms(1)] server_ok_cfg by (auto simp: list_all_iff)
  then show ?thesis
    unfolding st'(2) using listeners_distinct [OF assms(3) _ start_listeners_fds [OF st'(1)]]
    by (intro reachable.start [OF _ _ st'(1)]) (simp_all add: srv)
qed

section \<open>Properties\<close>

fun turns_ok :: "(loop_env \<times> wait_result) list \<Rightarrow> event_loop \<Rightarrow> bool" where
  \<comment> \<open>every turn meets an operating system that behaves\<close>
  "turns_ok [] st \<longleftrightarrow> True"
| "turns_ok ((e, w) # ts) st \<longleftrightarrow>
     wait_ok e w st \<and> (case run_turn e w st of Inr (True, st') \<Rightarrow> turns_ok ts st' | _ \<Rightarrow> True)"

lemma run_turns_safe:
  "reachable st \<Longrightarrow> turns_ok ts st \<Longrightarrow>
     (case run_turns ts st of Running st' \<Rightarrow> reachable st' | Exit code \<Rightarrow> code \<in> {0, 1} | Undefined \<Rightarrow> False)"
proof (induction ts st rule: run_turns.induct)
  case (2 e w ts st)
  then have ok: "wait_ok e w st" by simp
  show ?case
  proof (cases "run_turn e w st")
    case (Inl a)
    then have "thrown (fst a)"
      using run_turn_fine [OF reachable_inv [OF 2(2)] ok] by (auto simp: fine_def split: prod.splits)
    then show ?thesis using Inl by (auto simp: thrown_def split: prod.splits)
  next
    case (Inr b)
    obtain again st' where b: "b = (again, st')" by (cases b)
    show ?thesis
    proof (cases again)
      case True
      then have "reachable st'" using reachable.turn [OF 2(2) ok] Inr b by simp
      moreover have "turns_ok ts st'" using 2(3) Inr b True by simp
      ultimately show ?thesis using 2(1) [OF Inr b [symmetric] True] Inr b True by simp
    qed (simp add: Inr b)
  qed
qed simp


definition sample_socks :: "nat \<Rightarrow> sock_env" where
  "sample_socks i =
     \<lparr>se_somaxconn = None, se_SOMAXCONN = 4096, se_socket = 3 + int i, se_resolves = (\<lambda>_. True),
      se_bind = (\<lambda>_ _. True), se_listen = (\<lambda>_. True), se_nonblock = True\<rparr>"

definition sample_main :: main_env where
  "sample_main =
     \<lparr>me_conf = sample_conf_env, me_epoll = True, me_limit = sample_socks 0, me_socks = sample_socks, me_loop = sample_env 0 []\<rparr>"

lemma sample_main_start:
  "main_start sample_main [s] = Some ((EventLoop_new 4096)\<lparr>lp_running := True, lp_server_fds := [3], lp_server_configs := [s], lp_next := 1,
     lp_heap := [(0, \<lparr>er_kind = EV_SERVER, er_fd = 3\<rparr>)], lp_refs := [(3, 0)], lp_interest := [(3, 0, [EPOLLIN, EPOLLET])]\<rparr>)"
  by (simp add: main_start_def sample_main_def listeners_def enumerate_eq_zip make_listener_def sample_socks_def addServerSocket_def
      registerEventFd_def EventLoop_new_def run_start_def sample_env_ok readSomaxconn_def safe_strtol_eq)

definition sample_turns :: "(loop_env \<times> wait_result) list" where
  "sample_turns = [(sample_env 0 [], WaitInterrupted), (sample_env 0 [], sample_accept)]"

lemma sample_main_turn:
  assumes "main_start sample_main [s] = Some st" "1 \<le> srv_timeout_seconds s"
  shows "\<exists>st'. run_turn (sample_env 0 []) sample_accept st = Inr (True, st') \<and> get_conn st' 5 \<noteq> None"
  using assms unfolding sample_main_start sample_accept_def run_turn_def
  by (auto simp: EventLoop_new_def dispatch_def omap_get_def handleAccept_def configForServer_def Let_def sample_env_ok
     accept_loop.simps addConnection_def sample_client_def get_conn_def on_conn_def with_conn_def use_conn_def registerEventFd_def
     put_conn_def hold_cofiguration_def Connection_new_def delete_stale_def closeTimedOutClients_def getTimedOutFds_def isTimedOut_def
     closeTimedOutCgiJobs_def timedOutJobs_def reapPending_def)

lemma sample_main_turns:
  assumes "main_start sample_main [s] = Some st" "1 \<le> srv_timeout_seconds s"
  shows "turns_ok sample_turns st" "\<exists>st'. run_turns sample_turns st = Running st' \<and> get_conn st' 5 \<noteq> None"
proof -
  have st: "lp_running st" "lp_interest st = [(3, 0, [EPOLLIN, EPOLLET])]" "lp_conns st = []" "lp_jobs st = []"
    using assms(1) unfolding sample_main_start by (auto simp: EventLoop_new_def)
  have "wait_ok (sample_env 0 []) sample_accept st"
    by (auto simp: wait_ok_def sample_accept_def delivered_def env_ok_def sample_env_ok st
        accepts_ok_def unused_def sample_client_def get_conn_def omap_get_def split: sum.splits)
  moreover have "wait_ok (sample_env 0 []) WaitInterrupted st" by (simp add: wait_ok_def sample_env_ok)
  moreover have "run_turn (sample_env 0 []) WaitInterrupted st = Inr (True, st)" by (simp add: run_turn_def st)
  ultimately show "turns_ok sample_turns st" "\<exists>st'. run_turns sample_turns st = Running st' \<and> get_conn st' 5 \<noteq> None"
    using sample_main_turn [OF assms] by (auto simp: sample_turns_def)
qed


end
