(* ===== verification/Spec2Isabelle.thy ===== *)
theory Spec2Isabelle
  imports Web_Prelude Buffers Config_Data Os_Interface Connections Incremental Request_Line
    Request_Grammar Header_Parser Body_Parser Http_Parser Multipart Paths Response_Text Responses Uploads Cgi_Output
    Cgi_Launch Loop_State Event_Loop Loop_Invariants Loop_Release Loop_Reading Loop_Safety
    Loop_Turns Loop_Properties
    Conf_Numbers Conf_Lexer Conf_Parser Conf_Validate Server_Log Main_Program
begin

text \<open>
  A verification library for the HTTP/1.1 server of this repository (the C++ program under \<open>src/\<close>, whose
  directories \<open>conf\<close>, \<open>src\<close>, \<open>cgi\<close> and \<open>Headers\<close> are named below without the leading \<open>src/\<close>).

  \<^bold>\<open>The program and its model.\<close>  \<open>main\<close> reads a configuration file into a list of servers, opens a listening
  socket for each and runs a single-threaded \<open>epoll\<close> loop.  A connection collects bytes in a buffer, the
  incremental parser turns them into a request, the response handler or a CGI script answers it, and the
  answer leaves through a second buffer.  Every theory models one of these parts, in the order in which
  the program composes them:

  \<^item> \<open>Web_Prelude\<close>: \<open>size_t\<close> arithmetic modulo \<open>2 ^ 64\<close>, the result type \<open>failure \<times> state + value\<close> with
    \<open>rbind\<close>, ordered maps (\<open>omap\<close>, for \<open>std::map\<close>), strings as byte lists and their searches.
    \<open>Os_Interface\<close>: the answers of the operating system as a record, an argument of whatever asks.
  \<^item> \<open>Buffers\<close> (\<open>src/Buffer.cpp\<close>): storage, head and capacity of \<open>Buffer\<close>; the locale \<open>byte_queue\<close> is the
    contract its clients use, interpreted on the operations.
  \<^item> \<open>Config_Data\<close> (\<open>conf/locationConfig.cpp\<close>, \<open>conf/serverConfig.cpp\<close>, \<open>conf/httpConfig.cpp\<close>): the
    configuration objects and \<open>Server::matchLocation\<close>.
  \<^item> \<open>Connections\<close> (\<open>src/HttpRequest.cpp\<close>, \<open>src/Connection.cpp\<close>, \<open>src/ConnectionState.cpp\<close>): the state of a
    client, one record per class.
  \<^item> \<open>Request_Line\<close>, \<open>Request_Grammar\<close>, \<open>Header_Parser\<close>, \<open>Body_Parser\<close>, \<open>Http_Parser\<close> (\<open>src/HttpParser.cpp\<close>):
    the three stages and \<open>feed\<close>.  \<open>Incremental\<close> states, as a locale, what makes a stage independent of how
    the bytes are cut; it is interpreted for the header loop and for the chunked decoder.
  \<^item> \<open>Multipart\<close>, \<open>Paths\<close>, \<open>Response_Text\<close>, \<open>Responses\<close>, \<open>Uploads\<close> (\<open>src/ResponseHandler.cpp\<close>,
    \<open>src/ResponseHandler_helper.cpp\<close>, \<open>src/ResponseLoader.cpp\<close>): \<open>ResponseHandler::handle\<close> and all it calls.
  \<^item> \<open>Cgi_Launch\<close>, \<open>Cgi_Output\<close> (\<open>cgi/CgiHandler.cpp\<close>, \<open>cgi/CgiHelpers.cpp\<close>,
    \<open>src/EventLoop/EventLoop_helper_cgi.cpp\<close>): from a request to a child process and from its output to a
    chunked response.
  \<^item> \<open>Loop_State\<close>, \<open>Event_Loop\<close> (\<open>src/EventLoop/\<close>, \<open>src/ConnectionManager.cpp\<close>, \<open>cgi/CgiCleanning.cpp\<close>): the state
    of the loop, the registrations and every handler, up to one turn of \<open>run\<close>, \<open>stop\<close> and the destructor.
  \<^item> \<open>Conf_Numbers\<close>, \<open>Conf_Lexer\<close>, \<open>Conf_Parser\<close>, \<open>Conf_Validate\<close> (\<open>conf/\<close>, \<open>src/API_conf.cpp\<close>): from the text
    of the configuration file to the list of servers.
  \<^item> \<open>Server_Log\<close> (\<open>src/Logger.cpp\<close>) and \<open>Main_Program\<close> (\<open>src/make_listener.cpp\<close>, \<open>src/main.cpp\<close>).

  \<^bold>\<open>How code becomes definitions.\<close>  A class is a record whose fields are its members; a method is a function
  from the object to the object.  An exception is the left value of a sum, together with the state reached
  when it was thrown, since destructors and handlers see that state.  Undefined behaviour is such a value too:
  \<open>MemFault\<close> for a use of a deleted object or an access outside a buffer, \<open>Hang\<close> for a loop that does not end,
  \<open>UndefinedCast\<close> for a \<open>double\<close> that does not fit \<open>long long\<close>; so that they do not occur is something to prove.
  Pointers into a buffer are offsets; pointers to connections, jobs and \<open>EventRef\<close>s are keys of a map that is
  looked up at every use.  \<open>size_t\<close> values wrap where the code can make them wrap.  \<open>int\<close> and \<open>long\<close> values are
  unbounded integers except where a conversion cuts them (\<open>to_int32\<close>, \<open>to_size\<close>, \<open>to_longlong\<close>).  A \<open>double\<close> is the
  rational it denotes and every operation rounds to binary64, ties to even.
  System calls that change something outside the process are recorded in a trace.

  \<^bold>\<open>Loops.\<close>  Loops over data are structural recursion, or \<open>function\<close> with a measure (unread bytes or tokens).  Two
  loops may run forever and are partial functions into \<open>option\<close>: the growth loop of \<open>Buffer\<close> (\<open>grow\<close>, which does
  not end from capacity 0) and the \<open>while (true)\<close> of the chunked decoder (\<open>parseChunked\<close>); both are proved to
  return under the invariants of a connection.  No definition uses fuel.  \<open>run\<close> itself is given as turns, and a run
  of the server is a finite list of them (\<open>run_turns\<close>) or a derivation of \<open>reachable\<close>.

  \<^bold>\<open>What the lemmas show.\<close>
  \<^item> Well-formedness and safety: \<open>buf_ok\<close>, \<open>conn_ok\<close> and \<open>loop_inv\<close> are kept by every operation on buffers,
    connections and the loop (\<open>Loop_Invariants\<close>, \<open>Loop_Release\<close>, \<open>Loop_Reading\<close>, \<open>Loop_Safety\<close>, \<open>Loop_Turns\<close>), with the
    shape \<open>ends\<close>: an operation reaches its postcondition or throws an exception of the program, and never faults or
    hangs.  Joined with \<open>API_conf_servers\<close>, which says what every accepted configuration satisfies, this gives the
    safety of the whole program from its command line (\<open>Main_Program\<close>).
  \<^item> Parsing: the scanner of the request line accepts exactly the sentences of a grammar; headers, bodies of known
    length and chunked bodies are read back exactly, however the bytes are cut; a request is framed unambiguously.
    The same for configuration files: tokens come back from every layout, blocks are parsed locally, numbers are exact.
  \<^item> Answers: every request gets one well-formed response; files, uploads and scripts stay below the configured root
    (with the two exceptions the findings describe); what a script prints is relayed byte for byte.
  \<^item> Time and space: deadlines are enforced by every turn, and what is buffered for the client of a script is bounded.
  \<^item> Deviations: some properties state what the code does where that is not what it means to do (a NUL byte in
    a path, CGI paths that are not normalised, ports read modulo \<open>2 ^ 32\<close>).

  \<^bold>\<open>What is assumed of the environment\<close>, as named hypotheses: \<open>epoll_ctl\<close> can re-arm a registered descriptor
  (\<open>mods_ok\<close>); \<open>accept\<close>, \<open>pipe\<close> and \<open>socket\<close> return descriptors that are not in use (\<open>accepts_ok\<close>, \<open>pipe_ok\<close>,
  \<open>fresh_sockets\<close>); a spool file can be created and \<open>write\<close> to it takes at least one byte (\<open>tmp_ok\<close>); \<open>epoll_wait\<close>
  returns registered descriptors only, each once, with flags that were asked for (\<open>delivered\<close>).  The clock and the
  file system stand still within one event.

  \<^bold>\<open>Not modelled.\<close>  Log messages and warnings on \<open>std::cerr\<close> outside \<open>Server_Log\<close>, because nothing depends on
  them; the formatting of the \<open>Date\<close> header (\<open>strftime\<close>); signal delivery inside a handler (\<open>stop\<close> is a step between
  turns or events); socket options, whose failures are only reported; \<open>std::bad_alloc\<close>; copy constructors, assignments
  and one-field getters and setters, which are equality, record update and selection here; \<open>Logger::Stopwatch\<close>, which is
  unused.  The kernel, \<open>getaddrinfo\<close> and the C++ library are arguments or are given by what the standard says of them.
\<close>

end
